(* ===== verification/Prelude.thy ===== *)
theory Prelude
  imports Main "HOL-Library.Word" "HOL-Library.Monad_Syntax"
begin

text \<open>
  Shared vocabulary of the development: the integer types of \<^verbatim>\<open>include/rtdef.h\<close>, the error
  codes, \<^verbatim>\<open>RT_ASSERT\<close>, and a small calculus for the option-valued operations of the model.

  Every operation of the kernel that can run into \<^verbatim>\<open>rt_assert_handler\<close> (which loops for ever,
  \<^verbatim>\<open>src/kservice.c\<close>) or that dereferences an element of an empty queue is a function into
  \<open>option\<close>: \<^term>\<open>None\<close> is "the kernel is stuck in the assertion handler or has left defined
  behaviour", \<^term>\<open>Some\<close> is a normal return. \<open>ok m Q\<close> says that \<open>m\<close> returns and that the result
  satisfies \<open>Q\<close>: it is a total correctness assertion, so a lemma \<open>pre \<Longrightarrow> ok (op s) Q\<close> also shows
  that no assertion fires.
\<close>

unbundle bit_operations_syntax

section \<open>Types and constants of rtdef.h\<close>

type_synonym rt_uint8_t = "8 word"
type_synonym rt_uint16_t = "16 word"
type_synonym rt_uint32_t = "32 word"
type_synonym rt_int32_t = "32 word"   \<comment> \<open>read with \<open>sint\<close>\<close>
type_synonym rt_tick_t = "32 word"
type_synonym rt_err_t = int

abbreviation (input) RT_EOK :: rt_err_t where "RT_EOK \<equiv> 0"
abbreviation (input) RT_ERROR :: rt_err_t where "RT_ERROR \<equiv> 1"
abbreviation (input) RT_ETIMEOUT :: rt_err_t where "RT_ETIMEOUT \<equiv> 2"
abbreviation (input) RT_EFULL :: rt_err_t where "RT_EFULL \<equiv> 3"
abbreviation (input) RT_EEMPTY :: rt_err_t where "RT_EEMPTY \<equiv> 4"
abbreviation (input) RT_ENOMEM :: rt_err_t where "RT_ENOMEM \<equiv> 5"
abbreviation (input) RT_ENOSYS :: rt_err_t where "RT_ENOSYS \<equiv> 6"
abbreviation (input) RT_EBUSY :: rt_err_t where "RT_EBUSY \<equiv> 7"
abbreviation (input) RT_EIO :: rt_err_t where "RT_EIO \<equiv> 8"

text \<open>A null pointer is address 0, as in \<^verbatim>\<open>#define RT_NULL (0)\<close>.\<close>

abbreviation (input) RT_NULL :: nat where "RT_NULL \<equiv> 0"

abbreviation (input) RT_THREAD_PRIORITY_MAX :: nat where "RT_THREAD_PRIORITY_MAX \<equiv> 32"

text \<open>\<^verbatim>\<open>RT_TICK_MAX / 2\<close>, with \<^verbatim>\<open>RT_TICK_MAX = 0xffffffff\<close>.\<close>

abbreviation (input) RT_TICK_HALF :: rt_tick_t where "RT_TICK_HALF \<equiv> 0x7fffffff"

definition RT_ALIGN :: "rt_uint32_t \<Rightarrow> rt_uint32_t \<Rightarrow> rt_uint32_t" where
  "RT_ALIGN sz align = (sz + align - 1) AND NOT (align - 1)"

definition RT_ALIGN_DOWN :: "rt_uint32_t \<Rightarrow> rt_uint32_t \<Rightarrow> rt_uint32_t" where
  "RT_ALIGN_DOWN sz align = sz AND NOT (align - 1)"

section \<open>Assertions and total correctness of option-valued operations\<close>

definition RT_ASSERT :: "bool \<Rightarrow> unit option" where
  "RT_ASSERT b = (if b then Some () else None)"

definition ok :: "'a option \<Rightarrow> ('a \<Rightarrow> bool) \<Rightarrow> bool" where
  "ok m Q \<longleftrightarrow> (case m of None \<Rightarrow> False | Some x \<Rightarrow> Q x)"

named_theorems okr \<open>rewrite rules that compute \<^const>\<open>ok\<close>\<close>

lemma ok_Some [okr]: "ok (Some x) Q = Q x"
  by (simp add: ok_def)

lemma ok_None [okr]: "ok None Q = False"
  by (simp add: ok_def)

lemma ok_bind [okr]: "ok (Option.bind m f) Q = ok m (\<lambda>x. ok (f x) Q)"
  by (cases m) (simp_all add: ok_def)

lemma ok_if [okr]: "ok (if b then m else n) Q = (if b then ok m Q else ok n Q)"
  by simp

lemma ok_assert [okr]: "ok (RT_ASSERT b) Q = (b \<and> Q ())"
  by (simp add: ok_def RT_ASSERT_def)

lemma ok_prod [okr]: "ok (case p of (a, b) \<Rightarrow> m a b) Q = (case p of (a, b) \<Rightarrow> ok (m a b) Q)"
  by (cases p) simp

lemma ok_mono: "ok m P \<Longrightarrow> (\<And>x. P x \<Longrightarrow> Q x) \<Longrightarrow> ok m Q"
  by (cases m) (simp_all add: ok_def)

lemma ok_conj: "ok m P \<Longrightarrow> ok m Q \<Longrightarrow> ok m (\<lambda>x. P x \<and> Q x)"
  by (cases m) (simp_all add: ok_def)

lemma okE: "ok m Q \<Longrightarrow> (\<And>x. m = Some x \<Longrightarrow> Q x \<Longrightarrow> R) \<Longrightarrow> R"
  by (cases m) (simp_all add: ok_def)

lemma okD: "ok m Q \<Longrightarrow> m = Some x \<Longrightarrow> Q x"
  by (simp add: ok_def)

lemma ok_conv: "ok m Q \<longleftrightarrow> (\<exists>x. m = Some x \<and> Q x)"
  by (cases m) (simp_all add: ok_def)

lemma RT_ASSERT_True [simp]: "RT_ASSERT True = Some ()"
  by (simp add: RT_ASSERT_def)

lemma RT_ASSERT_False [simp]: "RT_ASSERT False = None"
  by (simp add: RT_ASSERT_def)

section \<open>Lists\<close>

lemma remove1_notin [simp]: "x \<notin> set xs \<Longrightarrow> remove1 x xs = xs"
  by (induction xs) auto

lemma remove1_append_mid [simp]: "x \<notin> set ys \<Longrightarrow> remove1 x (ys @ x # zs) = ys @ zs"
  by (simp add: remove1_append)

lemma set_remove1_distinct: "distinct xs \<Longrightarrow> set (remove1 x xs) = set xs - {x}"
  by (rule set_remove1_eq)

lemma remove1_hd_tl: "xs \<noteq> [] \<Longrightarrow> remove1 (hd xs) xs = tl xs"
  by (cases xs) simp_all

lemma sorted_wrt_remove1: "sorted_wrt P xs \<Longrightarrow> sorted_wrt P (remove1 x xs)"
  by (induction xs) (auto dest: notin_set_remove1)

section \<open>Machine words\<close>

lemma bit_push_bit_1 [simp]:
  "bit (push_bit n (1 :: 'a::len word)) m \<longleftrightarrow> m = n \<and> n < LENGTH('a)"
  by (auto simp: bit_simps)

lemma unat_sub_less_iff:
  fixes a b :: "'a::len word"
  assumes "b \<le> a"
  shows "unat (a - b) = unat a - unat b"
  using assms by (rule unat_sub)

text \<open>Flag bytes, by their bits.\<close>

lemma and_flag_iff:
  fixes f :: rt_uint8_t
  shows "f AND 1 = 0 \<longleftrightarrow> \<not> bit f 0" "f AND 2 = 0 \<longleftrightarrow> \<not> bit f 1" "f AND 4 = 0 \<longleftrightarrow> \<not> bit f 2"
proof -
  have p: "f AND push_bit k 1 = 0 \<longleftrightarrow> \<not> bit f k" if "k < 8" for k
  proof
    assume "f AND push_bit k 1 = 0"
    then have "bit (f AND push_bit k 1) k = bit (0 :: 8 word) k" by (rule arg_cong)
    with that show "\<not> bit f k" by (simp add: bit_simps)
  next
    assume "\<not> bit f k"
    with that show "f AND push_bit k 1 = 0" by (intro bit_word_eqI) (auto simp: bit_simps)
  qed
  show "f AND 1 = 0 \<longleftrightarrow> \<not> bit f 0" "f AND 2 = 0 \<longleftrightarrow> \<not> bit f 1" "f AND 4 = 0 \<longleftrightarrow> \<not> bit f 2"
    using p [of 0] p [of 1] p [of 2] by (simp_all add: push_bit_eq_mult)
qed

lemma bit_and_not_flag:
  fixes f :: rt_uint8_t
  shows "bit (f AND - 2) n \<longleftrightarrow> bit f n \<and> n \<noteq> 0" "bit (f AND - 3) n \<longleftrightarrow> bit f n \<and> n \<noteq> 1"
proof -
  have p: "bit (f AND NOT (push_bit k 1)) n \<longleftrightarrow> bit f n \<and> n \<noteq> k" for k
    by (auto simp: bit_simps dest: bit_imp_possible_bit)
  show "bit (f AND - 2) n \<longleftrightarrow> bit f n \<and> n \<noteq> 0" "bit (f AND - 3) n \<longleftrightarrow> bit f n \<and> n \<noteq> 1"
    using p [of 0] p [of 1] by (simp_all add: push_bit_eq_mult)
qed

lemma bit_or_flag:
  fixes f :: rt_uint8_t
  shows "bit (f OR 1) n \<longleftrightarrow> bit f n \<or> n = 0" "bit (f OR 2) n \<longleftrightarrow> bit f n \<or> n = 1"
proof -
  have p: "bit (f OR push_bit k 1) n \<longleftrightarrow> bit f n \<or> n = k" if "k < 8" for k
    using that by (auto simp: bit_simps)
  show "bit (f OR 1) n \<longleftrightarrow> bit f n \<or> n = 0" "bit (f OR 2) n \<longleftrightarrow> bit f n \<or> n = 1"
    using p [of 0] p [of 1] by (simp_all add: push_bit_eq_mult)
qed

lemma and_not_flag_id: "\<not> bit f 0 \<Longrightarrow> f AND - 2 = (f :: rt_uint8_t)"
  by (rule bit_word_eqI) (auto simp: bit_and_not_flag intro: gr0I)

lemmas flag_bits = and_flag_iff bit_and_not_flag bit_or_flag

text \<open>Aligning to a multiple of four.\<close>

lemma unat_and_not_3: "unat ((x :: rt_uint32_t) AND NOT 3) = unat x - unat x mod 4"
proof -
  have "(x AND NOT 3) + (x AND 3) = (x AND NOT 3) OR (x AND 3)"
    by (rule disjunctive_add) (auto simp: bit_simps)
  also have "\<dots> = x" by (rule bit_word_eqI) (auto simp: bit_simps)
  finally have e: "(x AND NOT 3) + (x AND 3) = x" .
  have "x AND 3 = take_bit 2 x" by (simp add: take_bit_eq_mask mask_eq_exp_minus_1)
  then have l: "unat (x AND 3) = unat x mod 4" by (simp add: unsigned_take_bit_eq take_bit_eq_mod unat_mod)
  have "(x AND NOT 3) \<le> x" by (rule word_and_le2)
  moreover from this have "unat (x AND NOT 3) \<le> unat x" by (simp add: word_le_nat_alt)
  moreover have "x AND 3 = x - (x AND NOT 3)" using e by (metis add_diff_cancel_left')
  ultimately show ?thesis using l by (simp add: unat_sub)
qed

lemmas unat_and_minus_4 = unat_and_not_3 [simplified]

lemma unat_align_down: "unat (RT_ALIGN_DOWN x 4) = unat x - unat x mod 4"
  by (simp add: RT_ALIGN_DOWN_def unat_and_minus_4)

lemma unat_align: "unat x + 3 < 2 ^ 32 \<Longrightarrow> unat (RT_ALIGN x 4) = unat x + 3 - (unat x + 3) mod 4"
proof -
  assume "unat x + 3 < 2 ^ 32"
  then have "unat (x + 3) = unat x + 3" by (subst unat_word_ariths) simp
  moreover have "x + 4 - 1 = x + 3" by simp
  ultimately show ?thesis by (simp add: RT_ALIGN_def unat_and_minus_4 add.commute [of 3])
qed

lemma align_mod: "unat (RT_ALIGN x 4) mod 4 = 0" "unat (RT_ALIGN_DOWN x 4) mod 4 = 0"
  by (simp_all add: RT_ALIGN_def RT_ALIGN_DOWN_def unat_and_minus_4 minus_mod_eq_div_mult mult.commute)

lemma align_succ: "RT_ALIGN x 4 + 4 \<noteq> 0 \<Longrightarrow> unat (RT_ALIGN x 4 + 4) = unat (RT_ALIGN x 4) + 4"
proof -
  let ?a = "RT_ALIGN x 4"
  assume "?a + 4 \<noteq> 0"
  then have "unat (?a + 4) \<noteq> 0" by (simp add: unat_eq_zero)
  then have "(unat ?a + 4) mod 2 ^ 32 \<noteq> 0" by (subst (asm) unat_word_ariths) simp
  moreover have "unat ?a < 2 ^ 32" using unsigned_less [of ?a, where 'a = nat] by simp
  moreover obtain k where k: "unat ?a = 4 * k" using align_mod(1) [of x] by (metis mod_0_imp_dvd dvdE)
  ultimately have "k \<noteq> 2 ^ 30 - 1" "k < 2 ^ 30" by auto
  then have "unat ?a + 4 < 2 ^ 32" using k by simp
  then show ?thesis by (subst unat_word_ariths) simp
qed

lemma align_ge: "unat x + 3 < 2 ^ 32 \<Longrightarrow> unat x \<le> unat (RT_ALIGN x 4)"
proof -
  assume "unat x + 3 < 2 ^ 32"
  moreover have "(unat x + 3) mod 4 \<le> 3" using mod_less_divisor [of 4 "unat x + 3"] by linarith
  ultimately show ?thesis using unat_align [of x] by simp
qed

lemma align_id: "unat x mod 4 = 0 \<Longrightarrow> RT_ALIGN x 4 = x"
proof -
  assume "unat x mod 4 = 0"
  then obtain k where "unat x = 4 * k" by (metis mod_0_imp_dvd dvdE)
  moreover have "unat x < 2 ^ 32" using unsigned_less [of x, where 'a = nat] by simp
  ultimately have "unat x + 3 < 2 ^ 32" "(unat x + 3) mod 4 = 3" by auto
  from unat_align [OF this(1)] this(2) show ?thesis by (simp add: word_unat_eq_iff)
qed

end
