(* ===== verification/Klist.thy ===== *)
theory Klist
  imports Prelude
begin

text \<open>
  The intrusive doubly linked list of \<^verbatim>\<open>include/rtservice.h\<close> on a store of nodes, and the list
  store \<open>'h \<Rightarrow> 'n list\<close> the rest of the development works with.

  Every queue of the kernel (ready queues, suspend queues, timer lists, object containers) is
  such a ring. The removal \<^verbatim>\<open>rt_list_remove(n)\<close> does not name the list \<open>n\<close> is in; on the list
  store it is therefore \<open>qs_remove\<close>, which removes the node from every queue. The locale
  \<open>klist\<close> states what the operations promise; it is interpreted on the pointer implementation,
  which shows that the list store is a faithful abstraction of the rings as long as a node is
  inserted only while it is in no queue.
\<close>

section \<open>The pointer implementation\<close>

type_synonym addr = nat

record rt_list_node =
  n_next :: addr
  n_prev :: addr

type_synonym lheap = "addr \<Rightarrow> rt_list_node"

definition set_next :: "addr \<Rightarrow> addr \<Rightarrow> lheap \<Rightarrow> lheap" where
  "set_next a v h = h(a := (h a)\<lparr>n_next := v\<rparr>)"

definition set_prev :: "addr \<Rightarrow> addr \<Rightarrow> lheap \<Rightarrow> lheap" where
  "set_prev a v h = h(a := (h a)\<lparr>n_prev := v\<rparr>)"

definition rt_list_init :: "addr \<Rightarrow> lheap \<Rightarrow> lheap" where
  "rt_list_init l h = set_next l l (set_prev l l h)"

definition rt_list_insert_after :: "addr \<Rightarrow> addr \<Rightarrow> lheap \<Rightarrow> lheap" where
  "rt_list_insert_after l n h0 =
     (let h1 = set_prev (n_next (h0 l)) n h0;
          h2 = set_next n (n_next (h1 l)) h1;
          h3 = set_next l n h2
      in set_prev n l h3)"

definition rt_list_insert_before :: "addr \<Rightarrow> addr \<Rightarrow> lheap \<Rightarrow> lheap" where
  "rt_list_insert_before l n h0 =
     (let h1 = set_next (n_prev (h0 l)) n h0;
          h2 = set_prev n (n_prev (h1 l)) h1;
          h3 = set_prev l n h2
      in set_next n l h3)"

definition rt_list_remove :: "addr \<Rightarrow> lheap \<Rightarrow> lheap" where
  "rt_list_remove n h0 =
     (let h1 = set_prev (n_next (h0 n)) (n_prev (h0 n)) h0;
          h2 = set_next (n_prev (h1 n)) (n_next (h1 n)) h1;
          h3 = set_prev n n h2
      in set_next n n h3)"

definition rt_list_isempty :: "addr \<Rightarrow> lheap \<Rightarrow> bool" where
  "rt_list_isempty l h \<longleftrightarrow> n_next (h l) = l"

definition list_first_entry :: "addr \<Rightarrow> lheap \<Rightarrow> addr" where
  "list_first_entry l h = n_next (h l)"

lemmas list_op_defs = set_next_def set_prev_def rt_list_init_def rt_list_insert_after_def
  rt_list_insert_before_def rt_list_remove_def rt_list_isempty_def list_first_entry_def

section \<open>Chains and rings\<close>

text \<open>\<open>chain h a xs b\<close>: following \<open>next\<close> from \<open>a\<close> visits \<open>xs\<close> and then \<open>b\<close>, and \<open>prev\<close> leads back.\<close>

fun chain :: "lheap \<Rightarrow> addr \<Rightarrow> addr list \<Rightarrow> addr \<Rightarrow> bool" where
  "chain h a [] b \<longleftrightarrow> n_next (h a) = b \<and> n_prev (h b) = a"
| "chain h a (x # xs) b \<longleftrightarrow> n_next (h a) = x \<and> n_prev (h x) = a \<and> chain h x xs b"

definition ring :: "lheap \<Rightarrow> addr \<Rightarrow> addr list \<Rightarrow> bool" where
  "ring h l xs \<longleftrightarrow> distinct (l # xs) \<and> chain h l xs l"

lemma chain_append [simp]:
  "chain h a (xs @ x # ys) b \<longleftrightarrow> chain h a xs x \<and> chain h x ys b"
  by (induction xs arbitrary: a) auto

lemma chain_cong:
  "(\<And>y. y \<in> insert a (set xs) \<Longrightarrow> n_next (h' y) = n_next (h y)) \<Longrightarrow>
   (\<And>y. y \<in> insert b (set xs) \<Longrightarrow> n_prev (h' y) = n_prev (h y)) \<Longrightarrow>
   chain h' a xs b = chain h a xs b"
  by (induction xs arbitrary: a) auto

text \<open>The end of a chain is entered from its last element.\<close>

lemma chain_last: "chain h a xs b \<Longrightarrow> n_prev (h b) = last (a # xs)"
  by (induction xs arbitrary: a) auto

lemma chain_first: "chain h a xs b \<Longrightarrow> n_next (h a) = hd (xs @ [b])"
  by (cases xs) auto

lemma ring_unlinked: "ring h n [] \<longleftrightarrow> n_next (h n) = n \<and> n_prev (h n) = n"
  by (auto simp: ring_def)

lemma ring_frame:
  assumes "ring h l xs"
    and "\<And>y. y \<in> insert l (set xs) \<Longrightarrow> h' y = h y"
  shows "ring h' l xs"
proof -
  have "chain h' l xs l = chain h l xs l"
    by (rule chain_cong) (use assms(2) in auto)
  with assms(1) show ?thesis by (simp add: ring_def)
qed

lemma ring_init: "ring (rt_list_init l h) l []"
  by (simp add: ring_def list_op_defs)

lemma ring_isempty: "ring h l xs \<Longrightarrow> rt_list_isempty l h \<longleftrightarrow> xs = []"
  by (cases xs) (auto simp: ring_def list_op_defs)

lemma ring_first: "ring h l xs \<Longrightarrow> xs \<noteq> [] \<Longrightarrow> list_first_entry l h = hd xs"
  by (cases xs) (auto simp: ring_def list_op_defs)

text \<open>
  The footprint of the operations: which nodes they write. Everything else is framed.
\<close>

lemma insert_before_frame:
  "y \<noteq> n \<Longrightarrow> y \<noteq> l \<Longrightarrow> y \<noteq> n_prev (h l) \<Longrightarrow> rt_list_insert_before l n h y = h y"
  by (simp add: list_op_defs Let_def)

lemma insert_after_frame:
  "y \<noteq> n \<Longrightarrow> y \<noteq> l \<Longrightarrow> y \<noteq> n_next (h l) \<Longrightarrow> rt_list_insert_after l n h y = h y"
  by (simp add: list_op_defs Let_def)

lemma remove_frame:
  "y \<noteq> n \<Longrightarrow> y \<noteq> n_next (h n) \<Longrightarrow> y \<noteq> n_prev (h n) \<Longrightarrow> rt_list_remove n h y = h y"
  by (simp add: list_op_defs Let_def)

section \<open>What one operation does to one ring\<close>

text \<open>The two fields after an operation, as functions of the fields before it.\<close>

lemma insert_before_next:
  "n \<noteq> l \<Longrightarrow> n \<noteq> n_prev (h l) \<Longrightarrow> n_next (rt_list_insert_before l n h y) =
     (if y = n_prev (h l) then n else if y = n then l else n_next (h y))"
  by (simp add: list_op_defs Let_def)

lemma insert_before_prev:
  "n \<noteq> l \<Longrightarrow> n \<noteq> n_prev (h l) \<Longrightarrow> n_prev (rt_list_insert_before l n h y) =
     (if y = l then n else if y = n then n_prev (h l) else n_prev (h y))"
  by (simp add: list_op_defs Let_def)

lemma insert_after_next:
  "n \<noteq> l \<Longrightarrow> n \<noteq> n_next (h l) \<Longrightarrow> n_next (rt_list_insert_after l n h y) =
     (if y = l then n else if y = n then n_next (h l) else n_next (h y))"
  by (simp add: list_op_defs Let_def)

lemma insert_after_prev:
  "n \<noteq> l \<Longrightarrow> n \<noteq> n_next (h l) \<Longrightarrow> n_prev (rt_list_insert_after l n h y) =
     (if y = n_next (h l) then n else if y = n then l else n_prev (h y))"
  by (simp add: list_op_defs Let_def)

lemma remove_next:
  "n_next (h n) \<noteq> n \<Longrightarrow> n_prev (h n) \<noteq> n \<Longrightarrow> n_next (rt_list_remove n h y) =
     (if y = n then n else if y = n_prev (h n) then n_next (h n) else n_next (h y))"
  by (simp add: list_op_defs Let_def)

lemma remove_prev:
  "n_next (h n) \<noteq> n \<Longrightarrow> n_prev (h n) \<noteq> n \<Longrightarrow> n_prev (rt_list_remove n h y) =
     (if y = n then n else if y = n_next (h n) then n_prev (h n) else n_prev (h y))"
  by (simp add: list_op_defs Let_def)

lemma remove_unlinked: "ring h n [] \<Longrightarrow> rt_list_remove n h = h"
  by (rule ext) (simp add: ring_unlinked list_op_defs Let_def)

text \<open>Redirecting the far end of a chain to another node.\<close>

lemma chain_retarget:
  "chain h a xs b \<Longrightarrow> distinct (a # xs) \<Longrightarrow>
   (\<And>y. y \<in> set (a # xs) \<Longrightarrow>
      n_next (h' y) = (if y = last (a # xs) then c else n_next (h y))) \<Longrightarrow>
   (\<And>y. y \<in> set xs \<Longrightarrow> n_prev (h' y) = n_prev (h y)) \<Longrightarrow>
   n_prev (h' c) = last (a # xs) \<Longrightarrow> chain h' a xs c"
proof (induction xs arbitrary: a)
  case Nil
  then show ?case by simp
next
  case (Cons x xs)
  have "last (x # xs) \<noteq> a" using Cons.prems(2) last_in_set [of "x # xs"] by auto
  moreover have "chain h' x xs c"
  proof (rule Cons.IH)
    show "chain h x xs b" using Cons.prems(1) by simp
    show "distinct (x # xs)" using Cons.prems(2) by simp
    show "n_next (h' y) = (if y = last (x # xs) then c else n_next (h y))"
      if "y \<in> set (x # xs)" for y
      using Cons.prems(3) [of y] that by auto
    show "n_prev (h' y) = n_prev (h y)" if "y \<in> set xs" for y
      using Cons.prems(4) [of y] that by auto
    show "n_prev (h' c) = last (x # xs)" using Cons.prems(5) by simp
  qed
  ultimately show ?case
    using Cons.prems(1) Cons.prems(3) [of a] Cons.prems(4) [of x] by auto
qed

lemma ring_insert_before_head:
  assumes "ring h l xs" "n \<notin> insert l (set xs)"
  shows "ring (rt_list_insert_before l n h) l (xs @ [n])"
proof -
  have ch: "chain h l xs l" and d: "distinct (l # xs)" using assms(1) by (simp_all add: ring_def)
  have q: "n_prev (h l) = last (l # xs)" using chain_last [OF ch] .
  have nq: "n \<noteq> n_prev (h l)" using q assms(2) last_in_set [of "l # xs"] by auto
  have nl: "n \<noteq> l" using assms(2) by simp
  note f = insert_before_next [of n l h, OF nl nq] insert_before_prev [of n l h, OF nl nq]
  have "chain (rt_list_insert_before l n h) l xs n"
    by (rule chain_retarget [OF ch d]) (use assms(2) d q nl in \<open>auto simp: f\<close>)
  moreover have "chain (rt_list_insert_before l n h) n [] l"
    using nl nq by (simp add: f)
  ultimately show ?thesis using d assms(2) by (auto simp: ring_def)
qed

lemma ring_insert_before_node:
  assumes "ring h l (ys @ p # zs)" "n \<notin> insert l (set (ys @ p # zs))"
  shows "ring (rt_list_insert_before p n h) l (ys @ n # p # zs)"
proof -
  have c1: "chain h l ys p" and c2: "chain h p zs l" and d: "distinct (l # ys @ p # zs)"
    using assms(1) by (simp_all add: ring_def)
  have d1: "distinct (l # ys)" using d by auto
  have q: "n_prev (h p) = last (l # ys)" using chain_last [OF c1] .
  have qi: "last (l # ys) \<in> set (l # ys)" by (rule last_in_set) simp
  have nq: "n \<noteq> n_prev (h p)" using q assms(2) qi by auto
  have np: "n \<noteq> p" using assms(2) by simp
  note f = insert_before_next [of n p h, OF np nq] insert_before_prev [of n p h, OF np nq]
  have "chain (rt_list_insert_before p n h) l ys n"
    by (rule chain_retarget [OF c1 d1]) (use assms(2) d q np in \<open>auto simp: f\<close>)
  moreover have "chain (rt_list_insert_before p n h) n [] p"
    using np nq by (simp add: f)
  moreover have "chain (rt_list_insert_before p n h) p zs l = chain h p zs l"
    by (rule chain_cong) (use assms(2) d q qi in \<open>auto simp: f\<close>)
  ultimately show ?thesis using d assms(2) c2 by (auto simp: ring_def)
qed

lemma ring_insert_after_head:
  assumes "ring h l xs" "n \<notin> insert l (set xs)"
  shows "ring (rt_list_insert_after l n h) l (n # xs)"
proof -
  have ch: "chain h l xs l" and d: "distinct (l # xs)" using assms(1) by (simp_all add: ring_def)
  have r: "n_next (h l) = hd (xs @ [l])" using chain_first [OF ch] .
  have nr: "n \<noteq> n_next (h l)" using r assms(2) by (cases xs) auto
  have nl: "n \<noteq> l" using assms(2) by simp
  note f = insert_after_next [of n l h, OF nl nr] insert_after_prev [of n l h, OF nl nr]
  show ?thesis
  proof (cases xs)
    case Nil
    then show ?thesis using ch nl nr by (simp add: ring_def f)
  next
    case (Cons x xs')
    have "chain (rt_list_insert_after l n h) x xs' l = chain h x xs' l"
      by (rule chain_cong) (use assms(2) d r Cons in \<open>auto simp: f\<close>)
    then show ?thesis using ch nl nr d assms(2) Cons r by (auto simp: ring_def f)
  qed
qed

lemma ring_remove:
  assumes "ring h l (ys @ n # zs)"
  shows "ring (rt_list_remove n h) l (ys @ zs)" and "ring (rt_list_remove n h) n []"
proof -
  have c1: "chain h l ys n" and c2: "chain h n zs l" and d: "distinct (l # ys @ n # zs)"
    using assms(1) by (simp_all add: ring_def)
  have d1: "distinct (l # ys)" using d by auto
  have q: "n_prev (h n) = last (l # ys)" using chain_last [OF c1] .
  have qi: "last (l # ys) \<in> set (l # ys)" by (rule last_in_set) simp
  have r: "n_next (h n) = hd (zs @ [l])" using chain_first [OF c2] .
  have nq: "n_prev (h n) \<noteq> n" using q qi d by auto
  have nr: "n_next (h n) \<noteq> n" using r d by (cases zs) auto
  note f = remove_next [of h n, OF nr nq] remove_prev [of h n, OF nr nq]
  show "ring (rt_list_remove n h) n []" by (simp add: ring_unlinked f)
  show "ring (rt_list_remove n h) l (ys @ zs)"
  proof (cases zs)
    case Nil
    have "chain (rt_list_remove n h) l ys l"
      by (rule chain_retarget [OF c1 d1]) (use d q r Nil in \<open>auto simp: f\<close>)
    then show ?thesis using d Nil by (auto simp: ring_def)
  next
    case (Cons z zs')
    have "chain (rt_list_remove n h) l ys z"
      by (rule chain_retarget [OF c1 d1]) (use d q r Cons in \<open>auto simp: f\<close>)
    moreover have "chain (rt_list_remove n h) z zs' l = chain h z zs' l"
      by (rule chain_cong) (use d q r qi Cons in \<open>auto simp: f\<close>)
    ultimately show ?thesis using d c2 Cons by (auto simp: ring_def)
  qed
qed

section \<open>The list store\<close>

text \<open>
  \<open>'h \<Rightarrow> 'n list\<close>: for every list head the nodes linked to it, first to last. Inserting before
  the head appends, inserting after the head prepends.
\<close>

type_synonym ('h, 'n) qstore = "'h \<Rightarrow> 'n list"

fun ins_before :: "'n \<Rightarrow> 'n \<Rightarrow> 'n list \<Rightarrow> 'n list" where
  "ins_before p n [] = []"
| "ins_before p n (x # xs) = (if x = p then n # x # xs else x # ins_before p n xs)"

definition qs_init :: "'h \<Rightarrow> ('h, 'n) qstore \<Rightarrow> ('h, 'n) qstore" where
  "qs_init l L = L(l := [])"

definition qs_push_back :: "'h \<Rightarrow> 'n \<Rightarrow> ('h, 'n) qstore \<Rightarrow> ('h, 'n) qstore" where
  "qs_push_back l n L = L(l := L l @ [n])"

definition qs_push_front :: "'h \<Rightarrow> 'n \<Rightarrow> ('h, 'n) qstore \<Rightarrow> ('h, 'n) qstore" where
  "qs_push_front l n L = L(l := n # L l)"

definition qs_insert_before :: "'n \<Rightarrow> 'n \<Rightarrow> ('h, 'n) qstore \<Rightarrow> ('h, 'n) qstore" where
  "qs_insert_before p n L = (\<lambda>l. ins_before p n (L l))"

definition qs_remove :: "'n \<Rightarrow> ('h, 'n) qstore \<Rightarrow> ('h, 'n) qstore" where
  "qs_remove n L = (\<lambda>l. remove1 n (L l))"

definition qs_free :: "'n \<Rightarrow> ('h, 'n) qstore \<Rightarrow> bool" where
  "qs_free n L \<longleftrightarrow> (\<forall>l. n \<notin> set (L l))"

text \<open>A store is well formed when a node is in at most one queue, once.\<close>

definition qs_wf :: "('h, 'n) qstore \<Rightarrow> bool" where
  "qs_wf L \<longleftrightarrow> (\<forall>l. distinct (L l)) \<and> (\<forall>l l'. l \<noteq> l' \<longrightarrow> set (L l) \<inter> set (L l') = {})"

lemma ins_before_notin: "p \<notin> set xs \<Longrightarrow> ins_before p n xs = xs"
  by (induction xs) auto

lemma ins_before_split: "p \<notin> set ys \<Longrightarrow> ins_before p n (ys @ p # zs) = ys @ n # p # zs"
  by (induction ys) auto

lemma set_ins_before [simp]:
  "set (ins_before p n xs) = (if p \<in> set xs then insert n (set xs) else set xs)"
  by (induction xs) auto

lemma distinct_ins_before [simp]:
  "n \<notin> set xs \<Longrightarrow> distinct (ins_before p n xs) = distinct xs"
  by (induction xs) auto

lemma qs_wfD:
  "qs_wf L \<Longrightarrow> distinct (L l)"
  "qs_wf L \<Longrightarrow> n \<in> set (L l) \<Longrightarrow> n \<in> set (L l') \<Longrightarrow> l' = l"
  unfolding qs_wf_def by blast+

lemma qs_wf_remove: "qs_wf L \<Longrightarrow> qs_wf (qs_remove n L)"
  by (fastforce simp: qs_wf_def qs_remove_def dest: notin_set_remove1)

lemma qs_free_remove: "qs_wf L \<Longrightarrow> qs_free n (qs_remove n L)"
  by (simp add: qs_free_def qs_remove_def qs_wf_def)

lemma qs_wf_push_back: "qs_wf L \<Longrightarrow> qs_free n L \<Longrightarrow> qs_wf (qs_push_back l n L)"
  by (auto simp: qs_wf_def qs_free_def qs_push_back_def)

lemma qs_wf_push_front: "qs_wf L \<Longrightarrow> qs_free n L \<Longrightarrow> qs_wf (qs_push_front l n L)"
  by (auto simp: qs_wf_def qs_free_def qs_push_front_def)

lemma qs_wf_insert_before: "qs_wf L \<Longrightarrow> qs_free n L \<Longrightarrow> qs_wf (qs_insert_before p n L)"
  unfolding qs_wf_def qs_free_def qs_insert_before_def by (auto split: if_splits) blast

lemma set_qs_remove: "qs_wf L \<Longrightarrow> set (qs_remove n L l) = set (L l) - {n}"
  by (simp add: qs_remove_def qs_wf_def)

lemma qs_remove_free: "qs_free n L \<Longrightarrow> qs_remove n L = L"
  by (simp add: qs_free_def qs_remove_def fun_eq_iff)

lemma qs_remove_at:
  "qs_wf L \<Longrightarrow> n \<in> set (L l) \<Longrightarrow> qs_remove n L = L(l := remove1 n (L l))"
  unfolding qs_remove_def fun_eq_iff by (metis fun_upd_apply qs_wfD(2) remove1_notin)

section \<open>The interface\<close>

text \<open>
  A client's use of the lists is a sequence of operations; \<open>list_run\<close> executes it with any
  implementation of them, \<open>ops_valid\<close> says that every insertion is of a node in no queue, next
  to a head or to a linked node.
\<close>

datatype list_op =
    Op_before addr addr
  | Op_before_node addr addr
  | Op_after addr addr
  | Op_remove addr

fun list_run :: "(addr \<Rightarrow> addr \<Rightarrow> 's \<Rightarrow> 's) \<Rightarrow> (addr \<Rightarrow> addr \<Rightarrow> 's \<Rightarrow> 's) \<Rightarrow>
    (addr \<Rightarrow> addr \<Rightarrow> 's \<Rightarrow> 's) \<Rightarrow> (addr \<Rightarrow> 's \<Rightarrow> 's) \<Rightarrow> list_op list \<Rightarrow> 's \<Rightarrow> 's" where
  "list_run bh bn ah rm [] s = s"
| "list_run bh bn ah rm (Op_before l n # xs) s = list_run bh bn ah rm xs (bh l n s)"
| "list_run bh bn ah rm (Op_before_node p n # xs) s = list_run bh bn ah rm xs (bn p n s)"
| "list_run bh bn ah rm (Op_after l n # xs) s = list_run bh bn ah rm xs (ah l n s)"
| "list_run bh bn ah rm (Op_remove n # xs) s = list_run bh bn ah rm xs (rm n s)"

abbreviation qs_run :: "list_op list \<Rightarrow> (addr, addr) qstore \<Rightarrow> (addr, addr) qstore" where
  "qs_run \<equiv> list_run qs_push_back qs_insert_before qs_push_front qs_remove"

fun op_valid :: "addr set \<Rightarrow> addr set \<Rightarrow> (addr, addr) qstore \<Rightarrow> list_op \<Rightarrow> bool" where
  "op_valid H N L (Op_before l n) \<longleftrightarrow> l \<in> H \<and> n \<in> N \<and> qs_free n L"
| "op_valid H N L (Op_before_node p n) \<longleftrightarrow> \<not> qs_free p L \<and> n \<in> N \<and> qs_free n L"
| "op_valid H N L (Op_after l n) \<longleftrightarrow> l \<in> H \<and> n \<in> N \<and> qs_free n L"
| "op_valid H N L (Op_remove n) \<longleftrightarrow> n \<in> N"

fun ops_valid :: "addr set \<Rightarrow> addr set \<Rightarrow> (addr, addr) qstore \<Rightarrow> list_op list \<Rightarrow> bool" where
  "ops_valid H N L [] \<longleftrightarrow> True"
| "ops_valid H N L (x # xs) \<longleftrightarrow> op_valid H N L x \<and> ops_valid H N (qs_run [x] L) xs"

text \<open>
  What the kernel relies on: \<open>repr s L\<close> reads the implementation state \<open>s\<close> as the list store \<open>L\<close>
  over the heads \<open>heads\<close> and the nodes \<open>nodes\<close>.
\<close>

locale klist =
  fixes heads :: "addr set" and nodes :: "addr set"
    and repr :: "'s \<Rightarrow> (addr, addr) qstore \<Rightarrow> bool"
    and insert_before :: "addr \<Rightarrow> addr \<Rightarrow> 's \<Rightarrow> 's"
    and insert_after :: "addr \<Rightarrow> addr \<Rightarrow> 's \<Rightarrow> 's"
    and remove :: "addr \<Rightarrow> 's \<Rightarrow> 's"
    and isempty :: "addr \<Rightarrow> 's \<Rightarrow> bool"
    and first :: "addr \<Rightarrow> 's \<Rightarrow> addr"
  assumes repr_wf: "repr s L \<Longrightarrow> qs_wf L"
    and repr_before: "repr s L \<Longrightarrow> l \<in> heads \<Longrightarrow> n \<in> nodes \<Longrightarrow> qs_free n L \<Longrightarrow>
      repr (insert_before l n s) (qs_push_back l n L)"
    and repr_before_node: "repr s L \<Longrightarrow> p \<in> set (L l) \<Longrightarrow> n \<in> nodes \<Longrightarrow> qs_free n L \<Longrightarrow>
      repr (insert_before p n s) (qs_insert_before p n L)"
    and repr_after: "repr s L \<Longrightarrow> l \<in> heads \<Longrightarrow> n \<in> nodes \<Longrightarrow> qs_free n L \<Longrightarrow>
      repr (insert_after l n s) (qs_push_front l n L)"
    and repr_remove: "repr s L \<Longrightarrow> n \<in> nodes \<Longrightarrow> repr (remove n s) (qs_remove n L)"
    and repr_isempty: "repr s L \<Longrightarrow> l \<in> heads \<Longrightarrow> isempty l s \<longleftrightarrow> L l = []"
    and repr_first: "repr s L \<Longrightarrow> l \<in> heads \<Longrightarrow> L l \<noteq> [] \<Longrightarrow> first l s = hd (L l)"
begin

text \<open>Taking a node out of whatever queue holds it and appending it to another one.\<close>

lemma repr_move:
  assumes "repr s L" "l \<in> heads" "n \<in> nodes"
  shows "repr (insert_before l n (remove n s)) (qs_push_back l n (qs_remove n L))"
  using assms by (intro repr_before repr_remove qs_free_remove repr_wf)

text \<open>Moving the first node of a queue to its end rotates the queue.\<close>

lemma repr_rotate:
  assumes "repr s L" "l \<in> heads" "n \<in> nodes" "L l = n # xs"
  shows "repr (insert_before l n (remove n s)) (L(l := xs @ [n]))"
proof -
  have "qs_push_back l n (qs_remove n L) = L(l := xs @ [n])"
    using qs_remove_at [of L n l] repr_wf [OF assms(1)] assms(4)
    by (simp add: qs_push_back_def fun_eq_iff)
  then show ?thesis using repr_move [OF assms(1-3)] by simp
qed

text \<open>Any valid sequence of operations keeps implementation and list store in step.\<close>

lemma repr_run:
  "repr s L \<Longrightarrow> ops_valid heads nodes L xs \<Longrightarrow>
   repr (list_run insert_before insert_before insert_after remove xs s) (qs_run xs L)"
proof (induction xs arbitrary: s L)
  case Nil
  then show ?case by simp
next
  case (Cons x xs)
  show ?case
  proof (cases x)
    case (Op_before l n)
    then show ?thesis using Cons by (auto intro: repr_before)
  next
    case (Op_before_node p n)
    then obtain l where "p \<in> set (L l)" using Cons.prems by (auto simp: qs_free_def)
    then show ?thesis using Cons Op_before_node by (auto intro: repr_before_node)
  next
    case (Op_after l n)
    then show ?thesis using Cons by (auto intro: repr_after)
  next
    case (Op_remove n)
    then show ?thesis using Cons by (auto intro: repr_remove)
  qed
qed

end

section \<open>The pointer implementation meets the interface\<close>

text \<open>
  Every head carries the ring of its queue, the queues are disjoint, and a node in no queue is
  linked to itself, as \<^const>\<open>rt_list_init\<close> and \<^const>\<open>rt_list_remove\<close> leave it.
\<close>

definition klist_repr :: "addr set \<Rightarrow> addr set \<Rightarrow> lheap \<Rightarrow> (addr, addr) qstore \<Rightarrow> bool" where
  "klist_repr H N h L \<longleftrightarrow>
     H \<inter> N = {} \<and> qs_wf L \<and> (\<forall>l. l \<notin> H \<longrightarrow> L l = []) \<and> (\<forall>l. set (L l) \<subseteq> N) \<and>
     (\<forall>l \<in> H. ring h l (L l)) \<and> (\<forall>n \<in> N. qs_free n L \<longrightarrow> ring h n [])"

lemma klist_reprI:
  assumes "H \<inter> N = {}" "qs_wf L" "\<And>l. l \<notin> H \<Longrightarrow> L l = []" "\<And>l. set (L l) \<subseteq> N"
    "\<And>l. l \<in> H \<Longrightarrow> ring h l (L l)" "\<And>n. n \<in> N \<Longrightarrow> qs_free n L \<Longrightarrow> ring h n []"
  shows "klist_repr H N h L"
  using assms by (auto simp: klist_repr_def)

lemma klist_reprD:
  assumes "klist_repr H N h L"
  shows "H \<inter> N = {}" "qs_wf L" "l \<notin> H \<Longrightarrow> L l = []" "set (L l) \<subseteq> N"
    "l \<in> H \<Longrightarrow> ring h l (L l)" "n \<in> N \<Longrightarrow> qs_free n L \<Longrightarrow> ring h n []"
  using assms by (auto simp: klist_repr_def)

text \<open>
  One lemma for all the updates: the ring of one head \<open>l\<close> changes from \<open>L l\<close> to \<open>xs\<close>, the node
  store changes only inside the old ring and the node \<open>n\<close>.
\<close>

lemma klist_repr_update:
  assumes r: "klist_repr H N h L" and l: "l \<in> H" and n: "n \<in> N"
    and own: "qs_free n L \<or> n \<in> set (L l)"
    and frame: "\<And>y. y \<notin> insert n (insert l (set (L l))) \<Longrightarrow> h' y = h y"
    and ring: "ring h' l xs"
    and elems: "set xs \<subseteq> insert n (set (L l))" "set (L l) - {n} \<subseteq> set xs"
    and unlinked: "n \<notin> set xs \<Longrightarrow> ring h' n []"
    and wf: "qs_wf (L(l := xs))"
  shows "klist_repr H N h' (L(l := xs))"
proof (rule klist_reprI)
  note D = klist_reprD [OF r]
  show "H \<inter> N = {}" by (rule D(1))
  show "qs_wf (L(l := xs))" by (rule wf)
  show "(L(l := xs)) l' = []" if "l' \<notin> H" for l' using that l D(3) by auto
  show "set ((L(l := xs)) l') \<subseteq> N" for l' using elems(1) n D(4) [of l] D(4) [of l'] by auto
  have dis: "y \<notin> insert n (insert l (set (L l)))"
    if "l' \<in> H" "l' \<noteq> l" "y \<in> insert l' (set (L l'))" for l' y
  proof -
    have "n \<notin> set (L l')"
      using own that(2) qs_wfD(2) [OF D(2), of n l l'] by (auto simp: qs_free_def)
    moreover have "y \<notin> set (L l)" if "y \<in> set (L l')"
      using that \<open>l' \<noteq> l\<close> qs_wfD(2) [OF D(2), of y l l'] by blast
    moreover have "l' \<notin> set (L l)" "l \<notin> set (L l')" "l' \<noteq> n"
      using D(1) D(4) [of l] D(4) [of l'] that(1) l n by auto
    ultimately show ?thesis using that by auto
  qed
  show "ring h' l' ((L(l := xs)) l')" if "l' \<in> H" for l'
  proof (cases "l' = l")
    case True
    then show ?thesis using ring by simp
  next
    case False
    have "ring h' l' (L l')"
      by (rule ring_frame [OF D(5) [OF that]]) (use frame dis [OF that False] in blast)
    then show ?thesis using False by simp
  qed
  show "ring h' m []" if m: "m \<in> N" "qs_free m (L(l := xs))" for m
  proof (cases "m = n")
    case True
    then have "n \<notin> set xs" using m(2) by (auto simp: qs_free_def dest: spec [of _ l])
    then show ?thesis using True unlinked by simp
  next
    case False
    have "m \<notin> set xs" "\<forall>l'. l' \<noteq> l \<longrightarrow> m \<notin> set (L l')"
      using m(2) by (auto simp: qs_free_def split: if_splits)
    then have fr: "qs_free m L" and ml: "m \<notin> set (L l)" using elems(2) False by (auto simp: qs_free_def)
    have "m \<noteq> l" using D(1) m(1) l by auto
    have "ring h' m []"
      by (rule ring_frame [OF D(6) [OF m(1) fr]]) (use frame False ml \<open>m \<noteq> l\<close> in auto)
    then show ?thesis .
  qed
qed

lemma ring_prev_in: "ring h l xs \<Longrightarrow> n_prev (h l) \<in> insert l (set xs)"
  using chain_last [of h l xs l] last_in_set [of "l # xs"] by (auto simp: ring_def)

lemma ring_next_in: "ring h l xs \<Longrightarrow> n_next (h l) \<in> insert l (set xs)"
  using chain_first [of h l xs l] by (cases xs) (auto simp: ring_def)

lemma klist_repr_before:
  assumes r: "klist_repr H N h L" and l: "l \<in> H" and n: "n \<in> N" and fr: "qs_free n L"
  shows "klist_repr H N (rt_list_insert_before l n h) (qs_push_back l n L)"
proof -
  note D = klist_reprD [OF r]
  have nin: "n \<notin> insert l (set (L l))" using fr D(1) l n by (auto simp: qs_free_def)
  show ?thesis
    unfolding qs_push_back_def
  proof (rule klist_repr_update [OF r l n disjI1 [OF fr]])
    show "rt_list_insert_before l n h y = h y" if "y \<notin> insert n (insert l (set (L l)))" for y
      using that ring_prev_in [OF D(5) [OF l]] by (intro insert_before_frame) auto
    show "ring (rt_list_insert_before l n h) l (L l @ [n])"
      by (rule ring_insert_before_head [OF D(5) [OF l] nin])
    show "qs_wf (L(l := L l @ [n]))"
      using qs_wf_push_back [OF D(2) fr, of l] by (simp add: qs_push_back_def)
  qed auto
qed

lemma klist_repr_after:
  assumes r: "klist_repr H N h L" and l: "l \<in> H" and n: "n \<in> N" and fr: "qs_free n L"
  shows "klist_repr H N (rt_list_insert_after l n h) (qs_push_front l n L)"
proof -
  note D = klist_reprD [OF r]
  have nin: "n \<notin> insert l (set (L l))" using fr D(1) l n by (auto simp: qs_free_def)
  show ?thesis
    unfolding qs_push_front_def
  proof (rule klist_repr_update [OF r l n disjI1 [OF fr]])
    show "rt_list_insert_after l n h y = h y" if "y \<notin> insert n (insert l (set (L l)))" for y
      using that ring_next_in [OF D(5) [OF l]] by (intro insert_after_frame) auto
    show "ring (rt_list_insert_after l n h) l (n # L l)"
      by (rule ring_insert_after_head [OF D(5) [OF l] nin])
    show "qs_wf (L(l := n # L l))"
      using qs_wf_push_front [OF D(2) fr, of l] by (simp add: qs_push_front_def)
  qed auto
qed

lemma klist_repr_before_node:
  assumes r: "klist_repr H N h L" and p: "p \<in> set (L l)" and n: "n \<in> N" and fr: "qs_free n L"
  shows "klist_repr H N (rt_list_insert_before p n h) (qs_insert_before p n L)"
proof -
  note D = klist_reprD [OF r]
  have l: "l \<in> H" using D(3) [of l] p by (cases "l \<in> H") auto
  from split_list [OF p] obtain ys zs where s: "L l = ys @ p # zs" by blast
  have d: "distinct (l # ys @ p # zs)" and c: "chain h l ys p"
    using D(5) [OF l] by (simp_all add: ring_def s)
  have eq: "qs_insert_before p n L = L(l := ys @ n # p # zs)"
  proof
    fix k
    have "p \<notin> set (L k)" if "k \<noteq> l" using that p qs_wfD(2) [OF D(2), of p l k] by blast
    then show "qs_insert_before p n L k = (L(l := ys @ n # p # zs)) k"
      using d by (auto simp: qs_insert_before_def ins_before_notin ins_before_split s)
  qed
  have nin: "n \<notin> insert l (set (ys @ p # zs))"
    using fr D(1) l n by (auto simp: qs_free_def simp flip: s)
  have q: "n_prev (h p) \<in> insert l (set (L l))"
    using chain_last [OF c] last_in_set [of "l # ys"] by (auto simp: s)
  show ?thesis
    unfolding eq
  proof (rule klist_repr_update [OF r l n disjI1 [OF fr]])
    show "rt_list_insert_before p n h y = h y" if "y \<notin> insert n (insert l (set (L l)))" for y
      using that q p by (intro insert_before_frame) auto
    show "ring (rt_list_insert_before p n h) l (ys @ n # p # zs)"
      using D(5) [OF l] nin by (intro ring_insert_before_node) (simp_all add: s)
    show "qs_wf (L(l := ys @ n # p # zs))"
      using qs_wf_insert_before [OF D(2) fr, of p] by (simp add: eq)
  qed (auto simp: s)
qed

lemma klist_repr_remove:
  assumes r: "klist_repr H N h L" and n: "n \<in> N"
  shows "klist_repr H N (rt_list_remove n h) (qs_remove n L)"
proof (cases "qs_free n L")
  case True
  then show ?thesis
    using r klist_reprD(6) [OF r n] by (simp add: remove_unlinked qs_remove_free)
next
  case False
  note D = klist_reprD [OF r]
  obtain l where nl: "n \<in> set (L l)" using False by (auto simp: qs_free_def)
  have l: "l \<in> H" using D(3) [of l] nl by (cases "l \<in> H") auto
  from split_list [OF nl] obtain ys zs where s: "L l = ys @ n # zs" by blast
  have rg: "ring h l (ys @ n # zs)" using D(5) [OF l] by (simp add: s)
  then have d: "distinct (l # ys @ n # zs)" and c: "chain h l ys n" "chain h n zs l"
    by (simp_all add: ring_def)
  have eq: "qs_remove n L = L(l := ys @ zs)"
    using qs_remove_at [OF D(2) nl] d by (simp add: s)
  have q: "n_prev (h n) \<in> insert l (set (L l))" "n_next (h n) \<in> insert l (set (L l))"
    using chain_last [OF c(1)] last_in_set [of "l # ys"] chain_first [OF c(2)]
    by (auto simp: s hd_append)
  show ?thesis
    unfolding eq
  proof (rule klist_repr_update [OF r l n disjI2 [OF nl]])
    show "rt_list_remove n h y = h y" if "y \<notin> insert n (insert l (set (L l)))" for y
      using that q by (intro remove_frame) auto
    show "ring (rt_list_remove n h) l (ys @ zs)" by (rule ring_remove(1) [OF rg])
    show "ring (rt_list_remove n h) n []" by (rule ring_remove(2) [OF rg])
    show "qs_wf (L(l := ys @ zs))" using qs_wf_remove [OF D(2), of n] by (simp add: eq)
  qed (auto simp: s)
qed

interpretation pl: klist H N "klist_repr H N" rt_list_insert_before rt_list_insert_after
  rt_list_remove rt_list_isempty list_first_entry for H N
  by unfold_locales
    (auto intro: klist_reprD klist_repr_before klist_repr_after klist_repr_before_node
       klist_repr_remove ring_first dest: ring_isempty klist_reprD(5))

abbreviation ptr_run :: "list_op list \<Rightarrow> lheap \<Rightarrow> lheap" where
  "ptr_run \<equiv> list_run rt_list_insert_before rt_list_insert_before rt_list_insert_after rt_list_remove"

section \<open>Properties\<close>

text \<open>
  C2. Whatever sequence of insertions and removals a client performs on the rings of
  \<^verbatim>\<open>rtservice.h\<close>, each insertion being of an unlinked node, the pointers keep representing the
  queues that the corresponding list operations compute: insertion before the head appends,
  after the head prepends, before a node puts the new node in front of it, removal takes the
  node out of the only queue that holds it and leaves it linked to itself.
\<close>

theorem rt_list_refines_queues:
  assumes "klist_repr H N h L" and "ops_valid H N L xs"
  shows "klist_repr H N (ptr_run xs h) (qs_run xs L)"
  using assms by (rule pl.repr_run)

theorem rt_list_refines_queues_witness:
  "klist_repr {1, 2} {10, 11, 12}
     (ptr_run [Op_before 1 10, Op_after 1 11, Op_before_node 10 12, Op_remove 11, Op_before 2 11]
        (\<lambda>a. \<lparr>n_next = a, n_prev = a\<rparr>))
     ((\<lambda>_. [])(1 := [12, 10], 2 := [11]))"
proof -
  have r: "klist_repr {1, 2} {10, 11, 12} (\<lambda>a. \<lparr>n_next = a, n_prev = a\<rparr>) (\<lambda>_. [])"
    by (simp add: klist_repr_def qs_wf_def ring_def)
  let ?ops = "[Op_before 1 10, Op_after 1 11, Op_before_node 10 12, Op_remove 11, Op_before 2 11]"
  have v: "ops_valid {1, 2} {10, 11, 12} (\<lambda>_. []) ?ops"
    by (auto simp: qs_free_def qs_push_back_def qs_push_front_def qs_insert_before_def qs_remove_def)
  have e: "qs_run ?ops (\<lambda>_. []) = (\<lambda>_. [])(1 := [12, 10], 2 := [11])"
    by (auto simp: fun_eq_iff qs_push_back_def qs_push_front_def qs_insert_before_def qs_remove_def)
  show ?thesis using rt_list_refines_queues [OF r v] unfolding e .
qed

end
