(* ===== verification/Ffs.thy ===== *)
theory Ffs
  imports Prelude
begin

text \<open>
  The find-first-set routine of \<^verbatim>\<open>src/kservice.c\<close> (the configuration without \<^verbatim>\<open>RT_USING_CPU_FFS\<close>):
  a 256-entry table of lowest set bits and a case split over the four bytes of the word. The
  scheduler uses it to turn the ready bitmap into the highest ready priority.
\<close>

definition lowest_bit_bitmap :: "nat list" where
  "lowest_bit_bitmap =
     [0, 0, 1, 0, 2, 0, 1, 0, 3, 0, 1, 0, 2, 0, 1, 0,
      4, 0, 1, 0, 2, 0, 1, 0, 3, 0, 1, 0, 2, 0, 1, 0,
      5, 0, 1, 0, 2, 0, 1, 0, 3, 0, 1, 0, 2, 0, 1, 0,
      4, 0, 1, 0, 2, 0, 1, 0, 3, 0, 1, 0, 2, 0, 1, 0,
      6, 0, 1, 0, 2, 0, 1, 0, 3, 0, 1, 0, 2, 0, 1, 0,
      4, 0, 1, 0, 2, 0, 1, 0, 3, 0, 1, 0, 2, 0, 1, 0,
      5, 0, 1, 0, 2, 0, 1, 0, 3, 0, 1, 0, 2, 0, 1, 0,
      4, 0, 1, 0, 2, 0, 1, 0, 3, 0, 1, 0, 2, 0, 1, 0,
      7, 0, 1, 0, 2, 0, 1, 0, 3, 0, 1, 0, 2, 0, 1, 0,
      4, 0, 1, 0, 2, 0, 1, 0, 3, 0, 1, 0, 2, 0, 1, 0,
      5, 0, 1, 0, 2, 0, 1, 0, 3, 0, 1, 0, 2, 0, 1, 0,
      4, 0, 1, 0, 2, 0, 1, 0, 3, 0, 1, 0, 2, 0, 1, 0,
      6, 0, 1, 0, 2, 0, 1, 0, 3, 0, 1, 0, 2, 0, 1, 0,
      4, 0, 1, 0, 2, 0, 1, 0, 3, 0, 1, 0, 2, 0, 1, 0,
      5, 0, 1, 0, 2, 0, 1, 0, 3, 0, 1, 0, 2, 0, 1, 0,
      4, 0, 1, 0, 2, 0, 1, 0, 3, 0, 1, 0, 2, 0, 1, 0]"

definition rt_ffs :: "rt_uint32_t \<Rightarrow> rt_uint32_t" where
  "rt_ffs v =
     (if v = 0 then 0
      else if v AND 0xff \<noteq> 0 then of_nat (lowest_bit_bitmap ! unat (v AND 0xff)) + 1
      else if v AND 0xff00 \<noteq> 0 then of_nat (lowest_bit_bitmap ! unat (drop_bit 8 (v AND 0xff00))) + 9
      else if v AND 0xff0000 \<noteq> 0 then of_nat (lowest_bit_bitmap ! unat (drop_bit 16 (v AND 0xff0000))) + 17
      else of_nat (lowest_bit_bitmap ! unat (drop_bit 24 (v AND 0xff000000))) + 25)"

section \<open>The table\<close>

text \<open>\<open>lowest k n\<close>: bit \<open>n\<close> is the lowest set bit of \<open>k\<close>.\<close>

definition lowest :: "'a::semiring_bit_operations \<Rightarrow> nat \<Rightarrow> bool" where
  "lowest k n \<longleftrightarrow> bit k n \<and> (\<forall>m < n. \<not> bit k m)"

lemma lowest_unique: "lowest k m \<Longrightarrow> lowest k n \<Longrightarrow> m = n"
  unfolding lowest_def by (meson linorder_neqE_nat)

text \<open>The table is checked entry by entry, the index running along.\<close>

fun table_ok :: "nat \<Rightarrow> nat list \<Rightarrow> bool" where
  "table_ok i [] \<longleftrightarrow> True"
| "table_ok i (t # ts) \<longleftrightarrow> t < 8 \<and> i mod 2 ^ t = 0 \<and> odd (i div 2 ^ t) \<and> table_ok (i + 1) ts"

lemma table_ok_nth:
  "table_ok i ts \<Longrightarrow> k < length ts \<Longrightarrow>
   ts ! k < 8 \<and> (i + k) mod 2 ^ (ts ! k) = 0 \<and> odd ((i + k) div 2 ^ (ts ! k))"
proof (induction ts arbitrary: i k)
  case Nil
  then show ?case by simp
next
  case (Cons t ts)
  show ?case
  proof (cases k)
    case 0
    then show ?thesis using Cons.prems by simp
  next
    case (Suc k')
    then show ?thesis using Cons.IH [of "i + 1" k'] Cons.prems by simp
  qed
qed

lemma lowest_nat:
  assumes "i mod 2 ^ t = (0::nat)" and "odd (i div 2 ^ t)"
  shows "lowest i t"
proof -
  have "\<not> bit i m" if "m < t" for m
  proof -
    obtain j where j: "i = 2 ^ t * j" using assms(1) by auto
    have "t = m + Suc (t - m - 1)" using that by simp
    then have "i = 2 ^ m * (2 * (2 ^ (t - m - 1) * j))"
      unfolding j by (metis (no_types, opaque_lifting) mult.assoc power_Suc power_add)
    then have "i div 2 ^ m = 2 * (2 ^ (t - m - 1) * j)" by simp
    then show ?thesis by (simp add: bit_iff_odd)
  qed
  with assms(2) show ?thesis by (simp add: lowest_def bit_iff_odd)
qed

lemma lowest_bit_bitmap_length: "length lowest_bit_bitmap = 256"
  by (simp add: lowest_bit_bitmap_def)

lemma lowest_bit_bitmap_table: "table_ok 1 (tl lowest_bit_bitmap)"
  by (simp add: lowest_bit_bitmap_def)

lemma lowest_bit_bitmap_lowest:
  assumes "0 < i" "i < 256"
  shows "lowest i (lowest_bit_bitmap ! i)" and "lowest_bit_bitmap ! i < 8"
proof -
  have nth: "tl lowest_bit_bitmap ! (i - 1) = lowest_bit_bitmap ! i"
    using assms by (simp add: nth_tl lowest_bit_bitmap_length)
  have "i - 1 < length (tl lowest_bit_bitmap)" using assms by (simp add: lowest_bit_bitmap_length)
  note entry = table_ok_nth [OF lowest_bit_bitmap_table this, unfolded nth]
  show "lowest i (lowest_bit_bitmap ! i)" "lowest_bit_bitmap ! i < 8"
    using assms entry by (auto intro: lowest_nat)
qed

section \<open>The routine\<close>

lemma byte_bits:
  fixes v :: rt_uint32_t
  shows "bit (unat (drop_bit k (v AND push_bit k (mask 8)))) m \<longleftrightarrow> m < 8 \<and> bit v (k + m)"
  by (auto simp: bit_simps dest: bit_imp_le_length)

lemma byte_less:
  fixes v :: rt_uint32_t
  shows "unat (drop_bit k (v AND push_bit k (mask 8))) < 256"
proof -
  have "drop_bit k (v AND push_bit k (mask 8)) = take_bit 8 (drop_bit k v)"
    by (rule bit_word_eqI) (auto simp: bit_simps dest: bit_imp_le_length)
  then show ?thesis
    using take_bit_nat_less_exp [of 8 "unat (drop_bit k v)"] by (simp add: unsigned_take_bit_eq)
qed

text \<open>The byte at offset \<open>k\<close> is the first one that is not zero: its entry gives the lowest bit.\<close>

lemma lowest_byte:
  fixes v :: rt_uint32_t
  assumes b_def: "b = unat (drop_bit k (v AND push_bit k (mask 8)))"
    and nz: "v AND push_bit k (mask 8) \<noteq> 0" and low: "\<forall>m < k. \<not> bit v m"
  shows "lowest v (k + lowest_bit_bitmap ! b)" and "lowest_bit_bitmap ! b < 8"
proof -
  have bits: "bit b m \<longleftrightarrow> m < 8 \<and> bit v (k + m)" for m unfolding b_def by (rule byte_bits)
  obtain i where i: "bit (v AND push_bit k (mask 8)) i" using nz by (auto simp: bit_eq_iff)
  then have "k \<le> i" "i - k < 8" "bit v i" by (auto simp: bit_simps)
  then have "bit b (i - k)" by (simp add: bits)
  then have "b \<noteq> 0" by (rule contrapos_pn) simp
  then have 1: "lowest b (lowest_bit_bitmap ! b)" "lowest_bit_bitmap ! b < 8"
    using lowest_bit_bitmap_lowest [of b] byte_less [of k v] by (simp_all add: b_def)
  show "lowest_bit_bitmap ! b < 8" by (rule 1(2))
  show "lowest v (k + lowest_bit_bitmap ! b)"
    unfolding lowest_def
  proof (intro conjI allI impI)
    show "bit v (k + lowest_bit_bitmap ! b)" using 1 by (simp add: lowest_def bits)
    show "\<not> bit v m" if "m < k + lowest_bit_bitmap ! b" for m
    proof (cases "m < k")
      case True
      then show ?thesis using low by simp
    next
      case False
      then have "m - k < lowest_bit_bitmap ! b" "k + (m - k) = m" using that by auto
      with 1 bits [of "m - k"] show ?thesis by (auto simp: lowest_def)
    qed
  qed
qed

lemma byte_zero:
  fixes v :: rt_uint32_t
  assumes "v AND push_bit k (mask 8) = 0" and "m < k + 8" and "k \<le> m"
  shows "\<not> bit v m"
proof -
  have "\<not> bit (v AND push_bit k (mask 8)) m" using assms(1) by simp
  with assms(2,3) show ?thesis by (auto simp: bit_simps dest: bit_imp_le_length)
qed

lemma byte_masks:
  "(0xff :: rt_uint32_t) = push_bit 0 (mask 8)" "(0xff00 :: rt_uint32_t) = push_bit 8 (mask 8)"
  "(0xff0000 :: rt_uint32_t) = push_bit 16 (mask 8)"
  "(0xff000000 :: rt_uint32_t) = push_bit 24 (mask 8)"
  by (simp_all add: mask_eq_exp_minus_1)

lemma rt_ffs_bytes:
  "rt_ffs v =
     (let b = (\<lambda>k. v AND push_bit k (mask 8));
          t = (\<lambda>k. of_nat (lowest_bit_bitmap ! unat (drop_bit k (b k))) + of_nat (k + 1))
      in if v = 0 then 0 else if b 0 \<noteq> 0 then t 0 else if b 8 \<noteq> 0 then t 8
         else if b 16 \<noteq> 0 then t 16 else t 24)"
proof -
  have one: "of_nat (0 + 1) = (1 :: rt_uint32_t)" "of_nat (8 + 1) = (9 :: rt_uint32_t)"
    "of_nat (16 + 1) = (17 :: rt_uint32_t)" "of_nat (24 + 1) = (25 :: rt_uint32_t)"
    by simp_all
  show ?thesis
    unfolding Let_def one rt_ffs_def byte_masks [symmetric] drop_bit_0 id_apply ..
qed

text \<open>A byte-wise scan: all bits below \<open>k\<close> are clear and so is the byte at \<open>k\<close>.\<close>

lemma clear_below:
  fixes v :: rt_uint32_t
  assumes "\<And>m. m < k \<Longrightarrow> \<not> bit v m" "v AND push_bit k (mask 8) = 0" "m < k + 8"
  shows "\<not> bit v m"
proof (cases "m < k")
  case True
  then show ?thesis by (rule assms(1))
next
  case False
  then show ?thesis using byte_zero [OF assms(2,3)] by simp
qed

lemma ffs_byte:
  fixes v :: rt_uint32_t
  assumes nz: "v AND push_bit k (mask 8) \<noteq> 0" and low: "\<And>m. m < k \<Longrightarrow> \<not> bit v m" and k: "k < 25"
    and eq: "rt_ffs v =
      of_nat (lowest_bit_bitmap ! unat (drop_bit k (v AND push_bit k (mask 8)))) + of_nat (k + 1)"
  shows "\<exists>n < 32. unat (rt_ffs v) = n + 1 \<and> lowest v n"
proof -
  let ?t = "lowest_bit_bitmap ! unat (drop_bit k (v AND push_bit k (mask 8)))"
  have b: "lowest v (k + ?t)" "?t < 8" using lowest_byte [OF refl nz] low by blast+
  have "unat (of_nat (?t + (k + 1)) :: rt_uint32_t) = (k + ?t) + 1"
    using b(2) k by (subst unat_of_nat) simp
  then show ?thesis
    using b k unfolding eq by (intro exI [of _ "k + ?t"]) (simp add: ac_simps)
qed

text \<open>For a word that is not zero the routine returns one more than the number of the lowest set bit.\<close>

theorem rt_ffs_lowest:
  assumes "v \<noteq> 0"
  shows "\<exists>n < 32. unat (rt_ffs v) = n + 1 \<and> lowest v n"
proof -
  let ?z = "\<lambda>k. v AND push_bit k (mask 8) = 0"
  have l0: "\<not> bit v m" if "m < 0" for m using that by simp
  note eqs = rt_ffs_bytes Let_def simp_thms if_True if_False assms
  consider "\<not> ?z 0" | "?z 0" "\<not> ?z 8" | "?z 0" "?z 8" "\<not> ?z 16" | "?z 0" "?z 8" "?z 16" by blast
  then show ?thesis
  proof cases
    case 1
    show ?thesis by (rule ffs_byte [OF 1]) (simp, simp, simp only: eqs 1)
  next
    case 2
    have l8: "\<not> bit v m" if "m < 8" for m using that clear_below [OF l0 2(1)] by simp
    show ?thesis by (rule ffs_byte [OF 2(2)]) (erule l8, simp, simp only: eqs 2)
  next
    case 3
    have l8: "\<not> bit v m" if "m < 8" for m using that clear_below [OF l0 3(1)] by simp
    have l16: "\<not> bit v m" if "m < 16" for m using that clear_below [OF l8 3(2)] by simp
    show ?thesis by (rule ffs_byte [OF 3(3)]) (erule l16, simp, simp only: eqs 3)
  next
    case 4
    have l8: "\<not> bit v m" if "m < 8" for m using that clear_below [OF l0 4(1)] by simp
    have l16: "\<not> bit v m" if "m < 16" for m using that clear_below [OF l8 4(2)] by simp
    have l24: "\<not> bit v m" if "m < 24" for m using that clear_below [OF l16 4(3)] by simp
    have "\<not> ?z 24"
    proof
      assume "?z 24"
      then have "v = 0" using clear_below [OF l24] by (intro bit_word_eqI) simp
      with assms show False by simp
    qed
    then show ?thesis by (rule ffs_byte) (erule l24, simp, simp only: eqs 4)
  qed
qed

lemma rt_ffs_0: "rt_ffs 0 = 0"
  by (simp add: rt_ffs_def)

end
