(* ===== verification/Kernel.thy ===== *)
theory Kernel
  imports Klist Ffs
begin

text \<open>
  The state of the kernel: the structures of \<^verbatim>\<open>include/rtdef.h\<close> as records, the static variables
  of \<^verbatim>\<open>scheduler.c\<close>, \<^verbatim>\<open>timer.c\<close>, \<^verbatim>\<open>clock.c\<close>, \<^verbatim>\<open>irq.c\<close> and \<^verbatim>\<open>object.c\<close> as fields of one state record.

  Pointers to threads and IPC objects are numbers with 0 for \<^verbatim>\<open>RT_NULL\<close>. The memory a pointer of a
  given type refers to is a total function (\<open>k_thread\<close>, \<open>k_sem\<close>, ...). Queues are the list store of
  theory Klist: \<open>k_tlist\<close> for the nodes \<^verbatim>\<open>thread->tlist\<close>, \<open>k_timers\<close> for the nodes \<^verbatim>\<open>timer->row[0]\<close>
  (\<^verbatim>\<open>RT_TIMER_SKIP_LIST_LEVEL\<close> is 1), \<open>k_container\<close> for \<^verbatim>\<open>object->list\<close>. \<open>k_word\<close> is the memory the memory
  pools lie in, by address; of it the model reads the words that hold pointers.

  Code between \<^verbatim>\<open>rt_hw_interrupt_disable\<close> and \<^verbatim>\<open>rt_hw_interrupt_enable\<close> runs without interruption;
  an operation of the model is the code of one call up to the point where it gives up the
  processor. Hook functions, context switches and calls of the heap are recorded in the
  trace \<open>k_trace\<close>, newest first. Debug output (\<^verbatim>\<open>RT_DEBUG_LOG\<close>, off in \<^verbatim>\<open>rtdebug.h\<close>) is left out.
\<close>

section \<open>Structures\<close>

type_synonym tid = nat

datatype thread_stat =
    RT_THREAD_INIT
  | RT_THREAD_READY
  | RT_THREAD_SUSPEND
  | RT_THREAD_RUNNING
  | RT_THREAD_CLOSE

text \<open>
  \<open>stack_mark\<close> is the byte stored at \<open>stack_addr\<close>, which the overflow check of the scheduler reads.
  The object part of the thread (name, type, flags, module) is in \<open>k_object\<close>.
\<close>

record rt_thread =
  sp :: rt_uint32_t
  entry :: nat
  parameter :: nat
  stack_addr :: rt_uint32_t
  stack_size :: rt_uint32_t
  stack_mark :: rt_uint8_t
  error :: rt_err_t
  stat :: thread_stat
  current_priority :: rt_uint8_t
  init_priority :: rt_uint8_t
  number_mask :: rt_uint32_t
  event_set :: rt_uint32_t
  event_info :: rt_uint8_t
  init_tick :: rt_uint32_t
  remaining_tick :: rt_uint32_t
  cleanup :: nat
  user_data :: rt_uint32_t

text \<open>A timer is the one embedded in a thread (\<^verbatim>\<open>&thread->thread_timer\<close>) or a timer object.\<close>

datatype timer_ref = Thread_timer tid | Timer nat

datatype timeout_func = Rt_thread_timeout | User_timeout nat

record rt_timer =
  timeout_func :: timeout_func
  tm_parameter :: nat
  tm_init_tick :: rt_tick_t
  timeout_tick :: rt_tick_t

datatype obj_ref =
    Obj_thread tid
  | Obj_timer timer_ref
  | Obj_sem nat
  | Obj_mutex nat
  | Obj_event nat
  | Obj_mb nat
  | Obj_mq nat
  | Obj_mp nat
  | Obj_memheap nat
  | Obj_device nat
  | Obj_module nat

datatype rt_object_class_type =
    RT_Object_Class_Thread
  | RT_Object_Class_Semaphore
  | RT_Object_Class_Mutex
  | RT_Object_Class_Event
  | RT_Object_Class_MailBox
  | RT_Object_Class_MessageQueue
  | RT_Object_Class_MemHeap
  | RT_Object_Class_MemPool
  | RT_Object_Class_Device
  | RT_Object_Class_Timer
  | RT_Object_Class_Module
  | RT_Object_Class_Unknown

record rt_object =
  obj_name :: "rt_uint8_t list"
  obj_type :: rt_uint8_t
  obj_flag :: rt_uint8_t
  obj_module :: nat

record rt_semaphore =
  sem_value :: rt_uint16_t

record rt_mutex =
  mx_value :: rt_uint16_t
  original_priority :: rt_uint8_t
  hold :: rt_uint8_t
  owner :: tid

record rt_event =
  ev_set :: rt_uint32_t

text \<open>\<open>mb_pool\<close> is the address of the buffer the mailbox was given and \<open>msg_pool\<close> the words in it.\<close>

record rt_mailbox =
  mb_pool :: nat
  msg_pool :: "rt_uint32_t list"
  mb_size :: rt_uint16_t
  mb_entry :: rt_uint16_t
  in_offset :: rt_uint16_t
  out_offset :: rt_uint16_t

text \<open>
  A message queue's pool, at the address \<open>mq_pool\<close>, is an array of blocks, a link word followed by \<open>msg_size\<close> bytes. A block
  is named by its number, \<^verbatim>\<open>RT_NULL\<close> is \<^term>\<open>None\<close>; \<open>mq_next\<close> are the link words and \<open>mq_data\<close> the
  payloads.
\<close>

record rt_messagequeue =
  mq_pool :: nat
  msg_size :: rt_uint16_t
  max_msgs :: rt_uint16_t
  mq_entry :: rt_uint16_t
  msg_queue_head :: "nat option"
  msg_queue_tail :: "nat option"
  msg_queue_free :: "nat option"
  mq_next :: "nat \<Rightarrow> nat option"
  mq_data :: "nat \<Rightarrow> rt_uint8_t list"

record rt_mempool =
  start_address :: nat
  mp_size :: rt_uint32_t
  block_size :: rt_uint32_t
  block_list :: nat
  block_total_count :: rt_uint32_t
  block_free_count :: rt_uint32_t
  suspend_thread_count :: rt_uint32_t

text \<open>Of a module the kernel's own threads read the main thread and the reference count.\<close>

record rt_module =
  module_thread :: tid
  nref :: rt_uint16_t

section \<open>Queue heads and the trace\<close>

text \<open>The heads a thread's \<^verbatim>\<open>tlist\<close> node can be linked to.\<close>

datatype lhead =
    Ready nat              \<comment> \<open>\<^verbatim>\<open>rt_thread_priority_table[p]\<close>\<close>
  | Defunct                \<comment> \<open>\<^verbatim>\<open>rt_thread_defunct\<close>\<close>
  | Suspend obj_ref        \<comment> \<open>\<^verbatim>\<open>ipc->suspend_thread\<close>\<close>
  | Suspend_sender nat     \<comment> \<open>\<^verbatim>\<open>mb->suspend_sender_thread\<close>\<close>

datatype theads = Hard_list | Soft_list
  \<comment> \<open>\<^verbatim>\<open>rt_timer_list\<close> and \<^verbatim>\<open>rt_soft_timer_list\<close>\<close>

datatype kevent =
    Hook_attach obj_ref
  | Hook_detach obj_ref
  | Hook_trytake obj_ref
  | Hook_take obj_ref
  | Hook_put obj_ref
  | Hook_scheduler tid tid
  | Hook_suspend tid
  | Hook_resume tid
  | Hook_timeout timer_ref
  | Hook_irq_enter
  | Hook_irq_leave
  | Context_switch_to tid
  | Context_switch tid tid
  | Context_switch_interrupt tid tid
  | Kernel_free obj_ref
  | Heap_free nat
  | Hook_mp_alloc nat nat
  | Hook_mp_free nat nat
  | Hook_malloc nat rt_uint32_t
  | Hook_free nat
  | Call_timeout timeout_func nat

section \<open>The state\<close>

record kstate =
  k_thread :: "tid \<Rightarrow> rt_thread"
  k_tlist :: "(lhead, tid) qstore"
  k_current :: tid
  k_current_priority :: rt_uint8_t
  k_ready_group :: rt_uint32_t
  k_lock_nest :: rt_uint16_t
  k_interrupt_nest :: rt_uint8_t
  k_tick :: rt_tick_t
  k_timer :: "timer_ref \<Rightarrow> rt_timer"
  k_timers :: "(theads, timer_ref) qstore"
  k_random_nr :: rt_uint32_t
  k_object :: "obj_ref \<Rightarrow> rt_object"
  k_container :: "(nat \<times> rt_object_class_type, obj_ref) qstore"
  k_sem :: "nat \<Rightarrow> rt_semaphore"
  k_mutex :: "nat \<Rightarrow> rt_mutex"
  k_event :: "nat \<Rightarrow> rt_event"
  k_mb :: "nat \<Rightarrow> rt_mailbox"
  k_mq :: "nat \<Rightarrow> rt_messagequeue"
  k_mp :: "nat \<Rightarrow> rt_mempool"
  k_word :: "nat \<Rightarrow> nat"
  k_module :: "nat \<Rightarrow> rt_module"
  k_errno :: rt_err_t
  k_trace :: "kevent list"

text \<open>The static thread objects \<^verbatim>\<open>idle\<close> (\<^verbatim>\<open>idle.c\<close>) and \<^verbatim>\<open>timer_thread\<close> (\<^verbatim>\<open>timer.c\<close>).\<close>

definition idle :: tid where "idle = 1"
definition timer_thread :: tid where "timer_thread = 2"

section \<open>Field updates\<close>

definition upd_thread :: "tid \<Rightarrow> (rt_thread \<Rightarrow> rt_thread) \<Rightarrow> kstate \<Rightarrow> kstate" where
  "upd_thread t f s = s\<lparr>k_thread := (k_thread s)(t := f (k_thread s t))\<rparr>"

definition upd_timer :: "timer_ref \<Rightarrow> (rt_timer \<Rightarrow> rt_timer) \<Rightarrow> kstate \<Rightarrow> kstate" where
  "upd_timer m f s = s\<lparr>k_timer := (k_timer s)(m := f (k_timer s m))\<rparr>"

definition upd_object :: "obj_ref \<Rightarrow> (rt_object \<Rightarrow> rt_object) \<Rightarrow> kstate \<Rightarrow> kstate" where
  "upd_object ob f s = s\<lparr>k_object := (k_object s)(ob := f (k_object s ob))\<rparr>"

definition upd_tlist :: "((lhead, tid) qstore \<Rightarrow> (lhead, tid) qstore) \<Rightarrow> kstate \<Rightarrow> kstate" where
  "upd_tlist f s = s\<lparr>k_tlist := f (k_tlist s)\<rparr>"

definition upd_timers :: "((theads, timer_ref) qstore \<Rightarrow> (theads, timer_ref) qstore) \<Rightarrow> kstate \<Rightarrow> kstate" where
  "upd_timers f s = s\<lparr>k_timers := f (k_timers s)\<rparr>"

definition emit :: "kevent \<Rightarrow> kstate \<Rightarrow> kstate" where
  "emit e s = s\<lparr>k_trace := e # k_trace s\<rparr>"

lemmas upd_defs [simp] = upd_thread_def upd_timer_def upd_object_def upd_tlist_def upd_timers_def emit_def

abbreviation thr_stat :: "kstate \<Rightarrow> tid \<Rightarrow> thread_stat" where
  "thr_stat s t \<equiv> stat (k_thread s t)"

abbreviation thr_prio :: "kstate \<Rightarrow> tid \<Rightarrow> nat" where
  "thr_prio s t \<equiv> unat (current_priority (k_thread s t))"

abbreviation ready_q :: "kstate \<Rightarrow> nat \<Rightarrow> tid list" where
  "ready_q s p \<equiv> k_tlist s (Ready p)"

section \<open>The state at reset\<close>

text \<open>Statically allocated memory is zero.\<close>

definition zero_thread :: rt_thread where
  "zero_thread = \<lparr>sp = 0, entry = 0, parameter = 0, stack_addr = 0, stack_size = 0, stack_mark = 0,
     error = 0, stat = RT_THREAD_INIT, current_priority = 0, init_priority = 0, number_mask = 0,
     event_set = 0, event_info = 0, init_tick = 0, remaining_tick = 0, cleanup = 0, user_data = 0\<rparr>"

definition zero_timer :: rt_timer where
  "zero_timer = \<lparr>timeout_func = User_timeout 0, tm_parameter = 0, tm_init_tick = 0, timeout_tick = 0\<rparr>"

definition k_reset :: kstate where
  "k_reset = \<lparr>k_thread = (\<lambda>_. zero_thread), k_tlist = (\<lambda>_. []), k_current = 0, k_current_priority = 0,
     k_ready_group = 0, k_lock_nest = 0, k_interrupt_nest = 0, k_tick = 0, k_timer = (\<lambda>_. zero_timer),
     k_timers = (\<lambda>_. []), k_random_nr = 0,
     k_object = (\<lambda>_. \<lparr>obj_name = replicate 8 0, obj_type = 0, obj_flag = 0, obj_module = 0\<rparr>),
     k_container = (\<lambda>_. []), k_sem = (\<lambda>_. \<lparr>sem_value = 0\<rparr>),
     k_mutex = (\<lambda>_. \<lparr>mx_value = 0, original_priority = 0, hold = 0, owner = 0\<rparr>),
     k_event = (\<lambda>_. \<lparr>ev_set = 0\<rparr>),
     k_mb = (\<lambda>_. \<lparr>mb_pool = 0, msg_pool = [], mb_size = 0, mb_entry = 0, in_offset = 0, out_offset = 0\<rparr>),
     k_mq = (\<lambda>_. \<lparr>mq_pool = 0, msg_size = 0, max_msgs = 0, mq_entry = 0, msg_queue_head = None, msg_queue_tail = None,
        msg_queue_free = None, mq_next = (\<lambda>_. None), mq_data = (\<lambda>_. [])\<rparr>),
     k_mp = (\<lambda>_. \<lparr>start_address = 0, mp_size = 0, block_size = 0, block_list = 0, block_total_count = 0,
        block_free_count = 0, suspend_thread_count = 0\<rparr>),
     k_word = (\<lambda>_. 0), k_module = (\<lambda>_. \<lparr>module_thread = 0, nref = 0\<rparr>), k_errno = 0, k_trace = []\<rparr>"

end
