(* ===== verification/Scheduler.thy ===== *)
theory Scheduler
  imports Kernel
begin

text \<open>
  The scheduler of \<^verbatim>\<open>src/scheduler.c\<close> (32 priority levels, so the ready bitmap is one word) and the
  interrupt nesting counter of \<^verbatim>\<open>src/irq.c\<close>. The invariant \<open>sched_inv\<close> ties the bitmap, the ready
  queues, the thread states and the other queues together; \<open>highest\<close> specifies the selection
  that \<open>rt_schedule\<close> implements through the bitmap.
\<close>

section \<open>Operations\<close>

text \<open>
  A failed check ends in \<^verbatim>\<open>while (level);\<close> with interrupts disabled, so it does not return.
  0x23 is the fill character of the stack.
\<close>

definition rt_scheduler_stack_check :: "tid \<Rightarrow> kstate \<Rightarrow> unit option" where
  "rt_scheduler_stack_check t s = do {
     RT_ASSERT (t \<noteq> RT_NULL);
     let th = k_thread s t;
     if stack_mark th \<noteq> 0x23 \<or> sp th \<le> stack_addr th \<or> stack_addr th + stack_size th < sp th
     then None else Some ()
   }"

definition rt_system_scheduler_init :: "kstate \<Rightarrow> kstate" where
  "rt_system_scheduler_init s =
     s\<lparr>k_lock_nest := 0,
       k_tlist := (\<lambda>h. case h of Ready p \<Rightarrow> if p < RT_THREAD_PRIORITY_MAX then [] else k_tlist s h
                       | Defunct \<Rightarrow> [] | _ \<Rightarrow> k_tlist s h),
       k_current_priority := of_nat RT_THREAD_PRIORITY_MAX - 1,
       k_current := RT_NULL,
       k_ready_group := 0\<rparr>"

text \<open>
  The head of the ready queue of the highest ready priority. An empty queue is a broken bitmap:
  the code would take the list head for a thread.
\<close>

definition highest_ready_priority :: "kstate \<Rightarrow> rt_uint32_t" where
  "highest_ready_priority s = rt_ffs (k_ready_group s) - 1"

definition to_thread :: "kstate \<Rightarrow> tid option" where
  "to_thread s = (case ready_q s (unat (highest_ready_priority s)) of [] \<Rightarrow> None | t # _ \<Rightarrow> Some t)"

definition rt_system_scheduler_start :: "kstate \<Rightarrow> kstate option" where
  "rt_system_scheduler_start s = do {
     t \<leftarrow> to_thread s;
     let s = s\<lparr>k_current := t\<rparr>;
     Some (emit (Context_switch_to t) s)
   }"

definition rt_schedule :: "kstate \<Rightarrow> kstate option" where
  "rt_schedule s =
     (if k_lock_nest s = 0 then do {
        t \<leftarrow> to_thread s;
        if t \<noteq> k_current s then do {
          let from_thread = k_current s;
          let s = s\<lparr>k_current_priority := ucast (highest_ready_priority s), k_current := t\<rparr>;
          let s = emit (Hook_scheduler from_thread t) s;
          rt_scheduler_stack_check t s;
          Some (if k_interrupt_nest s = 0 then emit (Context_switch from_thread t) s
                else emit (Context_switch_interrupt from_thread t) s)
        } else Some s
      } else Some s)"

definition rt_schedule_insert_thread :: "tid \<Rightarrow> kstate \<Rightarrow> kstate option" where
  "rt_schedule_insert_thread t s = do {
     RT_ASSERT (t \<noteq> RT_NULL);
     let s = upd_thread t (stat_update (\<lambda>_. RT_THREAD_READY)) s;
     let s = upd_tlist (qs_push_back (Ready (thr_prio s t)) t) s;
     Some (s\<lparr>k_ready_group := k_ready_group s OR number_mask (k_thread s t)\<rparr>)
   }"

definition rt_schedule_remove_thread :: "tid \<Rightarrow> kstate \<Rightarrow> kstate option" where
  "rt_schedule_remove_thread t s = do {
     RT_ASSERT (t \<noteq> RT_NULL);
     let s = upd_tlist (qs_remove t) s;
     Some (if ready_q s (thr_prio s t) = []
           then s\<lparr>k_ready_group := k_ready_group s AND NOT (number_mask (k_thread s t))\<rparr>
           else s)
   }"

definition rt_enter_critical :: "kstate \<Rightarrow> kstate" where
  "rt_enter_critical s = s\<lparr>k_lock_nest := k_lock_nest s + 1\<rparr>"

text \<open>The counter is a signed 16-bit number.\<close>

definition rt_exit_critical :: "kstate \<Rightarrow> kstate option" where
  "rt_exit_critical s =
     (let s = s\<lparr>k_lock_nest := k_lock_nest s - 1\<rparr>
      in if sint (k_lock_nest s) \<le> 0 then rt_schedule (s\<lparr>k_lock_nest := 0\<rparr>) else Some s)"

definition rt_critical_level :: "kstate \<Rightarrow> rt_uint16_t" where
  "rt_critical_level s = k_lock_nest s"

definition rt_interrupt_enter :: "kstate \<Rightarrow> kstate" where
  "rt_interrupt_enter s = emit Hook_irq_enter (s\<lparr>k_interrupt_nest := k_interrupt_nest s + 1\<rparr>)"

definition rt_interrupt_leave :: "kstate \<Rightarrow> kstate" where
  "rt_interrupt_leave s = emit Hook_irq_leave (s\<lparr>k_interrupt_nest := k_interrupt_nest s - 1\<rparr>)"

definition rt_thread_self :: "kstate \<Rightarrow> tid" where
  "rt_thread_self s = k_current s"

section \<open>The invariant\<close>

text \<open>The state a thread has when it is linked to a head.\<close>

fun head_stat :: "lhead \<Rightarrow> thread_stat" where
  "head_stat (Ready p) = RT_THREAD_READY"
| "head_stat Defunct = RT_THREAD_CLOSE"
| "head_stat (Suspend ob) = RT_THREAD_SUSPEND"
| "head_stat (Suspend_sender m) = RT_THREAD_SUSPEND"

text \<open>What holds of a thread that has been started and has not been closed.\<close>

definition thread_ok :: "rt_thread \<Rightarrow> bool" where
  "thread_ok th \<longleftrightarrow> unat (current_priority th) < RT_THREAD_PRIORITY_MAX \<and>
     number_mask th = push_bit (unat (current_priority th)) 1"

definition sched_inv :: "kstate \<Rightarrow> bool" where
  "sched_inv s \<longleftrightarrow>
     qs_wf (k_tlist s) \<and>
     (\<forall>p < RT_THREAD_PRIORITY_MAX. bit (k_ready_group s) p \<longleftrightarrow> ready_q s p \<noteq> []) \<and>
     (\<forall>h. \<forall>t \<in> set (k_tlist s h). t \<noteq> RT_NULL \<and> thr_stat s t = head_stat h) \<and>
     (\<forall>p. \<forall>t \<in> set (ready_q s p). thr_prio s t = p) \<and>
     (\<forall>t. thr_stat s t = RT_THREAD_READY \<longrightarrow> t \<in> set (ready_q s (thr_prio s t))) \<and>
     (\<forall>t. thr_stat s t \<in> {RT_THREAD_READY, RT_THREAD_SUSPEND} \<longrightarrow> thread_ok (k_thread s t))"

text \<open>
  The specification of the selection: \<open>highest s p\<close> says that \<open>p\<close> is the numerically smallest, that
  is the most urgent, priority with a ready thread.
\<close>

definition highest :: "kstate \<Rightarrow> nat \<Rightarrow> bool" where
  "highest s p \<longleftrightarrow> ready_q s p \<noteq> [] \<and> (\<forall>q < p. ready_q s q = [])"

definition stack_ok :: "rt_thread \<Rightarrow> bool" where
  "stack_ok th \<longleftrightarrow> stack_mark th = 0x23 \<and> stack_addr th < sp th \<and> sp th \<le> stack_addr th + stack_size th"

section \<open>The bitmap and the ready queues\<close>

lemma sched_invI:
  assumes "qs_wf (k_tlist s)"
    and "\<And>p. p < RT_THREAD_PRIORITY_MAX \<Longrightarrow> bit (k_ready_group s) p \<longleftrightarrow> ready_q s p \<noteq> []"
    and "\<And>h t. t \<in> set (k_tlist s h) \<Longrightarrow> t \<noteq> RT_NULL \<and> thr_stat s t = head_stat h"
    and "\<And>p t. t \<in> set (ready_q s p) \<Longrightarrow> thr_prio s t = p"
    and "\<And>t. thr_stat s t = RT_THREAD_READY \<Longrightarrow> t \<in> set (ready_q s (thr_prio s t))"
    and "\<And>t. thr_stat s t \<in> {RT_THREAD_READY, RT_THREAD_SUSPEND} \<Longrightarrow> thread_ok (k_thread s t)"
  shows "sched_inv s"
  using assms unfolding sched_inv_def by blast

lemma sched_invD:
  assumes "sched_inv s"
  shows "qs_wf (k_tlist s)"
    and "p < RT_THREAD_PRIORITY_MAX \<Longrightarrow> bit (k_ready_group s) p \<longleftrightarrow> ready_q s p \<noteq> []"
    and "t \<in> set (k_tlist s h) \<Longrightarrow> t \<noteq> RT_NULL"
    and "t \<in> set (k_tlist s h) \<Longrightarrow> thr_stat s t = head_stat h"
    and "t \<in> set (ready_q s p) \<Longrightarrow> thr_prio s t = p"
    and "thr_stat s t = RT_THREAD_READY \<Longrightarrow> t \<in> set (ready_q s (thr_prio s t))"
    and "thr_stat s t = RT_THREAD_READY \<Longrightarrow> thread_ok (k_thread s t)"
    and "thr_stat s t = RT_THREAD_SUSPEND \<Longrightarrow> thread_ok (k_thread s t)"
  using assms unfolding sched_inv_def by blast+

text \<open>The invariant reads the thread table, the thread queues and the bitmap only.\<close>

lemma sched_inv_cong:
  assumes "sched_inv s" "k_thread s' = k_thread s" "k_tlist s' = k_tlist s"
    "k_ready_group s' = k_ready_group s"
  shows "sched_inv s'"
  using assms unfolding sched_inv_def by simp

text \<open>Of the thread table it reads state, priority and mask.\<close>

lemma sched_inv_thread_cong:
  assumes "sched_inv s" "k_tlist s' = k_tlist s" "k_ready_group s' = k_ready_group s"
    "\<And>t. thr_stat s' t = thr_stat s t"
    "\<And>t. current_priority (k_thread s' t) = current_priority (k_thread s t)"
    "\<And>t. number_mask (k_thread s' t) = number_mask (k_thread s t)"
  shows "sched_inv s'"
  using assms unfolding sched_inv_def thread_ok_def by simp

lemma ready_q_less:
  assumes "sched_inv s" "ready_q s p \<noteq> []"
  shows "p < RT_THREAD_PRIORITY_MAX"
proof -
  obtain t where t: "t \<in> set (ready_q s p)" using assms(2) by (cases "ready_q s p") auto
  have "thr_stat s t = RT_THREAD_READY" using sched_invD(4) [OF assms(1) t] by simp
  then have "thread_ok (k_thread s t)" by (rule sched_invD(7) [OF assms(1)])
  with sched_invD(5) [OF assms(1) t] show ?thesis by (simp add: thread_ok_def)
qed

lemma ready_group_zero:
  assumes "sched_inv s"
  shows "k_ready_group s = 0 \<longleftrightarrow> (\<forall>p. ready_q s p = [])"
proof
  assume z: "k_ready_group s = 0"
  show "\<forall>p. ready_q s p = []"
  proof
    fix p
    show "ready_q s p = []"
      using sched_invD(2) [OF assms, of p] ready_q_less [OF assms, of p] z by auto
  qed
next
  assume "\<forall>p. ready_q s p = []"
  then show "k_ready_group s = 0"
    by (intro bit_word_eqI) (use sched_invD(2) [OF assms] in simp)
qed

text \<open>The bitmap computes the specified priority.\<close>

lemma highest_ready_priority_highest:
  assumes "sched_inv s" "k_ready_group s \<noteq> 0"
  shows "highest s (unat (highest_ready_priority s))"
proof -
  obtain n where n: "n < 32" "unat (rt_ffs (k_ready_group s)) = n + 1" "lowest (k_ready_group s) n"
    using rt_ffs_lowest [OF assms(2)] by blast
  have "1 \<le> rt_ffs (k_ready_group s)" using n(2) by (simp add: word_le_nat_alt)
  then have "unat (highest_ready_priority s) = n"
    by (simp add: highest_ready_priority_def unat_sub n(2))
  then show ?thesis
    using n sched_invD(2) [OF assms(1)] by (auto simp: highest_def lowest_def)
qed

lemma highest_unique: "highest s p \<Longrightarrow> highest s q \<Longrightarrow> p = q"
  unfolding highest_def by (meson linorder_neqE_nat)

lemma to_thread_spec:
  assumes "sched_inv s" "highest s p"
  shows "to_thread s = Some (hd (ready_q s p))"
proof -
  have "k_ready_group s \<noteq> 0" using assms ready_group_zero by (auto simp: highest_def)
  from highest_ready_priority_highest [OF assms(1) this]
  have "unat (highest_ready_priority s) = p" using assms(2) highest_unique by blast
  then show ?thesis using assms(2) by (auto simp: to_thread_def highest_def split: list.splits)
qed

lemma highest_exists:
  assumes "ready_q s p \<noteq> []"
  obtains q where "highest s q" "q \<le> p"
proof -
  let ?q = "LEAST q. ready_q s q \<noteq> []"
  have "highest s ?q"
    unfolding highest_def using LeastI [of "\<lambda>q. ready_q s q \<noteq> []", OF assms] not_less_Least by blast
  moreover have "?q \<le> p" using assms by (rule Least_le)
  ultimately show ?thesis by (rule that)
qed

lemma stack_check_ok [okr]:
  "ok (rt_scheduler_stack_check t s) Q \<longleftrightarrow> t \<noteq> RT_NULL \<and> stack_ok (k_thread s t) \<and> Q ()"
  by (auto simp: rt_scheduler_stack_check_def okr Let_def stack_ok_def not_le not_less)

text \<open>
  What a call of the scheduler may change: the current thread, the current priority and the trace.
\<close>

definition only_switched :: "kstate \<Rightarrow> kstate \<Rightarrow> bool" where
  "only_switched s s' \<longleftrightarrow>
     s' = s\<lparr>k_current := k_current s', k_current_priority := k_current_priority s', k_trace := k_trace s'\<rparr>"

lemma only_switched_refl [simp]: "only_switched s s"
  by (simp add: only_switched_def)

lemma only_switchedD:
  assumes "only_switched s s'"
  shows "k_thread s' = k_thread s" "k_tlist s' = k_tlist s" "k_ready_group s' = k_ready_group s"
    "k_lock_nest s' = k_lock_nest s" "k_interrupt_nest s' = k_interrupt_nest s" "k_tick s' = k_tick s"
    "k_timer s' = k_timer s" "k_timers s' = k_timers s" "k_object s' = k_object s"
    "k_container s' = k_container s" "k_sem s' = k_sem s" "k_mutex s' = k_mutex s"
    "k_event s' = k_event s" "k_mb s' = k_mb s" "k_mq s' = k_mq s" "k_mp s' = k_mp s" "k_word s' = k_word s"
    "k_module s' = k_module s" "k_random_nr s' = k_random_nr s"
    "k_errno s' = k_errno s"
  by (subst assms [unfolded only_switched_def], simp)+

lemma rt_schedule_locked: "k_lock_nest s \<noteq> 0 \<Longrightarrow> rt_schedule s = Some s"
  by (simp add: rt_schedule_def)

lemma rt_schedule_ok:
  assumes "sched_inv s" "highest s p" "stack_ok (k_thread s (hd (ready_q s p)))" "k_lock_nest s = 0"
  shows "ok (rt_schedule s) (\<lambda>s'. only_switched s s' \<and> k_current s' = hd (ready_q s p))"
proof -
  have "hd (ready_q s p) \<in> set (ready_q s p)" using assms(2) by (simp add: highest_def)
  then have nz: "hd (ready_q s p) \<noteq> RT_NULL" by (rule sched_invD(3) [OF assms(1)])
  show ?thesis
    unfolding rt_schedule_def
    using to_thread_spec [OF assms(1,2)] nz assms(3,4)
    by (simp add: okr Let_def only_switched_def)
qed

lemma sched_inv_only_switched: "only_switched s s' \<Longrightarrow> sched_inv s \<Longrightarrow> sched_inv s'"
  by (rule sched_inv_cong) (simp_all add: only_switchedD)

section \<open>Insertion and removal\<close>

lemma insert_thread_ok:
  assumes inv: "sched_inv s" and t: "t \<noteq> RT_NULL" "thr_stat s t \<noteq> RT_THREAD_READY"
    "thread_ok (k_thread s t)" "qs_free t (k_tlist s)"
  shows "ok (rt_schedule_insert_thread t s) (\<lambda>s'. sched_inv s' \<and>
     s' = s\<lparr>k_thread := (k_thread s)(t := (k_thread s t)\<lparr>stat := RT_THREAD_READY\<rparr>),
            k_tlist := qs_push_back (Ready (thr_prio s t)) t (k_tlist s),
            k_ready_group := k_ready_group s'\<rparr>)"
proof -
  note D = sched_invD [OF inv]
  let ?s = "s\<lparr>k_thread := (k_thread s)(t := (k_thread s t)\<lparr>stat := RT_THREAD_READY\<rparr>),
            k_tlist := qs_push_back (Ready (thr_prio s t)) t (k_tlist s),
            k_ready_group := k_ready_group s OR number_mask (k_thread s t)\<rparr>"
  have eq: "rt_schedule_insert_thread t s = Some ?s"
    using t(1) by (simp add: rt_schedule_insert_thread_def Let_def)
  have nin: "t \<notin> set (k_tlist s h)" for h using t(4) by (simp add: qs_free_def)
  have p: "thr_prio s t < 32" "number_mask (k_thread s t) = push_bit (thr_prio s t) 1"
    using t(3) by (simp_all add: thread_ok_def)
  have "sched_inv ?s"
  proof (rule sched_invI)
    show "qs_wf (k_tlist ?s)" using D(1) t(4) by (simp add: qs_wf_push_back)
    show "bit (k_ready_group ?s) q \<longleftrightarrow> ready_q ?s q \<noteq> []" if "q < 32" for q
      using D(2) [OF that] that p by (auto simp: bit_simps qs_push_back_def)
    show "t' \<noteq> RT_NULL \<and> thr_stat ?s t' = head_stat h" if "t' \<in> set (k_tlist ?s h)" for t' h
      using that D(3,4) [of t' h] nin t(1) by (auto simp: qs_push_back_def split: if_splits)
    show "thr_prio ?s t' = q" if "t' \<in> set (ready_q ?s q)" for t' q
      using that D(5) [of t' q] nin by (auto simp: qs_push_back_def split: if_splits)
    show "t' \<in> set (ready_q ?s (thr_prio ?s t'))" if "thr_stat ?s t' = RT_THREAD_READY" for t'
      using that D(6) [of t'] by (auto simp: qs_push_back_def split: if_splits)
    show "thread_ok (k_thread ?s t')"
      if "thr_stat ?s t' \<in> {RT_THREAD_READY, RT_THREAD_SUSPEND}" for t'
      using that D(7,8) [of t'] t(3) by (auto simp: thread_ok_def split: if_splits)
  qed
  then show ?thesis by (simp add: eq okr)
qed

text \<open>
  Removal happens together with a change of the thread's state: \<open>s1\<close> is \<open>s\<close> with the state of \<open>t\<close>
  already set, as in \<^verbatim>\<open>rt_thread_suspend\<close>. The thread may be in any queue or in none.
\<close>

lemma remove_thread_ok:
  assumes inv: "sched_inv s" and t: "t \<noteq> RT_NULL" "thread_ok (k_thread s t)" "x \<noteq> RT_THREAD_READY"
    and s1: "s1 = s\<lparr>k_thread := (k_thread s)(t := (k_thread s t)\<lparr>stat := x\<rparr>)\<rparr>"
  shows "ok (rt_schedule_remove_thread t s1) (\<lambda>s'. sched_inv s' \<and> qs_free t (k_tlist s') \<and>
     s' = s1\<lparr>k_tlist := qs_remove t (k_tlist s), k_ready_group := k_ready_group s'\<rparr>)"
proof -
  note D = sched_invD [OF inv]
  let ?g = "if qs_remove t (k_tlist s) (Ready (thr_prio s t)) = []
      then k_ready_group s AND NOT (number_mask (k_thread s t)) else k_ready_group s"
  let ?s = "s1\<lparr>k_tlist := qs_remove t (k_tlist s), k_ready_group := ?g\<rparr>"
  have eq: "rt_schedule_remove_thread t s1 = Some ?s"
    using t(1) by (simp add: rt_schedule_remove_thread_def Let_def s1)
  have fr: "qs_free t (qs_remove t (k_tlist s))" using D(1) by (rule qs_free_remove)
  have sr: "set (qs_remove t (k_tlist s) h) = set (k_tlist s h) - {t}" for h
    using D(1) by (rule set_qs_remove)
  have p: "thr_prio s t < 32" "number_mask (k_thread s t) = push_bit (thr_prio s t) 1"
    using t(2) by (simp_all add: thread_ok_def)
  have "sched_inv ?s"
  proof (rule sched_invI)
    show "qs_wf (k_tlist ?s)" using D(1) by (simp add: qs_wf_remove)
    show "bit (k_ready_group ?s) q \<longleftrightarrow> ready_q ?s q \<noteq> []" if "q < 32" for q
    proof (cases "q = thr_prio s t")
      case True
      have "ready_q s q \<noteq> []" if "qs_remove t (k_tlist s) (Ready q) \<noteq> []"
        using that by (auto simp: qs_remove_def)
      then show ?thesis using D(2) [OF that] that p True by (auto simp: bit_simps)
    next
      case False
      have "t \<notin> set (ready_q s q)" using D(5) [of t q] False by blast
      then have "qs_remove t (k_tlist s) (Ready q) = ready_q s q" by (simp add: qs_remove_def)
      then show ?thesis using D(2) [OF that] that p False by (auto simp: bit_simps)
    qed
    show "t' \<noteq> RT_NULL \<and> thr_stat ?s t' = head_stat h" if "t' \<in> set (k_tlist ?s h)" for t' h
      using that D(3,4) [of t' h] by (auto simp: sr s1)
    show "thr_prio ?s t' = q" if "t' \<in> set (ready_q ?s q)" for t' q
      using that D(5) [of t' q] by (auto simp: sr s1)
    show "t' \<in> set (ready_q ?s (thr_prio ?s t'))" if "thr_stat ?s t' = RT_THREAD_READY" for t'
      using that D(6) [of t'] t(3) by (auto simp: sr s1 split: if_splits)
    show "thread_ok (k_thread ?s t')"
      if "thr_stat ?s t' \<in> {RT_THREAD_READY, RT_THREAD_SUSPEND}" for t'
      using that D(7,8) [of t'] t(2) by (auto simp: thread_ok_def s1 split: if_splits)
  qed
  then show ?thesis using fr by (simp add: eq okr)
qed

end
