(* ===== verification/Kservice.thy ===== *)
theory Kservice
  imports Prelude
begin

text \<open>
  The memory and string services of \<^verbatim>\<open>src/kservice.c\<close>. Memory is a function from addresses to bytes;
  a region that is written lies below \<^verbatim>\<open>2^32\<close>, so address arithmetic does not wrap and addresses are
  natural numbers. Strings are byte streams: \<^verbatim>\<open>s[i]\<close> is \<open>s i\<close>. \<^verbatim>\<open>char\<close> is unsigned (ARM EABI).

  The word-wise loops of \<open>rt_memset\<close> and \<open>rt_memcpy\<close> are kept and proved equal to the byte-wise
  specification.
\<close>

type_synonym mem = "nat \<Rightarrow> rt_uint8_t"
type_synonym cstr = "nat \<Rightarrow> rt_uint8_t"

section \<open>Word access\<close>

definition store32 :: "nat \<Rightarrow> rt_uint32_t \<Rightarrow> mem \<Rightarrow> mem" where
  "store32 a w m = m(a := ucast w, a + 1 := ucast (drop_bit 8 w),
     a + 2 := ucast (drop_bit 16 w), a + 3 := ucast (drop_bit 24 w))"

definition load32 :: "nat \<Rightarrow> mem \<Rightarrow> rt_uint32_t" where
  "load32 a m = ucast (m a) OR push_bit 8 (ucast (m (a + 1))) OR
     push_bit 16 (ucast (m (a + 2))) OR push_bit 24 (ucast (m (a + 3)))"

section \<open>rt\_memset\<close>

text \<open>\<^verbatim>\<open>while (count--) *m++ = (char)d;\<close>\<close>

fun set_bytes :: "nat \<Rightarrow> rt_uint8_t \<Rightarrow> nat \<Rightarrow> mem \<Rightarrow> mem" where
  "set_bytes a d 0 m = m"
| "set_bytes a d (Suc n) m = set_bytes (a + 1) d n (m(a := d))"

text \<open>The two word loops: four words at a time, then one.\<close>

fun set_words4 :: "nat \<Rightarrow> rt_uint32_t \<Rightarrow> nat \<Rightarrow> mem \<Rightarrow> nat \<times> nat \<times> mem" where
  "set_words4 a b count m =
     (if 16 \<le> count
      then set_words4 (a + 16) b (count - 16)
             (store32 (a + 12) b (store32 (a + 8) b (store32 (a + 4) b (store32 a b m))))
      else (a, count, m))"

fun set_words :: "nat \<Rightarrow> rt_uint32_t \<Rightarrow> nat \<Rightarrow> mem \<Rightarrow> nat \<times> nat \<times> mem" where
  "set_words a b count m =
     (if 4 \<le> count then set_words (a + 4) b (count - 4) (store32 a b m) else (a, count, m))"

declare set_words4.simps [simp del] set_words.simps [simp del]

definition memset_buffer :: "rt_uint32_t \<Rightarrow> rt_uint32_t" where
  "memset_buffer d = (let b = push_bit 8 d OR d in b OR push_bit 16 b)"

definition rt_memset :: "nat \<Rightarrow> rt_uint32_t \<Rightarrow> nat \<Rightarrow> mem \<Rightarrow> mem" where
  "rt_memset s c count m =
     (let d = c AND 0xff in
      if \<not> count < 4 \<and> s mod 4 = 0
      then let b = memset_buffer d;
               (a, n, m) = set_words4 s b count m;
               (a, n, m) = set_words a b n m
           in set_bytes a (ucast d) n m
      else set_bytes s (ucast d) count m)"

section \<open>rt\_memcpy\<close>

fun copy_bytes :: "nat \<Rightarrow> nat \<Rightarrow> nat \<Rightarrow> mem \<Rightarrow> mem" where
  "copy_bytes dst src 0 m = m"
| "copy_bytes dst src (Suc n) m = copy_bytes (dst + 1) (src + 1) n (m(dst := m src))"

definition copy_word :: "nat \<Rightarrow> nat \<Rightarrow> mem \<Rightarrow> mem" where
  "copy_word dst src m = store32 dst (load32 src m) m"

fun copy_words4 :: "nat \<Rightarrow> nat \<Rightarrow> nat \<Rightarrow> mem \<Rightarrow> nat \<times> nat \<times> nat \<times> mem" where
  "copy_words4 dst src len m =
     (if 16 \<le> len
      then copy_words4 (dst + 16) (src + 16) (len - 16)
             (copy_word (dst + 12) (src + 12) (copy_word (dst + 8) (src + 8)
               (copy_word (dst + 4) (src + 4) (copy_word dst src m))))
      else (dst, src, len, m))"

fun copy_words :: "nat \<Rightarrow> nat \<Rightarrow> nat \<Rightarrow> mem \<Rightarrow> nat \<times> nat \<times> nat \<times> mem" where
  "copy_words dst src len m =
     (if 4 \<le> len then copy_words (dst + 4) (src + 4) (len - 4) (copy_word dst src m)
      else (dst, src, len, m))"

declare copy_words4.simps [simp del] copy_words.simps [simp del]

definition rt_memcpy :: "nat \<Rightarrow> nat \<Rightarrow> nat \<Rightarrow> mem \<Rightarrow> mem" where
  "rt_memcpy dst src count m =
     (if \<not> count < 16 \<and> src mod 4 = 0 \<and> dst mod 4 = 0
      then let (d, s, n, m) = copy_words4 dst src count m;
               (d, s, n, m) = copy_words d s n m
           in copy_bytes d s n m
      else copy_bytes dst src count m)"

section \<open>rt\_memmove and rt\_memcmp\<close>

text \<open>\<^verbatim>\<open>while (n--) *(--tmp) = *(--s);\<close>\<close>

fun copy_back :: "nat \<Rightarrow> nat \<Rightarrow> nat \<Rightarrow> mem \<Rightarrow> mem" where
  "copy_back tmp s 0 m = m"
| "copy_back tmp s (Suc n) m = copy_back (tmp - 1) (s - 1) n (m(tmp - 1 := m (s - 1)))"

definition rt_memmove :: "nat \<Rightarrow> nat \<Rightarrow> nat \<Rightarrow> mem \<Rightarrow> mem" where
  "rt_memmove dest src n m =
     (if src < dest \<and> dest < src + n then copy_back (dest + n) (src + n) n m
      else copy_bytes dest src n m)"

fun rt_memcmp :: "cstr \<Rightarrow> cstr \<Rightarrow> nat \<Rightarrow> int" where
  "rt_memcmp cs ct 0 = 0"
| "rt_memcmp cs ct (Suc n) =
     (let res = uint (cs 0) - uint (ct 0)
      in if res \<noteq> 0 then res else rt_memcmp (\<lambda>i. cs (i + 1)) (\<lambda>i. ct (i + 1)) n)"

section \<open>Strings\<close>

text \<open>
  Loops that stop at a terminator run for ever on a stream without one, so they are partial.
\<close>

partial_function (option) strlen_loop :: "cstr \<Rightarrow> nat \<Rightarrow> nat option" where
  "strlen_loop s sc = (if s sc \<noteq> 0 then strlen_loop s (sc + 1) else Some sc)"

definition rt_strlen :: "cstr \<Rightarrow> nat option" where
  "rt_strlen s = strlen_loop s 0"

function strnlen_loop :: "cstr \<Rightarrow> nat \<Rightarrow> nat \<Rightarrow> nat" where
  "strnlen_loop s maxlen sc =
     (if s sc \<noteq> 0 \<and> sc < maxlen then strnlen_loop s maxlen (sc + 1) else sc)"
  by pat_completeness auto
termination
  by (relation "measure (\<lambda>(s, maxlen, sc). maxlen - sc)") auto

declare strnlen_loop.simps [simp del]

definition rt_strnlen :: "cstr \<Rightarrow> nat \<Rightarrow> nat" where
  "rt_strnlen s maxlen = strnlen_loop s maxlen 0"

text \<open>The bytes \<^verbatim>\<open>rt_strncpy\<close> stores at \<^verbatim>\<open>dst[0..n)\<close>.\<close>

fun rt_strncpy :: "cstr \<Rightarrow> nat \<Rightarrow> rt_uint8_t list" where
  "rt_strncpy s 0 = []"
| "rt_strncpy s (Suc n) =
     (if s 0 = 0 then replicate (Suc n) 0 else s 0 # rt_strncpy (\<lambda>i. s (i + 1)) n)"

text \<open>The difference is kept in a \<^verbatim>\<open>signed char\<close>.\<close>

fun strncmp_loop :: "cstr \<Rightarrow> cstr \<Rightarrow> nat \<Rightarrow> rt_uint8_t \<Rightarrow> rt_uint8_t" where
  "strncmp_loop cs ct 0 res = res"
| "strncmp_loop cs ct (Suc n) res =
     (let res = cs 0 - ct 0
      in if res \<noteq> 0 \<or> cs 0 = 0 then res
         else strncmp_loop (\<lambda>i. cs (i + 1)) (\<lambda>i. ct (i + 1)) n res)"

definition rt_strncmp :: "cstr \<Rightarrow> cstr \<Rightarrow> nat \<Rightarrow> int" where
  "rt_strncmp cs ct count = sint (strncmp_loop cs ct count 0)"

partial_function (option) rt_strcmp_at :: "cstr \<Rightarrow> cstr \<Rightarrow> nat \<Rightarrow> int option" where
  "rt_strcmp_at cs ct i =
     (if cs i \<noteq> 0 \<and> cs i = ct i then rt_strcmp_at cs ct (i + 1)
      else Some (uint (cs i) - uint (ct i)))"

definition rt_strcmp :: "cstr \<Rightarrow> cstr \<Rightarrow> int option" where
  "rt_strcmp cs ct = rt_strcmp_at cs ct 0"

definition to_lower :: "rt_uint8_t \<Rightarrow> int" where
  "to_lower c = (if 65 \<le> uint c \<and> uint c \<le> 90 then uint c + 32 else uint c)"

partial_function (option) strcasecmp_at :: "cstr \<Rightarrow> cstr \<Rightarrow> nat \<Rightarrow> int option" where
  "strcasecmp_at a b i =
     (let ca = to_lower (a i); cb = to_lower (b i)
      in if ca = cb \<and> ca \<noteq> 0 then strcasecmp_at a b (i + 1) else Some (ca - cb))"

text \<open>The result type is unsigned.\<close>

definition rt_strcasecmp :: "cstr \<Rightarrow> cstr \<Rightarrow> rt_uint32_t option" where
  "rt_strcasecmp a b = map_option of_int (strcasecmp_at a b 0)"

text \<open>The search loop: \<open>l1\<close> bytes are left at position \<open>pos\<close>; a match position or \<^verbatim>\<open>RT_NULL\<close>.\<close>

fun strstr_loop :: "cstr \<Rightarrow> cstr \<Rightarrow> nat \<Rightarrow> nat \<Rightarrow> nat \<Rightarrow> nat option" where
  "strstr_loop s1 s2 l2 l1 pos =
     (if l2 \<le> l1 \<and> 0 < l2
      then if rt_memcmp (\<lambda>i. s1 (pos + i)) s2 l2 = 0 then Some pos
           else strstr_loop s1 s2 l2 (l1 - 1) (pos + 1)
      else None)"

declare strstr_loop.simps [simp del]

definition rt_strstr :: "cstr \<Rightarrow> cstr \<Rightarrow> nat option option" where
  "rt_strstr s1 s2 = do {
     l2 \<leftarrow> rt_strlen s2;
     if l2 = 0 then Some (Some 0)
     else do { l1 \<leftarrow> rt_strlen s1; Some (strstr_loop s1 s2 l2 l1 0) }
   }"

section \<open>Memory functions against their specifications\<close>

text \<open>Filling and copying a range, as one simultaneous update.\<close>

definition mem_fill :: "nat \<Rightarrow> rt_uint8_t \<Rightarrow> nat \<Rightarrow> mem \<Rightarrow> mem" where
  "mem_fill a d n m = (\<lambda>x. if a \<le> x \<and> x < a + n then d else m x)"

definition mem_copy :: "nat \<Rightarrow> nat \<Rightarrow> nat \<Rightarrow> mem \<Rightarrow> mem" where
  "mem_copy dst src n m = (\<lambda>x. if dst \<le> x \<and> x < dst + n then m (src + (x - dst)) else m x)"

lemma mem_fill_0 [simp]: "mem_fill a d 0 m = m"
  by (auto simp: mem_fill_def fun_eq_iff)

lemma mem_copy_0 [simp]: "mem_copy dst src 0 m = m"
  by (auto simp: mem_copy_def fun_eq_iff)

lemma mem_fill_1: "m(a := d) = mem_fill a d 1 m"
  by (auto simp: mem_fill_def fun_eq_iff)

lemma mem_copy_1: "m(dst := m src) = mem_copy dst src 1 m"
  by (auto simp: mem_copy_def fun_eq_iff)

lemma mem_fill_fill: "mem_fill (a + k) d n (mem_fill a d k m) = mem_fill a d (k + n) m"
  by (auto simp: mem_fill_def fun_eq_iff)

lemma mem_copy_copy:
  assumes "dst \<le> src \<or> src + (k + n) \<le> dst"
  shows "mem_copy (dst + k) (src + k) n (mem_copy dst src k m) = mem_copy dst src (k + n) m"
  using assms by (auto simp: mem_copy_def fun_eq_iff)

lemma set_bytes_fill: "set_bytes a d n m = mem_fill a d n m"
  by (induction n arbitrary: a m)
    (simp_all add: mem_fill_1 mem_fill_fill [of _ 1, simplified] del: fun_upd_apply)

lemma memset_buffer_bytes:
  assumes "d = c AND 0xff"
  shows "ucast (memset_buffer d) = (ucast d :: 8 word)"
    "ucast (drop_bit 8 (memset_buffer d)) = (ucast d :: 8 word)"
    "ucast (drop_bit 16 (memset_buffer d)) = (ucast d :: 8 word)"
    "ucast (drop_bit 24 (memset_buffer d)) = (ucast d :: 8 word)"
proof -
  have "d = take_bit 8 c" by (simp add: assms take_bit_eq_mask mask_numeral)
  hence d: "bit d n \<Longrightarrow> n < 8" for n by (simp add: bit_simps)
  show "ucast (memset_buffer d) = (ucast d :: 8 word)"
    by (rule bit_word_eqI) (auto simp: memset_buffer_def bit_simps Let_def dest: d)
  show "ucast (drop_bit 8 (memset_buffer d)) = (ucast d :: 8 word)"
    by (rule bit_word_eqI) (auto simp: memset_buffer_def bit_simps Let_def dest: d)
  show "ucast (drop_bit 16 (memset_buffer d)) = (ucast d :: 8 word)"
    by (rule bit_word_eqI) (auto simp: memset_buffer_def bit_simps Let_def dest: d)
  show "ucast (drop_bit 24 (memset_buffer d)) = (ucast d :: 8 word)"
    by (rule bit_word_eqI) (auto simp: memset_buffer_def bit_simps Let_def dest: d)
qed

lemma store32_fill:
  assumes "d = c AND 0xff"
  shows "store32 a (memset_buffer d) m = mem_fill a (ucast d) 4 m"
  by (auto simp: store32_def memset_buffer_bytes [OF assms] mem_fill_def fun_eq_iff)

lemma load32_bytes:
  "ucast (load32 a m) = m a" "ucast (drop_bit 8 (load32 a m)) = m (a + 1)"
  "ucast (drop_bit 16 (load32 a m)) = m (a + 2)" "ucast (drop_bit 24 (load32 a m)) = m (a + 3)"
proof -
  have b: "bit (m i) n \<Longrightarrow> n < 8" for i n
    by (auto dest: bit_imp_possible_bit)
  show "ucast (load32 a m) = m a"
    by (rule bit_word_eqI) (auto simp: load32_def bit_simps dest: b)
  show "ucast (drop_bit 8 (load32 a m)) = m (a + 1)"
    by (rule bit_word_eqI) (auto simp: load32_def bit_simps dest: b)
  show "ucast (drop_bit 16 (load32 a m)) = m (a + 2)"
    by (rule bit_word_eqI) (auto simp: load32_def bit_simps dest: b)
  show "ucast (drop_bit 24 (load32 a m)) = m (a + 3)"
    by (rule bit_word_eqI) (auto simp: load32_def bit_simps dest: b)
qed

lemma copy_word_copy: "copy_word dst src m = mem_copy dst src 4 m"
proof
  fix x
  consider "x < dst" | "x = dst" | "x = dst + 1" | "x = dst + 2" | "x = dst + 3" | "dst + 4 \<le> x"
    by linarith
  thus "copy_word dst src m x = mem_copy dst src 4 m x"
    by cases (simp_all add: copy_word_def store32_def load32_bytes mem_copy_def)
qed

lemma copy_bytes_copy:
  "dst \<le> src \<or> src + n \<le> dst \<Longrightarrow> copy_bytes dst src n m = mem_copy dst src n m"
proof (induction n arbitrary: dst src m)
  case (Suc n)
  have "copy_bytes dst src (Suc n) m = mem_copy (dst + 1) (src + 1) n (mem_copy dst src 1 m)"
    using Suc.prems Suc.IH [of "dst + 1" "src + 1"] by (auto simp: mem_copy_1 simp del: fun_upd_apply)
  thus ?case using Suc.prems mem_copy_copy [of dst src 1 n m] by simp
qed simp

lemma copy_back_copy:
  "src \<le> dst \<Longrightarrow> copy_back (dst + n) (src + n) n m = mem_copy dst src n m"
proof (induction n arbitrary: m)
  case (Suc n)
  then show ?case
    by (auto simp: mem_copy_def fun_eq_iff not_less_less_Suc_eq)
qed simp

lemma set_words4_fill:
  assumes d: "d = c AND 0xff" and r: "set_words4 a (memset_buffer d) n m = (a', n', m')"
  shows "n' \<le> n \<and> a' = a + (n - n') \<and> m' = mem_fill a (ucast d) (n - n') m"
  using r
proof (induction n arbitrary: a m rule: less_induct)
  case (less n)
  show ?case
  proof (cases "16 \<le> n")
    case True
    have 4: "store32 (a + 12) (memset_buffer d) (store32 (a + 8) (memset_buffer d)
      (store32 (a + 4) (memset_buffer d) (store32 a (memset_buffer d) m))) = mem_fill a (ucast d) 16 m"
      using mem_fill_fill [of a 4 "ucast d" 4 m] mem_fill_fill [of a 8 "ucast d" 4 m]
        mem_fill_fill [of a 12 "ucast d" 4 m] by (simp add: store32_fill [OF d])
    with True less.prems less.IH [of "n - 16"]
    have "n' \<le> n - 16 \<and> a' = a + 16 + (n - 16 - n') \<and>
        m' = mem_fill (a + 16) (ucast d) (n - 16 - n') (mem_fill a (ucast d) 16 m)"
      by (subst (asm) set_words4.simps) simp
    with True show ?thesis by (auto simp: mem_fill_fill)
  next
    case False
    with less.prems show ?thesis by (subst (asm) set_words4.simps) simp
  qed
qed

lemma set_words_fill:
  assumes d: "d = c AND 0xff" and r: "set_words a (memset_buffer d) n m = (a', n', m')"
  shows "n' \<le> n \<and> a' = a + (n - n') \<and> m' = mem_fill a (ucast d) (n - n') m"
  using r
proof (induction n arbitrary: a m rule: less_induct)
  case (less n)
  show ?case
  proof (cases "4 \<le> n")
    case True
    with less.prems less.IH [of "n - 4"]
    have "n' \<le> n - 4 \<and> a' = a + 4 + (n - 4 - n') \<and>
        m' = mem_fill (a + 4) (ucast d) (n - 4 - n') (mem_fill a (ucast d) 4 m)"
      by (subst (asm) set_words.simps) (simp add: store32_fill [OF d])
    with True show ?thesis by (auto simp: mem_fill_fill)
  next
    case False
    with less.prems show ?thesis by (subst (asm) set_words.simps) simp
  qed
qed

lemma ucast_and_mask8: "(ucast (c AND 0xff :: rt_uint32_t) :: rt_uint8_t) = ucast c"
  by (rule bit_word_eqI) (auto simp: bit_simps numeral_eq_Suc less_Suc_eq)

lemma rt_memset_fill: "rt_memset s c count m = mem_fill s (ucast c) count m"
proof -
  obtain a n m1 where 1: "set_words4 s (memset_buffer (c AND 0xff)) count m = (a, n, m1)"
    by (metis prod_cases3)
  obtain a' n' m2 where 2: "set_words a (memset_buffer (c AND 0xff)) n m1 = (a', n', m2)"
    by (metis prod_cases3)
  show ?thesis
    using set_words4_fill [OF refl 1] set_words_fill [OF refl 2] 1 2
      mem_fill_fill [of s "count - n" "ucast c" "n - n'" m]
      mem_fill_fill [of s "count - n'" "ucast c" "n'" m]
    by (auto simp: rt_memset_def Let_def set_bytes_fill ucast_and_mask8)
qed

lemma copy_word4_copy:
  assumes "dst \<le> src \<or> src + 16 \<le> dst"
  shows "copy_word (dst + 12) (src + 12) (copy_word (dst + 8) (src + 8)
    (copy_word (dst + 4) (src + 4) (copy_word dst src m))) = mem_copy dst src 16 m"
  using assms mem_copy_copy [of dst src 4 4 m] mem_copy_copy [of dst src 8 4 m]
    mem_copy_copy [of dst src 12 4 m]
  by (simp add: copy_word_copy) (elim disjE; simp)

lemma copy_words4_copy:
  assumes r: "copy_words4 dst src n m = (d', s', n', m')" and "dst \<le> src \<or> src + n \<le> dst"
  shows "n' \<le> n \<and> d' = dst + (n - n') \<and> s' = src + (n - n') \<and> m' = mem_copy dst src (n - n') m"
  using assms
proof (induction n arbitrary: dst src m rule: less_induct)
  case (less n)
  show ?case
  proof (cases "16 \<le> n")
    case True
    hence r: "copy_words4 (dst + 16) (src + 16) (n - 16) (mem_copy dst src 16 m) = (d', s', n', m')"
    proof -
      have "dst \<le> src \<or> src + 16 \<le> dst" using less.prems(2) True by linarith
      from copy_word4_copy [OF this] less.prems(1) True show ?thesis
        by (subst (asm) copy_words4.simps) simp
    qed
    have "dst + 16 \<le> src + 16 \<or> src + 16 + (n - 16) \<le> dst + 16"
      using less.prems(2) True by linarith
    note IH = less.IH [OF _ r this]
    from IH True have "dst \<le> src \<or> src + (16 + (n - 16 - n')) \<le> dst"
      using less.prems(2) by auto
    from mem_copy_copy [OF this, of m] IH True show ?thesis by auto
  next
    case False
    with less.prems show ?thesis by (subst (asm) copy_words4.simps) simp
  qed
qed

lemma copy_words_copy:
  assumes r: "copy_words dst src n m = (d', s', n', m')" and "dst \<le> src \<or> src + n \<le> dst"
  shows "n' \<le> n \<and> d' = dst + (n - n') \<and> s' = src + (n - n') \<and> m' = mem_copy dst src (n - n') m"
  using assms
proof (induction n arbitrary: dst src m rule: less_induct)
  case (less n)
  show ?case
  proof (cases "4 \<le> n")
    case True
    hence r: "copy_words (dst + 4) (src + 4) (n - 4) (mem_copy dst src 4 m) = (d', s', n', m')"
      using less.prems by (subst (asm) copy_words.simps) (simp add: copy_word_copy)
    have "dst + 4 \<le> src + 4 \<or> src + 4 + (n - 4) \<le> dst + 4"
      using less.prems(2) True by linarith
    note IH = less.IH [OF _ r this]
    from IH True have "dst \<le> src \<or> src + (4 + (n - 4 - n')) \<le> dst"
      using less.prems(2) by auto
    from mem_copy_copy [OF this, of m] IH True show ?thesis by auto
  next
    case False
    with less.prems show ?thesis by (subst (asm) copy_words.simps) simp
  qed
qed

lemma rt_memcpy_copy:
  assumes "dst \<le> src \<or> src + count \<le> dst"
  shows "rt_memcpy dst src count m = mem_copy dst src count m"
proof -
  obtain d s n m1 where 1: "copy_words4 dst src count m = (d, s, n, m1)"
    by (metis prod_cases4)
  obtain d' s' n' m2 where 2: "copy_words d s n m1 = (d', s', n', m2)"
    by (metis prod_cases4)
  note c1 = copy_words4_copy [OF 1 assms]
  have "d \<le> s \<or> s + n \<le> d" using c1 assms by auto
  note c2 = copy_words_copy [OF 2 this]
  have m2: "m2 = mem_copy dst src (count - n') m"
  proof -
    have "dst \<le> src \<or> src + ((count - n) + (n - n')) \<le> dst" using c1 c2 assms by auto
    from mem_copy_copy [OF this, of m] show ?thesis using c1 c2 by simp
  qed
  have "copy_bytes d' s' n' m2 = mem_copy d' s' n' m2"
    using c1 c2 assms by (intro copy_bytes_copy) auto
  also have "\<dots> = mem_copy dst src count m"
    using c1 c2 m2 assms mem_copy_copy [of dst src "count - n'" "n'" m] by auto
  finally show ?thesis
    using assms by (simp add: rt_memcpy_def 1 2 copy_bytes_copy)
qed

lemma rt_memmove_copy: "rt_memmove dest src n m = mem_copy dest src n m"
  by (auto simp: rt_memmove_def copy_back_copy copy_bytes_copy)

section \<open>String functions against their specifications\<close>

text \<open>The string stored in a buffer, and a NUL-terminated string of length \<open>n\<close>.\<close>

definition stream_of :: "rt_uint8_t list \<Rightarrow> cstr" where
  "stream_of xs i = (if i < length xs then xs ! i else 0)"

definition has_len :: "cstr \<Rightarrow> nat \<Rightarrow> bool" where
  "has_len s n \<longleftrightarrow> s n = 0 \<and> (\<forall>i<n. s i \<noteq> 0)"

lemma has_len_unique: "has_len s n \<Longrightarrow> has_len s k \<Longrightarrow> n = k"
  unfolding has_len_def by (rule ccontr) (auto simp: neq_iff)

lemma strlen_loop_len:
  assumes "has_len s n" "k \<le> n"
  shows "strlen_loop s k = Some n"
  using assms(2)
proof (induction k rule: inc_induct)
  case base
  show ?case using assms(1) by (subst strlen_loop.simps) (simp add: has_len_def)
next
  case (step k)
  thus ?case using assms(1) by (subst strlen_loop.simps) (simp add: has_len_def)
qed

lemma has_len_stream: "0 \<notin> set xs \<Longrightarrow> n = length xs \<Longrightarrow> has_len (stream_of xs) n"
  by (auto simp: has_len_def stream_of_def in_set_conv_nth)

lemma rt_strlen_len: "has_len s n \<Longrightarrow> rt_strlen s = Some n"
  by (simp add: rt_strlen_def strlen_loop_len)

lemma strlen_loop_res:
  assumes "strlen_loop s k = Some n"
  shows "k \<le> n \<and> s n = 0 \<and> (\<forall>i. k \<le> i \<and> i < n \<longrightarrow> s i \<noteq> 0)"
proof (rule strlen_loop.raw_induct
    [of "\<lambda>s k n. k \<le> n \<and> s n = 0 \<and> (\<forall>i. k \<le> i \<and> i < n \<longrightarrow> s i \<noteq> 0)", OF _ assms])
  fix f :: "cstr \<Rightarrow> nat \<Rightarrow> nat option" and s sc y
  assume IH: "\<And>s sc y. f s sc = Some y \<Longrightarrow> sc \<le> y \<and> s y = 0 \<and> (\<forall>i. sc \<le> i \<and> i < y \<longrightarrow> s i \<noteq> 0)"
    and r: "(if s sc \<noteq> 0 then f s (sc + 1) else Some sc) = Some y"
  show "sc \<le> y \<and> s y = 0 \<and> (\<forall>i. sc \<le> i \<and> i < y \<longrightarrow> s i \<noteq> 0)"
  proof (cases "s sc = 0")
    case True with r show ?thesis by auto
  next
    case False
    with r have IH1: "sc + 1 \<le> y \<and> s y = 0 \<and> (\<forall>i. sc + 1 \<le> i \<and> i < y \<longrightarrow> s i \<noteq> 0)"
      by (intro IH) simp
    have "s i \<noteq> 0" if "sc \<le> i" "i < y" for i
      using that False IH1 by (cases "i = sc") auto
    with IH1 show ?thesis by auto
  qed
qed

lemma rt_strlen_iff: "rt_strlen s = Some n \<longleftrightarrow> has_len s n"
proof
  assume "rt_strlen s = Some n"
  from strlen_loop_res [OF this [unfolded rt_strlen_def]] show "has_len s n"
    by (simp add: has_len_def)
qed (rule rt_strlen_len)

lemma strnlen_loop_spec:
  "\<lbrakk>sc \<le> maxlen; \<forall>i < sc. s i \<noteq> 0\<rbrakk> \<Longrightarrow>
     (let k = strnlen_loop s maxlen sc in k \<le> maxlen \<and> (\<forall>i<k. s i \<noteq> 0) \<and> (k < maxlen \<longrightarrow> s k = 0))"
proof (induction s maxlen sc rule: strnlen_loop.induct)
  case (1 s maxlen sc)
  show ?case
  proof (cases "s sc \<noteq> 0 \<and> sc < maxlen")
    case True
    with 1(1) 1(3) show ?thesis by (subst strnlen_loop.simps) (auto simp: less_Suc_eq)
  next
    case False
    with 1(2,3) show ?thesis by (subst strnlen_loop.simps) auto
  qed
qed

lemma length_strncpy [simp]: "length (rt_strncpy s n) = n"
  by (induction n arbitrary: s) auto

lemma nth_strncpy: "i < n \<Longrightarrow> rt_strncpy s n ! i = (if \<exists>j\<le>i. s j = 0 then 0 else s i)"
proof (induction n arbitrary: s i)
  case (Suc n)
  show ?case
  proof (cases i)
    case (Suc k)
    have "(\<exists>j\<le>Suc k. s j = 0) \<longleftrightarrow> s 0 = 0 \<or> (\<exists>j\<le>k. s (j + 1) = 0)"
      by (metis Suc_eq_plus1 Suc_le_mono le0 not0_implies_Suc)
    with Suc Suc.prems Suc.IH [of k "\<lambda>i. s (i + 1)"] show ?thesis
      by (auto simp: nth_Cons' nth_append)
  qed auto
qed simp

lemma strncmp_loop_0:
  "strncmp_loop cs ct n 0 = 0 \<longleftrightarrow> (\<forall>i<n. (\<forall>j<i. cs j \<noteq> 0) \<longrightarrow> cs i = ct i)"
proof (induction n arbitrary: cs ct)
  case (Suc n)
  have *: "(\<forall>i<Suc n. (\<forall>j<i. cs j \<noteq> 0) \<longrightarrow> cs i = ct i) \<longleftrightarrow>
      cs 0 = ct 0 \<and> (cs 0 \<noteq> 0 \<longrightarrow> (\<forall>i<n. (\<forall>j<i. cs (j + 1) \<noteq> 0) \<longrightarrow> cs (i + 1) = ct (i + 1)))"
    by (simp only: All_less_Suc2) (auto simp: less_Suc_eq_0_disj)
  show ?case
    by (simp only: * strncmp_loop.simps Let_def) (auto simp: Suc.IH)
qed simp

lemma sint_eq_0_iff: "sint (w :: 'a::len word) = 0 \<longleftrightarrow> w = 0"
  using signed_word_eqI [of w 0] by auto

lemma rt_strncmp_0:
  "rt_strncmp cs ct n = 0 \<longleftrightarrow> (\<forall>i<n. (\<forall>j<i. cs j \<noteq> 0) \<longrightarrow> cs i = ct i)"
  using strncmp_loop_0 [of cs ct n] by (simp add: rt_strncmp_def sint_eq_0_iff)

lemma uint_diff_0_iff: "uint (v :: 'a::len word) - uint w = 0 \<longleftrightarrow> v = w"
  by (auto simp: word_uint_eq_iff)

lemma stream_of_Cons: "stream_of (x # xs) 0 = x" "(\<lambda>i. stream_of (x # xs) (i + 1)) = stream_of xs"
  by (auto simp: stream_of_def)

lemma strncmp_loop_stored:
  "strncmp_loop (stream_of (rt_strncpy a n)) b n 0 = 0 \<longleftrightarrow> rt_strncpy a n = rt_strncpy b n"
proof (induction n arbitrary: a b)
  case (Suc n)
  then show ?case
    by (cases "a 0 = b 0") (auto simp: stream_of_Cons stream_of_Cons(2) [simplified] Let_def)
qed simp

text \<open>A stored name compares equal to a given name exactly when both store the same bytes.\<close>

lemma rt_strncmp_stored:
  "rt_strncmp (stream_of (rt_strncpy a n)) b n = 0 \<longleftrightarrow> rt_strncpy a n = rt_strncpy b n"
  by (simp add: rt_strncmp_def sint_eq_0_iff strncmp_loop_stored)

lemma rt_memcmp_0: "rt_memcmp cs ct n = 0 \<longleftrightarrow> (\<forall>i<n. cs i = ct i)"
proof (induction n arbitrary: cs ct)
  case (Suc n)
  show ?case
    by (simp only: All_less_Suc2 rt_memcmp.simps Let_def uint_diff_0_iff) (auto simp: Suc.IH word_uint_eq_iff)
qed simp

lemma rt_memcmp_sign:
  "rt_memcmp cs ct n \<noteq> 0 \<Longrightarrow>
   \<exists>k<n. (\<forall>i<k. cs i = ct i) \<and> cs k \<noteq> ct k \<and> rt_memcmp cs ct n = uint (cs k) - uint (ct k)"
proof (induction n arbitrary: cs ct)
  case (Suc n)
  show ?case
  proof (cases "cs 0 = ct 0")
    case True
    with Suc.prems have "rt_memcmp (\<lambda>i. cs (i + 1)) (\<lambda>i. ct (i + 1)) n \<noteq> 0" by simp
    from Suc.IH [OF this] obtain k where "k < n" "\<forall>i<k. cs (i + 1) = ct (i + 1)" "cs (k + 1) \<noteq> ct (k + 1)"
      "rt_memcmp (\<lambda>i. cs (i + 1)) (\<lambda>i. ct (i + 1)) n = uint (cs (k + 1)) - uint (ct (k + 1))" by auto
    with True show ?thesis
      by (intro exI [of _ "Suc k"]) (auto simp: All_less_Suc2)
  next
    case False
    thus ?thesis by (intro exI [of _ 0]) (auto simp: word_uint_eq_iff)
  qed
qed simp

text \<open>\<open>occurs\<close>: the string \<open>s2\<close> of length \<open>l2\<close> stands in \<open>s1\<close> at a position.\<close>

definition occurs_at :: "cstr \<Rightarrow> cstr \<Rightarrow> nat \<Rightarrow> nat \<Rightarrow> bool" where
  "occurs_at s1 s2 l2 pos \<longleftrightarrow> (\<forall>i<l2. s1 (pos + i) = s2 i)"

lemma strstr_loop_spec:
  "0 < l2 \<Longrightarrow> (case strstr_loop s1 s2 l2 l1 pos of
     None \<Rightarrow> \<forall>p. pos \<le> p \<and> p + l2 \<le> pos + l1 \<longrightarrow> \<not> occurs_at s1 s2 l2 p
   | Some q \<Rightarrow> pos \<le> q \<and> q + l2 \<le> pos + l1 \<and> occurs_at s1 s2 l2 q \<and>
       (\<forall>p. pos \<le> p \<and> p < q \<longrightarrow> \<not> occurs_at s1 s2 l2 p))"
proof (induction l1 arbitrary: pos)
  case 0
  then show ?case by (subst strstr_loop.simps) auto
next
  case (Suc l1)
  show ?case
  proof (cases "l2 \<le> Suc l1 \<and> rt_memcmp (\<lambda>i. s1 (pos + i)) s2 l2 \<noteq> 0")
    case True
    hence no: "\<not> occurs_at s1 s2 l2 pos" by (auto simp: rt_memcmp_0 occurs_at_def)
    have r: "strstr_loop s1 s2 l2 (Suc l1) pos = strstr_loop s1 s2 l2 l1 (pos + 1)"
      using True Suc.prems by (subst strstr_loop.simps) simp
    have ge: "Suc pos \<le> p" if "pos \<le> p" "occurs_at s1 s2 l2 p" for p
      using that no by (cases "p = pos") auto
    show ?thesis
    proof (cases "strstr_loop s1 s2 l2 l1 (Suc pos)")
      case None
      with Suc.IH [OF Suc.prems, of "pos + 1"] ge show ?thesis by (auto simp: r)
    next
      case (Some q)
      with Suc.IH [OF Suc.prems, of "pos + 1"] ge show ?thesis by (auto simp: r)
    qed
  next
    case False
    thus ?thesis using Suc.prems
      by (subst strstr_loop.simps) (auto simp: rt_memcmp_0 occurs_at_def)
  qed
qed

lemma rt_strstr_spec:
  assumes "has_len s1 l1" "has_len s2 l2"
  shows "\<exists>r. rt_strstr s1 s2 = Some r \<and> (case r of
     None \<Rightarrow> \<forall>p. p + l2 \<le> l1 \<longrightarrow> \<not> occurs_at s1 s2 l2 p
   | Some q \<Rightarrow> q + l2 \<le> l1 \<and> occurs_at s1 s2 l2 q \<and> (\<forall>p<q. \<not> occurs_at s1 s2 l2 p))"
  using strstr_loop_spec [of l2 0 l1 s1 s2] assms [THEN rt_strlen_len]
  by (auto simp: rt_strstr_def occurs_at_def split: option.splits)

text \<open>String comparison ends at the first difference or at the common end.\<close>

lemma rt_strcmp_at_stop:
  assumes "k \<le> n" "\<forall>i. k \<le> i \<and> i < n \<longrightarrow> cs i \<noteq> 0 \<and> cs i = ct i" "cs n = 0 \<or> cs n \<noteq> ct n"
  shows "rt_strcmp_at cs ct k = Some (uint (cs n) - uint (ct n))"
  using assms(1,2)
proof (induction k rule: inc_induct)
  case base
  show ?case using assms(3) by (subst rt_strcmp_at.simps) auto
next
  case (step k)
  have "rt_strcmp_at cs ct (Suc k) = Some (uint (cs n) - uint (ct n))"
    using step.prems by (intro step.IH) (meson Suc_leD)
  with step.hyps step.prems show ?case by (subst rt_strcmp_at.simps) auto
qed

lemma rt_strcmp_stops:
  assumes "has_len cs m"
  shows "\<exists>n\<le>m. (\<forall>i<n. cs i \<noteq> 0 \<and> cs i = ct i) \<and> (cs n = 0 \<or> cs n \<noteq> ct n) \<and>
    rt_strcmp cs ct = Some (uint (cs n) - uint (ct n))"
proof -
  from assms have "cs m = 0 \<or> cs m \<noteq> ct m" by (simp add: has_len_def)
  from ex_least_nat_le [of "\<lambda>n. cs n = 0 \<or> cs n \<noteq> ct n", OF this]
  obtain n where n: "n \<le> m" "\<forall>i<n. \<not> (cs i = 0 \<or> cs i \<noteq> ct i)" "cs n = 0 \<or> cs n \<noteq> ct n"
    by blast
  hence "rt_strcmp cs ct = Some (uint (cs n) - uint (ct n))"
    unfolding rt_strcmp_def by (intro rt_strcmp_at_stop) auto
  with n show ?thesis by blast
qed

lemma rt_strcmp_eq_iff:
  assumes "has_len cs m" "has_len ct k"
  shows "rt_strcmp cs ct = Some 0 \<longleftrightarrow> m = k \<and> (\<forall>i<m. cs i = ct i)"
proof -
  obtain n where n: "n \<le> m" "\<forall>i<n. cs i \<noteq> 0 \<and> cs i = ct i" "cs n = 0 \<or> cs n \<noteq> ct n"
    "rt_strcmp cs ct = Some (uint (cs n) - uint (ct n))"
    using rt_strcmp_stops [OF assms(1)] by blast
  show ?thesis
  proof
    assume "rt_strcmp cs ct = Some 0"
    with n have "cs n = ct n" by (simp add: word_uint_eq_iff)
    with n have "cs n = 0" "ct n = 0" by auto
    with n assms(1) have "n = m" by (auto simp: has_len_def le_less)
    moreover have "has_len ct n" using n \<open>ct n = 0\<close> by (auto simp: has_len_def)
    ultimately show "m = k \<and> (\<forall>i<m. cs i = ct i)"
      using n has_len_unique [OF assms(2)] by auto
  next
    assume r: "m = k \<and> (\<forall>i<m. cs i = ct i)"
    with assms have "cs m = 0" "ct m = 0" by (auto simp: has_len_def)
    with r n have "cs n = ct n" by (auto simp: le_less)
    with n show "rt_strcmp cs ct = Some 0" by simp
  qed
qed

section \<open>Properties\<close>

text \<open>
  C30. \<open>rt_memcpy\<close>, with its word-wise loops, copies the \<open>count\<close> bytes at \<open>src\<close> to \<open>dst\<close> and changes
  nothing else, whenever the regions are disjoint or the destination is the lower one.
\<close>

theorem rt_memcpy_correct:
  assumes "dst \<le> src \<or> src + count \<le> dst"
  shows "rt_memcpy dst src count m x =
    (if dst \<le> x \<and> x < dst + count then m (src + (x - dst)) else m x)"
  by (simp add: rt_memcpy_copy [OF assms] mem_copy_def)

theorem rt_memcpy_correct_witness:
  "rt_memcpy 64 8 21 (\<lambda>a. of_nat a) 84 = 28 \<and> rt_memcpy 64 8 21 (\<lambda>a. of_nat a) 85 = 85"
  using rt_memcpy_correct [of 64 8 21 "\<lambda>a. of_nat a" 84]
    rt_memcpy_correct [of 64 8 21 "\<lambda>a. of_nat a" 85] by simp

text \<open>
  C31. \<open>rt_memmove\<close> moves the bytes as if through a temporary buffer, for every overlap of the two
  regions; \<open>rt_memset\<close>, with its word-wise loops, writes the low byte of \<open>c\<close> to exactly the
  \<open>count\<close> bytes at \<open>s\<close>.
\<close>

theorem rt_memmove_memset_correct:
  "rt_memmove dest src n m = (\<lambda>x. if dest \<le> x \<and> x < dest + n then m (src + (x - dest)) else m x) \<and>
   rt_memset s c count m = (\<lambda>x. if s \<le> x \<and> x < s + count then ucast c else m x)"
  by (simp_all add: rt_memmove_copy mem_copy_def rt_memset_fill mem_fill_def)

text \<open>
  C32. On terminated strings \<open>rt_strstr\<close> returns, and it returns the first position at which the second
  string stands in the first one, or nothing when there is none.
\<close>

theorem rt_strstr_first:
  assumes "has_len s1 l1" "has_len s2 l2"
  shows "\<exists>r. rt_strstr s1 s2 = Some r \<and> (case r of
     None \<Rightarrow> \<forall>p. p + l2 \<le> l1 \<longrightarrow> \<not> occurs_at s1 s2 l2 p
   | Some q \<Rightarrow> q + l2 \<le> l1 \<and> occurs_at s1 s2 l2 q \<and> (\<forall>p<q. \<not> occurs_at s1 s2 l2 p))"
  by (rule rt_strstr_spec [OF assms])

theorem rt_strstr_first_witness:
  "\<exists>r. rt_strstr (stream_of [97, 98, 97, 98, 99]) (stream_of [97, 98, 99]) = Some r \<and> (case r of
     None \<Rightarrow> \<forall>p. p + 3 \<le> 5 \<longrightarrow> \<not> occurs_at (stream_of [97, 98, 97, 98, 99]) (stream_of [97, 98, 99]) 3 p
   | Some q \<Rightarrow> q + 3 \<le> 5 \<and> occurs_at (stream_of [97, 98, 97, 98, 99]) (stream_of [97, 98, 99]) 3 q \<and>
       (\<forall>p<q. \<not> occurs_at (stream_of [97, 98, 97, 98, 99]) (stream_of [97, 98, 99]) 3 p))"
proof (rule rt_strstr_first)
  show "has_len (stream_of [97, 98, 97, 98, 99]) 5"
    by (rule has_len_stream) simp_all
  show "has_len (stream_of [97, 98, 99]) 3"
    by (rule has_len_stream) simp_all
qed

end
