(* ===== verification/Object.thy ===== *)
theory Object
  imports Scheduler Kservice
begin

text \<open>
  The kernel objects of \<^verbatim>\<open>src/object.c\<close>: the object containers, initialisation, allocation, detaching
  and the search by name, and \<^verbatim>\<open>rt_module_self\<close> of \<^verbatim>\<open>src/module.c\<close>. The container of class \<open>c\<close> of
  module \<open>m\<close> is \<open>k_container s (m, c)\<close>; module 0 is the kernel itself (\<^verbatim>\<open>rt_object_container\<close>).

  The heap is not modelled here: an operation that allocates takes the address the heap returns
  (\<^term>\<open>None\<close> is \<^verbatim>\<open>RT_NULL\<close>) as an argument, and a release is an event of the trace.
\<close>

section \<open>Operations\<close>

fun class_num :: "rt_object_class_type \<Rightarrow> rt_uint8_t" where
  "class_num RT_Object_Class_Thread = 0"
| "class_num RT_Object_Class_Semaphore = 1"
| "class_num RT_Object_Class_Mutex = 2"
| "class_num RT_Object_Class_Event = 3"
| "class_num RT_Object_Class_MailBox = 4"
| "class_num RT_Object_Class_MessageQueue = 5"
| "class_num RT_Object_Class_MemHeap = 6"
| "class_num RT_Object_Class_MemPool = 7"
| "class_num RT_Object_Class_Device = 8"
| "class_num RT_Object_Class_Timer = 9"
| "class_num RT_Object_Class_Module = 10"
| "class_num RT_Object_Class_Unknown = 11"

abbreviation (input) RT_Object_Class_Static :: rt_uint8_t where "RT_Object_Class_Static \<equiv> 0x80"
abbreviation (input) RT_OBJECT_FLAG_MODULE :: rt_uint8_t where "RT_OBJECT_FLAG_MODULE \<equiv> 0x80"
abbreviation (input) RT_NAME_MAX :: nat where "RT_NAME_MAX \<equiv> 8"

text \<open>The entries of \<^verbatim>\<open>rt_object_container\<close>; any other index is outside the array.\<close>

definition container_classes :: "rt_object_class_type list" where
  "container_classes = [RT_Object_Class_Thread, RT_Object_Class_Semaphore, RT_Object_Class_Mutex,
     RT_Object_Class_Event, RT_Object_Class_MailBox, RT_Object_Class_MessageQueue,
     RT_Object_Class_MemHeap, RT_Object_Class_MemPool, RT_Object_Class_Device, RT_Object_Class_Timer,
     RT_Object_Class_Module]"

definition class_at :: "rt_uint8_t \<Rightarrow> rt_object_class_type option" where
  "class_at n = (if unat n < length container_classes then Some (container_classes ! unat n) else None)"

definition rt_module_self :: "kstate \<Rightarrow> nat" where
  "rt_module_self s =
     (let t = rt_thread_self s in if t = RT_NULL then 0 else obj_module (k_object s (Obj_thread t)))"

definition RT_DEBUG_NOT_IN_INTERRUPT :: "kstate \<Rightarrow> unit option" where
  "RT_DEBUG_NOT_IN_INTERRUPT s = RT_ASSERT (k_interrupt_nest s = 0)"

definition RT_DEBUG_IN_THREAD_CONTEXT :: "kstate \<Rightarrow> unit option" where
  "RT_DEBUG_IN_THREAD_CONTEXT s = do {
     RT_ASSERT (rt_thread_self s \<noteq> RT_NULL);
     RT_DEBUG_NOT_IN_INTERRUPT s
   }"

definition rt_object_get_information :: "rt_uint8_t \<Rightarrow> kstate \<Rightarrow> obj_ref list option" where
  "rt_object_get_information ty s = do { c \<leftarrow> class_at ty; Some (k_container s (0, c)) }"

definition rt_object_init :: "obj_ref \<Rightarrow> rt_object_class_type \<Rightarrow> cstr \<Rightarrow> kstate \<Rightarrow> kstate" where
  "rt_object_init ob ty name s =
     (let information = (rt_module_self s, ty);
          s = upd_object ob (\<lambda>x. x\<lparr>obj_type := class_num ty OR RT_Object_Class_Static\<rparr>) s;
          s = upd_object ob (\<lambda>x. x\<lparr>obj_name := rt_strncpy name RT_NAME_MAX\<rparr>) s;
          s = emit (Hook_attach ob) s
      in s\<lparr>k_container := qs_push_front information ob (k_container s)\<rparr>)"

definition rt_object_detach :: "obj_ref \<Rightarrow> kstate \<Rightarrow> kstate" where
  "rt_object_detach ob s =
     (let s = emit (Hook_detach ob) s
      in s\<lparr>k_container := qs_remove ob (k_container s)\<rparr>)"

definition rt_object_allocate ::
  "obj_ref option \<Rightarrow> rt_object_class_type \<Rightarrow> cstr \<Rightarrow> kstate \<Rightarrow> (obj_ref option \<times> kstate) option" where
  "rt_object_allocate mem ty name s = do {
     RT_DEBUG_NOT_IN_INTERRUPT s;
     let information =
       (if rt_module_self s \<noteq> 0 \<and> ty \<noteq> RT_Object_Class_Module then (rt_module_self s, ty) else (0, ty));
     case mem of
       None \<Rightarrow> Some (None, s)
     | Some ob \<Rightarrow>
         let m = rt_module_self s;
             s = upd_object ob (\<lambda>_. \<lparr>obj_name = rt_strncpy name RT_NAME_MAX, obj_type = class_num ty,
                   obj_flag = (if m \<noteq> 0 then RT_OBJECT_FLAG_MODULE else 0), obj_module = m\<rparr>) s;
             s = emit (Hook_attach ob) s
         in Some (Some ob, s\<lparr>k_container := qs_push_front information ob (k_container s)\<rparr>)
   }"

definition rt_object_delete :: "obj_ref \<Rightarrow> kstate \<Rightarrow> kstate option" where
  "rt_object_delete ob s = do {
     RT_ASSERT (obj_type (k_object s ob) AND RT_Object_Class_Static = 0);
     let s = emit (Hook_detach ob) s;
     let s = s\<lparr>k_container := qs_remove ob (k_container s)\<rparr>;
     Some (emit (Kernel_free ob) s)
   }"

definition rt_object_is_systemobject :: "obj_ref \<Rightarrow> kstate \<Rightarrow> bool" where
  "rt_object_is_systemobject ob s \<longleftrightarrow> obj_type (k_object s ob) AND RT_Object_Class_Static \<noteq> 0"

section \<open>Search by name\<close>

text \<open>The end of the module part of a name: the first \<^verbatim>\<open>'/'\<close> (0x2f) or the terminator.\<close>

partial_function (option) name_sep :: "cstr \<Rightarrow> nat \<Rightarrow> nat option" where
  "name_sep name i = (if name i \<noteq> 0 \<and> name i \<noteq> 0x2f then name_sep name (i + 1) else Some i)"

partial_function (option) skip_sep :: "cstr \<Rightarrow> nat \<Rightarrow> nat option" where
  "skip_sep name i = (if name i = 0x2f \<and> name i \<noteq> 0 then skip_sep name (i + 1) else Some i)"

definition name_match :: "cstr \<Rightarrow> kstate \<Rightarrow> obj_ref \<Rightarrow> bool" where
  "name_match name s ob \<longleftrightarrow> rt_strncmp (stream_of (obj_name (k_object s ob))) name RT_NAME_MAX = 0"

text \<open>
  Comparison with a module name of length \<open>len\<close>. A longer name than the buffer that agrees on all of
  it makes the code read past \<^verbatim>\<open>object->name\<close>.
\<close>

definition module_match :: "cstr \<Rightarrow> nat \<Rightarrow> kstate \<Rightarrow> obj_ref \<Rightarrow> bool option" where
  "module_match name len s ob =
     (let nm = stream_of (obj_name (k_object s ob))
      in if len \<le> RT_NAME_MAX
         then Some (rt_strncmp nm name len = 0 \<and> (len = RT_NAME_MAX \<or> nm len = 0))
         else if rt_strncmp nm name RT_NAME_MAX \<noteq> 0 then Some False else None)"

fun find_module :: "cstr \<Rightarrow> nat \<Rightarrow> kstate \<Rightarrow> obj_ref list \<Rightarrow> obj_ref option option" where
  "find_module name len s [] = Some None"
| "find_module name len s (ob # obs) = do {
     b \<leftarrow> module_match name len s ob;
     if b then Some (Some ob) else find_module name len s obs
   }"

text \<open>The loop over one container, under the scheduler lock.\<close>

definition find_in_container ::
  "cstr \<Rightarrow> nat \<Rightarrow> rt_uint8_t \<Rightarrow> kstate \<Rightarrow> (obj_ref option \<times> kstate) option" where
  "find_in_container name m ty s = do {
     let s = rt_enter_critical s;
     c \<leftarrow> class_at ty;
     let r = find (name_match name s) (k_container s (m, c));
     s \<leftarrow> rt_exit_critical s;
     Some (r, s)
   }"

definition module_id :: "obj_ref \<Rightarrow> nat" where
  "module_id ob = (case ob of Obj_module m \<Rightarrow> m | _ \<Rightarrow> 0)"

definition rt_object_find :: "cstr option \<Rightarrow> rt_uint8_t \<Rightarrow> kstate \<Rightarrow> (obj_ref option \<times> kstate) option" where
  "rt_object_find name ty s =
     (case name of
        None \<Rightarrow> Some (None, s)
      | Some name \<Rightarrow>
          if class_num RT_Object_Class_Unknown < ty then Some (None, s)
          else do {
            RT_DEBUG_NOT_IN_INTERRUPT s;
            len \<leftarrow> name_sep name 0;
            if name len = 0x2f then do {
              let s = rt_enter_critical s;
              module \<leftarrow> find_module name len s (k_container s (0, RT_Object_Class_Module));
              s \<leftarrow> rt_exit_critical s;
              case module of
                None \<Rightarrow> Some (None, s)
              | Some ob \<Rightarrow> do {
                  i \<leftarrow> skip_sep name len;
                  if name i = 0
                  then Some (if ty = class_num RT_Object_Class_Module then Some ob else None, s)
                  else find_in_container (\<lambda>k. name (i + k)) (module_id ob) ty s
                }
            }
            else find_in_container name 0 ty s
          })"

section \<open>The invariant of the containers\<close>

text \<open>
  Every object is in at most one container, once; an object in a container has a name that
  \<open>rt_strncpy\<close> stored and the type of that container, up to the static bit.
\<close>

definition stored_name :: "rt_uint8_t list \<Rightarrow> bool" where
  "stored_name l \<longleftrightarrow> (\<exists>nm. l = rt_strncpy nm RT_NAME_MAX)"

definition obj_inv :: "kstate \<Rightarrow> bool" where
  "obj_inv s \<longleftrightarrow> qs_wf (k_container s) \<and>
     (\<forall>m c. \<forall>ob \<in> set (k_container s (m, c)). stored_name (obj_name (k_object s ob)) \<and>
        obj_type (k_object s ob) AND 0x7f = class_num c)"

text \<open>A plain name: terminated and without a module part.\<close>

definition plain_name :: "cstr \<Rightarrow> bool" where
  "plain_name name \<longleftrightarrow> (\<exists>n. has_len name n \<and> (\<forall>i<n. name i \<noteq> 0x2f))"

lemma obj_invD:
  assumes "obj_inv s"
  shows "qs_wf (k_container s)"
    and "ob \<in> set (k_container s (m, c)) \<Longrightarrow> stored_name (obj_name (k_object s ob))"
    and "ob \<in> set (k_container s (m, c)) \<Longrightarrow> obj_type (k_object s ob) AND 0x7f = class_num c"
  using assms unfolding obj_inv_def by blast+

lemma stored_name_strncpy [simp]: "stored_name (rt_strncpy nm RT_NAME_MAX)"
  by (auto simp: stored_name_def)

lemma class_num_mask:
  "class_num c AND 0x7f = class_num c" "(class_num c OR RT_Object_Class_Static) AND 0x7f = class_num c"
  "class_num c AND RT_Object_Class_Static = 0" "(class_num c OR RT_Object_Class_Static) AND RT_Object_Class_Static \<noteq> 0"
  by (cases c; simp)+

lemma obj_inv_cong:
  "obj_inv s \<Longrightarrow> k_object s' = k_object s \<Longrightarrow> k_container s' = k_container s \<Longrightarrow> obj_inv s'"
  by (simp add: obj_inv_def)

lemma qs_wf_set_remove:
  "qs_wf Q \<Longrightarrow> x \<in> set (qs_remove n Q h) \<longleftrightarrow> x \<in> set (Q h) \<and> x \<noteq> n"
  by (auto simp: set_qs_remove)

lemma obj_inv_push:
  assumes inv: "obj_inv s" and f: "qs_free ob (k_container s)"
    and x: "stored_name (obj_name x)" "obj_type x AND 0x7f = class_num c"
    and s': "k_container s' = qs_push_front (m, c) ob (k_container s)"
      "k_object s' = (k_object s)(ob := x)"
  shows "obj_inv s'"
proof -
  have "qs_wf (k_container s')"
    unfolding s' using obj_invD(1) [OF inv] f by (rule qs_wf_push_front)
  moreover have "ob \<notin> set (k_container s h)" for h using f by (cases h) (simp add: qs_free_def)
  ultimately show ?thesis
    using obj_invD(2,3) [OF inv] x unfolding obj_inv_def s'
    by (auto simp: qs_push_front_def split: if_splits)
qed

lemma rt_object_init_inv:
  assumes "obj_inv s" "qs_free ob (k_container s)"
  shows "obj_inv (rt_object_init ob ty name s)"
  by (rule obj_inv_push [OF assms, where m = "rt_module_self s" and c = ty
        and x = "(k_object s ob)\<lparr>obj_type := class_num ty OR RT_Object_Class_Static,
          obj_name := rt_strncpy name RT_NAME_MAX\<rparr>"])
    (simp_all add: rt_object_init_def Let_def class_num_mask)

lemma rt_object_detach_inv: "obj_inv s \<Longrightarrow> obj_inv (rt_object_detach ob s)"
  unfolding obj_inv_def rt_object_detach_def by (auto simp: Let_def qs_wf_remove qs_wf_set_remove)

lemma rt_object_detach_free: "obj_inv s \<Longrightarrow> qs_free ob (k_container (rt_object_detach ob s))"
  by (simp add: rt_object_detach_def Let_def qs_free_remove obj_invD(1))

lemma rt_object_allocate_ok:
  assumes "obj_inv s" "k_interrupt_nest s = 0" "\<And>ob. mem = Some ob \<Longrightarrow> qs_free ob (k_container s)"
  shows "ok (rt_object_allocate mem ty name s) (\<lambda>(r, s'). r = mem \<and> obj_inv s' \<and>
    (\<forall>ob. mem = Some ob \<longrightarrow> \<not> rt_object_is_systemobject ob s'))"
proof (cases mem)
  case None
  with assms show ?thesis
    by (simp add: rt_object_allocate_def RT_DEBUG_NOT_IN_INTERRUPT_def okr Let_def)
next
  case (Some ob)
  with assms have f: "qs_free ob (k_container s)" by simp
  let ?m = "rt_module_self s"
  obtain s' where s': "rt_object_allocate mem ty name s = Some (mem, s')"
    "k_container s' =
       qs_push_front (if ?m \<noteq> 0 \<and> ty \<noteq> RT_Object_Class_Module then ?m else 0, ty) ob (k_container s)"
    "k_object s' = (k_object s)(ob := \<lparr>obj_name = rt_strncpy name RT_NAME_MAX, obj_type = class_num ty,
                   obj_flag = (if ?m \<noteq> 0 then RT_OBJECT_FLAG_MODULE else 0), obj_module = ?m\<rparr>)"
    using assms(2) Some by (auto simp: rt_object_allocate_def RT_DEBUG_NOT_IN_INTERRUPT_def Let_def)
  have "obj_inv s'"
    by (rule obj_inv_push [OF assms(1) f _ _ s'(2,3)]) (simp_all add: class_num_mask)
  then show ?thesis
    using s' Some by (simp add: okr rt_object_is_systemobject_def class_num_mask)
qed

lemma rt_object_delete_ok:
  assumes "obj_inv s" "\<not> rt_object_is_systemobject ob s"
  shows "ok (rt_object_delete ob s) (\<lambda>s'. obj_inv s' \<and> qs_free ob (k_container s') \<and>
    k_trace s' = Kernel_free ob # Hook_detach ob # k_trace s)"
  using assms unfolding obj_inv_def rt_object_delete_def rt_object_is_systemobject_def
  by (auto simp: okr Let_def qs_wf_remove qs_wf_set_remove qs_free_remove)

section \<open>Lookup\<close>

lemma class_at_class_num: "c \<noteq> RT_Object_Class_Unknown \<Longrightarrow> class_at (class_num c) = Some c"
  by (cases c) (simp_all add: class_at_def container_classes_def)

lemma class_num_le: "class_num c \<le> class_num RT_Object_Class_Unknown"
  by (cases c) simp_all

lemma name_match_stored:
  "stored_name (obj_name (k_object s ob)) \<Longrightarrow>
   name_match name s ob \<longleftrightarrow> obj_name (k_object s ob) = rt_strncpy name RT_NAME_MAX"
  by (auto simp: stored_name_def name_match_def rt_strncmp_stored)

lemma name_sep_end:
  assumes "has_len name n" "\<forall>i<n. name i \<noteq> 0x2f" "k \<le> n"
  shows "name_sep name k = Some n"
  using assms(3)
proof (induction k rule: inc_induct)
  case base
  show ?case using assms(1) by (subst name_sep.simps) (simp add: has_len_def)
next
  case (step k)
  thus ?case using assms(1,2) by (subst name_sep.simps) (simp add: has_len_def)
qed

lemma find_cong_set: "(\<And>x. x \<in> set xs \<Longrightarrow> P x = Q x) \<Longrightarrow> find P xs = find Q xs"
  by (rule find_cong) auto

lemma rt_object_find_plain:
  assumes inv: "obj_inv s" and nm: "plain_name name" and c: "c \<noteq> RT_Object_Class_Unknown"
    and n: "k_interrupt_nest s = 0"
  shows "rt_object_find (Some name) (class_num c) s =
    map_option (Pair (find (\<lambda>ob. obj_name (k_object s ob) = rt_strncpy name RT_NAME_MAX)
        (k_container s (0, c)))) (rt_exit_critical (rt_enter_critical s))"
proof -
  obtain k where k: "has_len name k" "\<forall>i<k. name i \<noteq> 0x2f" using nm by (auto simp: plain_name_def)
  have sep: "name_sep name 0 = Some k" by (rule name_sep_end [OF k]) simp
  have k0: "name k = 0" using k(1) by (simp add: has_len_def)
  have f: "find (name_match name (rt_enter_critical s)) (k_container s (0, c)) =
      find (\<lambda>ob. obj_name (k_object s ob) = rt_strncpy name RT_NAME_MAX) (k_container s (0, c))"
    by (rule find_cong_set) (use obj_invD(2) [OF inv] name_match_stored in
        \<open>auto simp: rt_enter_critical_def name_match_def stored_name_def rt_strncmp_stored\<close>)
  have e: "k_container (rt_enter_critical s) = k_container s" by (simp add: rt_enter_critical_def)
  have "\<not> class_num RT_Object_Class_Unknown < class_num c" using class_num_le [of c] by (simp add: not_less)
  then show ?thesis
    using n c
    by (cases "rt_exit_critical (rt_enter_critical s)")
      (simp_all add: rt_object_find_def RT_DEBUG_NOT_IN_INTERRUPT_def sep k0 find_in_container_def
        class_at_class_num f e Let_def)
qed


lemma plain_name_stream: "0 \<notin> set xs \<Longrightarrow> 0x2f \<notin> set xs \<Longrightarrow> plain_name (stream_of xs)"
  unfolding plain_name_def
  by (rule exI [of _ "length xs"]) (auto simp: has_len_stream stream_of_def in_set_conv_nth)

section \<open>Properties\<close>



text \<open>
  C34. \<open>rt_object_find\<close> rejects class numbers above \<open>RT_Object_Class_Unknown\<close> but not that number
  itself, which is the size of \<^verbatim>\<open>rt_object_container\<close>: a search for a plain name with this class
  reads past the array.
\<close>

theorem rt_object_find_unknown_class:
  assumes "plain_name name" "k_interrupt_nest s = 0"
  shows "rt_object_find (Some name) (class_num RT_Object_Class_Unknown) s = None \<and>
    rt_object_find (Some name) (class_num RT_Object_Class_Unknown + 1) s = Some (None, s)"
proof -
  obtain k where k: "has_len name k" "\<forall>i<k. name i \<noteq> 0x2f" using assms(1) by (auto simp: plain_name_def)
  have "name_sep name 0 = Some k" by (rule name_sep_end [OF k]) simp
  moreover have "name k = 0" using k(1) by (simp add: has_len_def)
  ultimately show ?thesis
    using assms(2) by (simp add: rt_object_find_def RT_DEBUG_NOT_IN_INTERRUPT_def find_in_container_def
        class_at_def container_classes_def)
qed

theorem rt_object_find_unknown_class_witness:
  "rt_object_find (Some (stream_of [])) (class_num RT_Object_Class_Unknown) k_reset = None \<and>
   rt_object_find (Some (stream_of [])) (class_num RT_Object_Class_Unknown + 1) k_reset = Some (None, k_reset)"
  by (rule rt_object_find_unknown_class) (simp_all add: plain_name_stream k_reset_def)

end
