(* ===== verification/Timer.thy ===== *)
theory Timer
  imports Object
begin

text \<open>
  The part of \<^verbatim>\<open>src/timer.c\<close> that does not call back into the scheduler: initialisation, removal,
  stopping and control of timers. Starting a timer and the check of the timer lists resume threads
  and are in theory Timeout. The skip list has one level (\<^verbatim>\<open>RT_TIMER_SKIP_LIST_LEVEL\<close> is 1), so
  the loops over \<^verbatim>\<open>row\<close> have one iteration. The flag of a timer is that of its object.
\<close>

section \<open>Operations\<close>

abbreviation (input) RT_TIMER_FLAG_ACTIVATED :: rt_uint8_t where "RT_TIMER_FLAG_ACTIVATED \<equiv> 0x1"
abbreviation (input) RT_TIMER_FLAG_ONE_SHOT :: rt_uint8_t where "RT_TIMER_FLAG_ONE_SHOT \<equiv> 0x0"
abbreviation (input) RT_TIMER_FLAG_PERIODIC :: rt_uint8_t where "RT_TIMER_FLAG_PERIODIC \<equiv> 0x2"
abbreviation (input) RT_TIMER_FLAG_SOFT_TIMER :: rt_uint8_t where "RT_TIMER_FLAG_SOFT_TIMER \<equiv> 0x4"

abbreviation timer_flag :: "kstate \<Rightarrow> timer_ref \<Rightarrow> rt_uint8_t" where
  "timer_flag s m \<equiv> obj_flag (k_object s (Obj_timer m))"

definition set_flag :: "rt_uint8_t \<Rightarrow> timer_ref \<Rightarrow> kstate \<Rightarrow> kstate" where
  "set_flag b m = upd_object (Obj_timer m) (\<lambda>x. x\<lparr>obj_flag := obj_flag x OR b\<rparr>)"

definition clear_flag :: "rt_uint8_t \<Rightarrow> timer_ref \<Rightarrow> kstate \<Rightarrow> kstate" where
  "clear_flag b m = upd_object (Obj_timer m) (\<lambda>x. x\<lparr>obj_flag := obj_flag x AND NOT b\<rparr>)"

text \<open>
  \<^verbatim>\<open>rt_list_init\<close> of the timer's own node does not show in the list store: the node of a timer that
  is being initialised is in no list.
\<close>

definition rt_timer_init_fields ::
  "timer_ref \<Rightarrow> timeout_func \<Rightarrow> nat \<Rightarrow> rt_tick_t \<Rightarrow> rt_uint8_t \<Rightarrow> kstate \<Rightarrow> kstate" where
  "rt_timer_init_fields m timeout parm time flag s =
     (let s = upd_object (Obj_timer m) (\<lambda>x. x\<lparr>obj_flag := flag\<rparr>) s;
          s = clear_flag RT_TIMER_FLAG_ACTIVATED m s
      in upd_timer m (\<lambda>_. \<lparr>timeout_func = timeout, tm_parameter = parm, tm_init_tick = time,
           timeout_tick = 0\<rparr>) s)"

text \<open>\<^verbatim>\<open>RT_TICK_MAX\<close> when the list is empty.\<close>

definition rt_timer_list_next_timeout :: "theads \<Rightarrow> kstate \<Rightarrow> rt_tick_t" where
  "rt_timer_list_next_timeout l s =
     (case k_timers s l of [] \<Rightarrow> 0xffffffff | m # _ \<Rightarrow> timeout_tick (k_timer s m))"

definition rt_timer_remove :: "timer_ref \<Rightarrow> kstate \<Rightarrow> kstate" where
  "rt_timer_remove m = upd_timers (qs_remove m)"

definition rt_timer_init ::
  "timer_ref \<Rightarrow> cstr \<Rightarrow> timeout_func \<Rightarrow> nat \<Rightarrow> rt_tick_t \<Rightarrow> rt_uint8_t \<Rightarrow> kstate \<Rightarrow> kstate" where
  "rt_timer_init m name timeout parm time flag s =
     rt_timer_init_fields m timeout parm time flag (rt_object_init (Obj_timer m) RT_Object_Class_Timer name s)"

definition rt_timer_detach :: "timer_ref \<Rightarrow> kstate \<Rightarrow> kstate" where
  "rt_timer_detach m s = rt_object_detach (Obj_timer m) (rt_timer_remove m s)"

definition rt_timer_create ::
  "timer_ref option \<Rightarrow> cstr \<Rightarrow> timeout_func \<Rightarrow> nat \<Rightarrow> rt_tick_t \<Rightarrow> rt_uint8_t \<Rightarrow> kstate \<Rightarrow>
     (timer_ref option \<times> kstate) option" where
  "rt_timer_create mem name timeout parm time flag s = do {
     (r, s) \<leftarrow> rt_object_allocate (map_option Obj_timer mem) RT_Object_Class_Timer name s;
     case mem of
       None \<Rightarrow> Some (None, s)
     | Some m \<Rightarrow> Some (Some m, rt_timer_init_fields m timeout parm time flag s)
   }"

definition rt_timer_delete :: "timer_ref \<Rightarrow> kstate \<Rightarrow> kstate option" where
  "rt_timer_delete m s = rt_object_delete (Obj_timer m) (rt_timer_remove m s)"

definition rt_timer_stop :: "timer_ref \<Rightarrow> kstate \<Rightarrow> rt_err_t \<times> kstate" where
  "rt_timer_stop m s =
     (if timer_flag s m AND RT_TIMER_FLAG_ACTIVATED = 0 then (- RT_ERROR, s)
      else let s = emit (Hook_put (Obj_timer m)) s;
               s = rt_timer_remove m s
           in (RT_EOK, clear_flag RT_TIMER_FLAG_ACTIVATED m s))"

text \<open>Commands 0 to 3 are set time, get time, set one-shot, set periodic; \<open>arg\<close> is the value at \<^verbatim>\<open>*arg\<close>.\<close>

definition rt_timer_control :: "timer_ref \<Rightarrow> rt_uint8_t \<Rightarrow> rt_tick_t \<Rightarrow> kstate \<Rightarrow> rt_tick_t \<times> kstate" where
  "rt_timer_control m cmd arg s =
     (if cmd = 1 then (tm_init_tick (k_timer s m), s)
      else if cmd = 0 then (arg, upd_timer m (\<lambda>x. x\<lparr>tm_init_tick := arg\<rparr>) s)
      else if cmd = 2 then (arg, clear_flag RT_TIMER_FLAG_PERIODIC m s)
      else if cmd = 3 then (arg, set_flag RT_TIMER_FLAG_PERIODIC m s)
      else (arg, s))"

definition rt_timer_next_timeout_tick :: "kstate \<Rightarrow> rt_tick_t" where
  "rt_timer_next_timeout_tick s = rt_timer_list_next_timeout Hard_list s"

definition rt_system_timer_init :: "kstate \<Rightarrow> kstate" where
  "rt_system_timer_init = upd_timers (qs_init Hard_list)"

section \<open>The invariant\<close>

text \<open>
  \<open>timer_on s m\<close>: the timer is in a list. A timer in a list is active and in the list its flag asks
  for. The timer of a thread is a one-shot hard timer that calls \<^verbatim>\<open>rt_thread_timeout\<close> on its thread,
  and it runs only while the thread is suspended.
\<close>

definition timer_on :: "kstate \<Rightarrow> timer_ref \<Rightarrow> bool" where
  "timer_on s m \<longleftrightarrow> m \<in> set (k_timers s Hard_list) \<or> m \<in> set (k_timers s Soft_list)"

definition list_of_flag :: "rt_uint8_t \<Rightarrow> theads" where
  "list_of_flag f = (if f AND RT_TIMER_FLAG_SOFT_TIMER \<noteq> 0 then Soft_list else Hard_list)"

definition thread_timer_ok :: "kstate \<Rightarrow> tid \<Rightarrow> bool" where
  "thread_timer_ok s t \<longleftrightarrow>
     timeout_func (k_timer s (Thread_timer t)) = Rt_thread_timeout \<and>
     tm_parameter (k_timer s (Thread_timer t)) = t \<and>
     timer_flag s (Thread_timer t) AND RT_TIMER_FLAG_PERIODIC = 0 \<and>
     timer_flag s (Thread_timer t) AND RT_TIMER_FLAG_SOFT_TIMER = 0"

definition timer_inv :: "kstate \<Rightarrow> bool" where
  "timer_inv s \<longleftrightarrow>
     qs_wf (k_timers s) \<and>
     (\<forall>l. \<forall>m \<in> set (k_timers s l). timer_flag s m AND RT_TIMER_FLAG_ACTIVATED \<noteq> 0 \<and>
        list_of_flag (timer_flag s m) = l) \<and>
     (\<forall>t. timer_on s (Thread_timer t) \<longrightarrow> thr_stat s t = RT_THREAD_SUSPEND) \<and>
     (\<forall>t. thr_stat s t \<in> {RT_THREAD_READY, RT_THREAD_SUSPEND} \<longrightarrow> thread_timer_ok s t)"

lemma timer_invD:
  assumes "timer_inv s"
  shows "qs_wf (k_timers s)"
    and "m \<in> set (k_timers s l) \<Longrightarrow> timer_flag s m AND RT_TIMER_FLAG_ACTIVATED \<noteq> 0"
    and "m \<in> set (k_timers s l) \<Longrightarrow> list_of_flag (timer_flag s m) = l"
    and "timer_on s (Thread_timer t) \<Longrightarrow> thr_stat s t = RT_THREAD_SUSPEND"
    and "thr_stat s t = RT_THREAD_READY \<Longrightarrow> thread_timer_ok s t"
    and "thr_stat s t = RT_THREAD_SUSPEND \<Longrightarrow> thread_timer_ok s t"
  using assms unfolding timer_inv_def by blast+

lemma timer_invI:
  assumes "qs_wf (k_timers s)"
    and "\<And>l m. m \<in> set (k_timers s l) \<Longrightarrow> timer_flag s m AND RT_TIMER_FLAG_ACTIVATED \<noteq> 0"
    and "\<And>l m. m \<in> set (k_timers s l) \<Longrightarrow> list_of_flag (timer_flag s m) = l"
    and "\<And>t. timer_on s (Thread_timer t) \<Longrightarrow> thr_stat s t = RT_THREAD_SUSPEND"
    and "\<And>t. thr_stat s t \<in> {RT_THREAD_READY, RT_THREAD_SUSPEND} \<Longrightarrow> thread_timer_ok s t"
  shows "timer_inv s"
  using assms unfolding timer_inv_def by blast

lemma timer_on_iff: "timer_on s m \<longleftrightarrow> (\<exists>l. m \<in> set (k_timers s l))"
  unfolding timer_on_def by (metis (full_types) theads.exhaust)

lemma timer_off_free: "\<not> timer_on s m \<longleftrightarrow> qs_free m (k_timers s)"
  by (auto simp: timer_on_iff qs_free_def)

text \<open>The invariant reads the timer lists, the timers, the objects and the thread states.\<close>

lemma timer_inv_cong:
  assumes "timer_inv s" "k_timers s' = k_timers s" "k_timer s' = k_timer s" "k_object s' = k_object s"
    "\<And>t. thr_stat s' t = thr_stat s t"
  shows "timer_inv s'"
  using assms unfolding timer_inv_def timer_on_def thread_timer_ok_def by simp

text \<open>A thread whose timer is off may change its state.\<close>

lemma timer_inv_stat:
  assumes inv: "timer_inv s" and off: "\<not> timer_on s (Thread_timer t)" and tok: "thread_timer_ok s t"
    and s': "k_timers s' = k_timers s" "k_timer s' = k_timer s" "k_object s' = k_object s"
      "\<And>t'. t' \<noteq> t \<Longrightarrow> thr_stat s' t' = thr_stat s t'"
  shows "timer_inv s'"
proof (rule timer_invI)
  show "thread_timer_ok s' t'" if "thr_stat s' t' \<in> {RT_THREAD_READY, RT_THREAD_SUSPEND}" for t'
    using that timer_invD(5,6) [OF inv, of t'] tok s' by (cases "t' = t") (auto simp: thread_timer_ok_def)
  show "thr_stat s' t' = RT_THREAD_SUSPEND" if "timer_on s' (Thread_timer t')" for t'
    using that timer_invD(4) [OF inv, of t'] off s' by (cases "t' = t") (auto simp: timer_on_def)
qed (use timer_invD(1,2,3) [OF inv] s' in auto)

text \<open>Taking a timer out of its list, with or without a change of its activation bit.\<close>

lemma list_of_flag_clear: "list_of_flag (f AND NOT RT_TIMER_FLAG_ACTIVATED) = list_of_flag f"
  by (simp add: list_of_flag_def flag_bits)

lemma timer_inv_remove:
  assumes inv: "timer_inv s"
    and s': "k_timers s' = qs_remove m (k_timers s)" "k_timer s' = k_timer s"
      "\<And>m'. m' \<noteq> m \<Longrightarrow> timer_flag s' m' = timer_flag s m'"
      "timer_flag s' m = timer_flag s m \<or> timer_flag s' m = timer_flag s m AND NOT RT_TIMER_FLAG_ACTIVATED"
      "\<And>t. thr_stat s' t = thr_stat s t"
  shows "timer_inv s' \<and> \<not> timer_on s' m"
proof
  have mem: "x \<in> set (k_timers s' l) \<longleftrightarrow> x \<in> set (k_timers s l) \<and> x \<noteq> m" for x l
    using timer_invD(1) [OF inv] by (auto simp: s' set_qs_remove)
  show "\<not> timer_on s' m" by (simp add: timer_on_iff mem)
  show "timer_inv s'"
  proof (rule timer_invI)
    show "qs_wf (k_timers s')" using timer_invD(1) [OF inv] by (simp add: s' qs_wf_remove)
    show "thread_timer_ok s' t" if "thr_stat s' t \<in> {RT_THREAD_READY, RT_THREAD_SUSPEND}" for t
    proof -
      from that have "thread_timer_ok s t" using timer_invD(5,6) [OF inv, of t] by (auto simp: s'(5))
      then show ?thesis
        using s'(2,3) s'(4) by (cases "Thread_timer t = m") (auto simp: thread_timer_ok_def flag_bits)
    qed
  qed (use timer_invD(2-4) [OF inv] in \<open>auto simp: mem s'(3,5) timer_on_iff\<close>)
qed

lemma rt_timer_stop_eq:
  assumes "timer_inv s"
  shows "\<exists>tr. snd (rt_timer_stop m s) = s\<lparr>k_timers := qs_remove m (k_timers s),
     k_object := (k_object s)(Obj_timer m :=
       (k_object s (Obj_timer m))\<lparr>obj_flag := timer_flag s m AND NOT RT_TIMER_FLAG_ACTIVATED\<rparr>),
     k_trace := tr\<rparr>"
proof (cases "timer_flag s m AND RT_TIMER_FLAG_ACTIVATED = 0")
  case True
  then have "\<not> timer_on s m" using timer_invD(2) [OF assms, of m] by (auto simp: timer_on_iff)
  then have r: "qs_remove m (k_timers s) = k_timers s"
    by (simp add: timer_off_free qs_remove_free)
  have "timer_flag s m AND NOT RT_TIMER_FLAG_ACTIVATED = timer_flag s m"
    using True and_not_flag_id by (simp add: flag_bits)
  then have "(k_object s (Obj_timer m))\<lparr>obj_flag := timer_flag s m AND NOT RT_TIMER_FLAG_ACTIVATED\<rparr> =
      k_object s (Obj_timer m)" by simp
  then show ?thesis
    using True by (intro exI [of _ "k_trace s"]) (simp add: rt_timer_stop_def r)
next
  case False
  then show ?thesis
    by (intro exI [of _ "Hook_put (Obj_timer m) # k_trace s"])
      (simp add: rt_timer_stop_def Let_def rt_timer_remove_def clear_flag_def)
qed

lemma rt_timer_stop_inv:
  assumes "timer_inv s"
  shows "timer_inv (snd (rt_timer_stop m s)) \<and> \<not> timer_on (snd (rt_timer_stop m s)) m"
proof -
  obtain tr where eq: "snd (rt_timer_stop m s) = s\<lparr>k_timers := qs_remove m (k_timers s),
     k_object := (k_object s)(Obj_timer m :=
       (k_object s (Obj_timer m))\<lparr>obj_flag := timer_flag s m AND NOT RT_TIMER_FLAG_ACTIVATED\<rparr>),
     k_trace := tr\<rparr>"
    using rt_timer_stop_eq [OF assms] by blast
  show ?thesis by (rule timer_inv_remove [OF assms]) (simp_all add: eq)
qed

end
