(* ===== verification/Thread.thy ===== *)
theory Thread
  imports Timer
begin

text \<open>
  The thread operations of \<^verbatim>\<open>src/thread.c\<close>, the initial stack frame of \<^verbatim>\<open>libcpu/arm/cortex-m7/cpuport.c\<close>
  and the error number of \<^verbatim>\<open>src/kservice.c\<close>. \<open>rt_thread_sleep\<close> starts a timer and is in theory
  Timeout.
\<close>

section \<open>Error number\<close>

definition rt_get_errno :: "kstate \<Rightarrow> rt_err_t" where
  "rt_get_errno s =
     (if k_interrupt_nest s \<noteq> 0 then k_errno s
      else if rt_thread_self s = RT_NULL then k_errno s
      else error (k_thread s (rt_thread_self s)))"

definition rt_set_errno :: "rt_err_t \<Rightarrow> kstate \<Rightarrow> kstate" where
  "rt_set_errno e s =
     (if k_interrupt_nest s \<noteq> 0 then s\<lparr>k_errno := e\<rparr>
      else if rt_thread_self s = RT_NULL then s\<lparr>k_errno := e\<rparr>
      else upd_thread (rt_thread_self s) (error_update (\<lambda>_. e)) s)"

section \<open>The initial stack frame\<close>

text \<open>
  The processor has an FPU (\<^verbatim>\<open>USE_FPU\<close>), so a frame is a flag word, \<^verbatim>\<open>r4\<close> to \<^verbatim>\<open>r11\<close> and the eight words
  the exception entry stacks: 17 words.
\<close>

fun store_words :: "nat \<Rightarrow> rt_uint32_t list \<Rightarrow> mem \<Rightarrow> mem" where
  "store_words a [] m = m"
| "store_words a (w # ws) m = store_words (a + 4) ws (store32 a w m)"

definition init_frame :: "rt_uint32_t \<Rightarrow> rt_uint32_t \<Rightarrow> rt_uint32_t \<Rightarrow> rt_uint32_t list" where
  "init_frame tentry parm texit =
     0 # replicate 8 0xdeadbeef @ [parm, 0, 0, 0, 0, texit, tentry, 0x01000000]"

definition rt_hw_stack_init ::
  "rt_uint32_t \<Rightarrow> rt_uint32_t \<Rightarrow> rt_uint32_t \<Rightarrow> rt_uint32_t \<Rightarrow> mem \<Rightarrow> rt_uint32_t \<times> mem" where
  "rt_hw_stack_init tentry parm addr texit m =
     (let stk = addr + 4;
          stk = RT_ALIGN_DOWN stk 8;
          stk = stk - 68
      in (stk, store_words (unat stk) (init_frame tentry parm texit) m))"

section \<open>Suspend and resume\<close>

definition rt_thread_suspend :: "tid \<Rightarrow> kstate \<Rightarrow> (rt_err_t \<times> kstate) option" where
  "rt_thread_suspend t s = do {
     RT_ASSERT (t \<noteq> RT_NULL);
     if thr_stat s t \<noteq> RT_THREAD_READY then Some (- RT_ERROR, s)
     else do {
       let s = upd_thread t (stat_update (\<lambda>_. RT_THREAD_SUSPEND)) s;
       s \<leftarrow> rt_schedule_remove_thread t s;
       let s = snd (rt_timer_stop (Thread_timer t) s);
       Some (RT_EOK, emit (Hook_suspend t) s)
     }
   }"

definition rt_thread_resume :: "tid \<Rightarrow> kstate \<Rightarrow> (rt_err_t \<times> kstate) option" where
  "rt_thread_resume t s = do {
     RT_ASSERT (t \<noteq> RT_NULL);
     if thr_stat s t \<noteq> RT_THREAD_SUSPEND then Some (- RT_ERROR, s)
     else do {
       let s = upd_tlist (qs_remove t) s;
       let s = snd (rt_timer_stop (Thread_timer t) s);
       s \<leftarrow> rt_schedule_insert_thread t s;
       Some (RT_EOK, emit (Hook_resume t) s)
     }
   }"

definition rt_thread_timeout :: "tid \<Rightarrow> kstate \<Rightarrow> kstate option" where
  "rt_thread_timeout t s = do {
     RT_ASSERT (t \<noteq> RT_NULL);
     RT_ASSERT (thr_stat s t = RT_THREAD_SUSPEND);
     let s = upd_thread t (error_update (\<lambda>_. - RT_ETIMEOUT)) s;
     let s = upd_tlist (qs_remove t) s;
     s \<leftarrow> rt_schedule_insert_thread t s;
     rt_schedule s
   }"

section \<open>Life cycle\<close>

text \<open>
  \<open>m\<close> is the memory the stack lies in; the only byte of it the kernel reads later is the one at
  \<open>stack_start\<close>. \<open>texit\<close> is the address of \<^verbatim>\<open>rt_thread_exit\<close>.
\<close>

definition rt_thread_init_fields ::
  "mem \<Rightarrow> rt_uint32_t \<Rightarrow> tid \<Rightarrow> nat \<Rightarrow> nat \<Rightarrow> rt_uint32_t \<Rightarrow> rt_uint32_t \<Rightarrow> rt_uint8_t \<Rightarrow> rt_uint32_t \<Rightarrow>
     kstate \<Rightarrow> kstate option" where
  "rt_thread_init_fields m texit t ent parm stack_start sz priority tick s = do {
     let m = rt_memset (unat stack_start) 0x23 (unat sz) m;
     let (stk, m) = rt_hw_stack_init (of_nat ent) (of_nat parm) (stack_start + sz - 4) texit m;
     RT_ASSERT (unat priority < RT_THREAD_PRIORITY_MAX);
     let s = upd_thread t (\<lambda>th. th\<lparr>entry := ent, parameter := parm, stack_addr := stack_start,
       stack_size := sz, stack_mark := m (unat stack_start), sp := stk, init_priority := priority,
       current_priority := priority, init_tick := tick, remaining_tick := tick, error := RT_EOK,
       stat := RT_THREAD_INIT, cleanup := 0, user_data := 0\<rparr>) s;
     Some (rt_timer_init (Thread_timer t) (stream_of (obj_name (k_object s (Obj_thread t))))
             Rt_thread_timeout t 0 RT_TIMER_FLAG_ONE_SHOT s)
   }"

definition rt_thread_init ::
  "mem \<Rightarrow> rt_uint32_t \<Rightarrow> tid \<Rightarrow> cstr \<Rightarrow> nat \<Rightarrow> nat \<Rightarrow> rt_uint32_t \<Rightarrow> rt_uint32_t \<Rightarrow> rt_uint8_t \<Rightarrow>
     rt_uint32_t \<Rightarrow> kstate \<Rightarrow> kstate option" where
  "rt_thread_init m texit t name ent parm stack_start sz priority tick s = do {
     RT_ASSERT (t \<noteq> RT_NULL);
     RT_ASSERT (stack_start \<noteq> 0);
     let s = rt_object_init (Obj_thread t) RT_Object_Class_Thread name s;
     rt_thread_init_fields m texit t ent parm stack_start sz priority tick s
   }"

definition rt_thread_startup :: "tid \<Rightarrow> kstate \<Rightarrow> kstate option" where
  "rt_thread_startup t s = do {
     RT_ASSERT (t \<noteq> RT_NULL);
     RT_ASSERT (thr_stat s t = RT_THREAD_INIT);
     let s = upd_thread t (\<lambda>th. th\<lparr>current_priority := init_priority th\<rparr>) s;
     let s = upd_thread t (\<lambda>th. th\<lparr>number_mask := push_bit (unat (current_priority th)) 1\<rparr>) s;
     let s = upd_thread t (stat_update (\<lambda>_. RT_THREAD_SUSPEND)) s;
     (_, s) \<leftarrow> rt_thread_resume t s;
     if rt_thread_self s \<noteq> RT_NULL then rt_schedule s else Some s
   }"

definition rt_thread_detach :: "tid \<Rightarrow> kstate \<Rightarrow> kstate option" where
  "rt_thread_detach t s = do {
     RT_ASSERT (t \<noteq> RT_NULL);
     s \<leftarrow> rt_schedule_remove_thread t s;
     let s = rt_timer_detach (Thread_timer t) s;
     let s = upd_thread t (stat_update (\<lambda>_. RT_THREAD_CLOSE)) s;
     let s = rt_object_detach (Obj_thread t) s;
     Some (if cleanup (k_thread s t) \<noteq> 0 then upd_tlist (qs_push_front Defunct t) s else s)
   }"

definition rt_thread_delete :: "tid \<Rightarrow> kstate \<Rightarrow> kstate option" where
  "rt_thread_delete t s = do {
     RT_ASSERT (t \<noteq> RT_NULL);
     s \<leftarrow> rt_schedule_remove_thread t s;
     let s = rt_timer_detach (Thread_timer t) s;
     let s = upd_thread t (stat_update (\<lambda>_. RT_THREAD_CLOSE)) s;
     Some (upd_tlist (qs_push_front Defunct t) s)
   }"

definition rt_thread_exit :: "kstate \<Rightarrow> kstate option" where
  "rt_thread_exit s = do {
     let t = k_current s;
     s \<leftarrow> rt_schedule_remove_thread t s;
     let s = upd_thread t (stat_update (\<lambda>_. RT_THREAD_CLOSE)) s;
     let s = rt_timer_detach (Thread_timer t) s;
     let s = (if rt_object_is_systemobject (Obj_thread t) s \<and> cleanup (k_thread s t) = 0
              then rt_object_detach (Obj_thread t) s
              else upd_tlist (qs_push_front Defunct t) s);
     rt_schedule s
   }"

text \<open>\<open>mem\<close> and \<open>stack\<close> are what the heap returns for the thread object and for the stack.\<close>

definition rt_thread_create ::
  "mem \<Rightarrow> rt_uint32_t \<Rightarrow> tid option \<Rightarrow> rt_uint32_t option \<Rightarrow> cstr \<Rightarrow> nat \<Rightarrow> nat \<Rightarrow> rt_uint32_t \<Rightarrow>
     rt_uint8_t \<Rightarrow> rt_uint32_t \<Rightarrow> kstate \<Rightarrow> (tid option \<times> kstate) option" where
  "rt_thread_create m texit mem stack name ent parm sz priority tick s = do {
     (_, s) \<leftarrow> rt_object_allocate (map_option Obj_thread mem) RT_Object_Class_Thread name s;
     case mem of
       None \<Rightarrow> Some (None, s)
     | Some t \<Rightarrow> (case stack of
         None \<Rightarrow> do { s \<leftarrow> rt_object_delete (Obj_thread t) s; Some (None, s) }
       | Some stack_start \<Rightarrow> do {
           s \<leftarrow> rt_thread_init_fields m texit t ent parm stack_start sz priority tick s;
           Some (Some t, s)
         })
   }"

definition rt_thread_yield :: "kstate \<Rightarrow> kstate option" where
  "rt_thread_yield s = do {
     let t = k_current s;
     if thr_stat s t = RT_THREAD_READY \<and> ready_q s (thr_prio s t) \<noteq> [t] then do {
       let s = upd_tlist (qs_remove t) s;
       let s = upd_tlist (qs_push_back (Ready (thr_prio s t)) t) s;
       rt_schedule s
     } else Some s
   }"

text \<open>
  Shifting 1 by 32 or more, and the index into the priority table, are undefined, so a priority out
  of range has no result. Commands are 0 startup, 1 close, 2 change priority.
\<close>

definition set_priority :: "rt_uint8_t \<Rightarrow> tid \<Rightarrow> kstate \<Rightarrow> kstate" where
  "set_priority p t = upd_thread t (\<lambda>th. th\<lparr>current_priority := p, number_mask := push_bit (unat p) 1\<rparr>)"

definition rt_thread_control :: "tid \<Rightarrow> rt_uint8_t \<Rightarrow> rt_uint8_t \<Rightarrow> kstate \<Rightarrow> kstate option" where
  "rt_thread_control t cmd arg s = do {
     RT_ASSERT (t \<noteq> RT_NULL);
     if cmd = 2 then
       if \<not> unat arg < RT_THREAD_PRIORITY_MAX then None
       else if thr_stat s t = RT_THREAD_READY then do {
         s \<leftarrow> rt_schedule_remove_thread t s;
         let s = set_priority arg t s;
         rt_schedule_insert_thread t s
       }
       else Some (set_priority arg t s)
     else if cmd = 0 then rt_thread_startup t s
     else if cmd = 1 then rt_thread_delete t s
     else Some s
   }"

definition rt_thread_find :: "cstr \<Rightarrow> kstate \<Rightarrow> (obj_ref option \<times> kstate) option" where
  "rt_thread_find name s = do {
     let s = (if rt_thread_self s \<noteq> RT_NULL then rt_enter_critical s else s);
     let r = find (name_match name s) (k_container s (0, RT_Object_Class_Thread));
     s \<leftarrow> (if rt_thread_self s \<noteq> RT_NULL then rt_exit_critical s else Some s);
     Some (r, s)
   }"

section \<open>The invariant of the thread system\<close>

text \<open>
  \<open>kinv\<close> joins the invariants of the scheduler and of the timers and says that the stacks of the live
  threads pass the overflow check.
\<close>

definition kinv :: "kstate \<Rightarrow> bool" where
  "kinv s \<longleftrightarrow> sched_inv s \<and> timer_inv s \<and>
     (\<forall>t. thr_stat s t \<in> {RT_THREAD_READY, RT_THREAD_SUSPEND} \<longrightarrow> t \<noteq> RT_NULL \<and> stack_ok (k_thread s t))"

text \<open>The idle thread is ready at all times, so the scheduler always finds a thread.\<close>

definition idle_ready :: "kstate \<Rightarrow> bool" where
  "idle_ready s \<longleftrightarrow> thr_stat s idle = RT_THREAD_READY"

text \<open>The fields that only change in the thread and timer lists and in what hangs on them.\<close>

definition frame :: "kstate \<Rightarrow> kstate \<Rightarrow> bool" where
  "frame s s' \<longleftrightarrow>
     s' = s\<lparr>k_thread := k_thread s', k_tlist := k_tlist s', k_ready_group := k_ready_group s',
            k_timers := k_timers s', k_object := k_object s', k_trace := k_trace s'\<rparr>"

lemma frame_refl [simp]: "frame s s"
  by (simp add: frame_def)

lemma frameD:
  assumes "frame s s'"
  shows "k_current s' = k_current s" "k_current_priority s' = k_current_priority s"
    "k_lock_nest s' = k_lock_nest s" "k_interrupt_nest s' = k_interrupt_nest s" "k_tick s' = k_tick s"
    "k_timer s' = k_timer s" "k_container s' = k_container s" "k_sem s' = k_sem s" "k_mutex s' = k_mutex s"
    "k_event s' = k_event s" "k_mb s' = k_mb s" "k_mq s' = k_mq s" "k_mp s' = k_mp s" "k_word s' = k_word s"
    "k_module s' = k_module s" "k_random_nr s' = k_random_nr s"
    "k_errno s' = k_errno s"
  by (subst assms [unfolded frame_def], simp)+

lemma frame_trans: "frame s s' \<Longrightarrow> frame s' s'' \<Longrightarrow> frame s s''"
  by (cases s; cases s'; cases s''; simp add: frame_def)

text \<open>What the operations on threads and timers leave alone.\<close>

definition kept :: "kstate \<Rightarrow> kstate \<Rightarrow> bool" where
  "kept s s' \<longleftrightarrow> k_sem s' = k_sem s \<and> k_mutex s' = k_mutex s \<and> k_event s' = k_event s \<and> k_mb s' = k_mb s \<and>
     k_mq s' = k_mq s \<and> k_mp s' = k_mp s \<and> k_word s' = k_word s \<and> k_module s' = k_module s \<and>
     k_lock_nest s' = k_lock_nest s \<and> k_interrupt_nest s' = k_interrupt_nest s \<and> k_tick s' = k_tick s \<and>
     k_container s' = k_container s \<and> k_errno s' = k_errno s \<and>
     (\<forall>ob. (\<forall>m. ob \<noteq> Obj_timer m) \<longrightarrow> k_object s' ob = k_object s ob)"

lemma kept_refl [simp]: "kept s s"
  by (simp add: kept_def)

lemma kept_trans: "kept s s' \<Longrightarrow> kept s' s'' \<Longrightarrow> kept s s''"
  by (simp add: kept_def)

lemma keptD:
  assumes "kept s s'"
  shows "k_sem s' = k_sem s" "k_mutex s' = k_mutex s" "k_event s' = k_event s" "k_mb s' = k_mb s"
    "k_mq s' = k_mq s" "k_mp s' = k_mp s" "k_word s' = k_word s" "k_module s' = k_module s"
    "k_lock_nest s' = k_lock_nest s" "k_interrupt_nest s' = k_interrupt_nest s" "k_tick s' = k_tick s"
    "k_container s' = k_container s" "k_errno s' = k_errno s"
    "(\<forall>m. ob \<noteq> Obj_timer m) \<Longrightarrow> k_object s' ob = k_object s ob"
  using assms by (simp_all add: kept_def)

lemma kept_only_switched: "only_switched s s' \<Longrightarrow> kept s s'"
  by (simp add: kept_def only_switchedD)

lemma kept_frame:
  assumes "frame s s'" "\<And>ob. (\<forall>m. ob \<noteq> Obj_timer m) \<Longrightarrow> k_object s' ob = k_object s ob"
  shows "kept s s'"
  using assms(2) by (simp add: kept_def frameD [OF assms(1)])

lemma kinvI:
  assumes "sched_inv s" "timer_inv s"
    "\<And>t. thr_stat s t = RT_THREAD_READY \<or> thr_stat s t = RT_THREAD_SUSPEND \<Longrightarrow>
      t \<noteq> RT_NULL \<and> stack_ok (k_thread s t)"
  shows "kinv s"
  using assms unfolding kinv_def by blast

lemma kinvD:
  assumes "kinv s"
  shows "sched_inv s" "timer_inv s"
    "thr_stat s t = RT_THREAD_READY \<Longrightarrow> t \<noteq> RT_NULL"
    "thr_stat s t = RT_THREAD_SUSPEND \<Longrightarrow> t \<noteq> RT_NULL"
    "thr_stat s t = RT_THREAD_READY \<Longrightarrow> stack_ok (k_thread s t)"
    "thr_stat s t = RT_THREAD_SUSPEND \<Longrightarrow> stack_ok (k_thread s t)"
  using assms unfolding kinv_def by blast+

lemma kinv_cong:
  assumes "kinv s" "k_thread s' = k_thread s" "k_tlist s' = k_tlist s" "k_ready_group s' = k_ready_group s"
    "k_timers s' = k_timers s" "k_timer s' = k_timer s" "k_object s' = k_object s"
  shows "kinv s'"
proof (rule kinvI)
  show "sched_inv s'" using kinvD(1) [OF assms(1)] by (rule sched_inv_cong) (simp_all add: assms)
  show "timer_inv s'" using kinvD(2) [OF assms(1)] by (rule timer_inv_cong) (simp_all add: assms)
qed (use kinvD(3-) [OF assms(1)] in \<open>auto simp: assms\<close>)

lemma kinv_only_switched: "kinv s \<Longrightarrow> only_switched s s' \<Longrightarrow> kinv s'"
  by (erule kinv_cong) (simp_all add: only_switchedD)

lemma idle_ready_only_switched: "only_switched s s' \<Longrightarrow> idle_ready s' = idle_ready s"
  by (simp add: idle_ready_def only_switchedD)

text \<open>The specification of a call of the scheduler.\<close>

definition switched :: "kstate \<Rightarrow> kstate \<Rightarrow> bool" where
  "switched s s' \<longleftrightarrow> only_switched s s' \<and>
     (if k_lock_nest s = 0 then \<exists>p. highest s p \<and> k_current s' = hd (ready_q s p) else s' = s)"

lemma switched_only: "switched s s' \<Longrightarrow> only_switched s s'"
  by (simp add: switched_def)

lemma idle_highest:
  assumes "kinv s" "idle_ready s"
  obtains p where "highest s p" "p \<le> thr_prio s idle"
  using highest_exists [of s "thr_prio s idle"] sched_invD(6) [OF kinvD(1) [OF assms(1)], of idle] assms(2)
  unfolding idle_ready_def by (metis list.set(1) empty_iff)

lemma schedule_ok:
  assumes "kinv s" "idle_ready s"
  shows "ok (rt_schedule s) (switched s)"
proof (cases "k_lock_nest s = 0")
  case True
  obtain p where p: "highest s p" using idle_highest [OF assms] by blast
  then have "hd (ready_q s p) \<in> set (ready_q s p)" by (simp add: highest_def)
  then have "thr_stat s (hd (ready_q s p)) = RT_THREAD_READY"
    using sched_invD(4) [OF kinvD(1) [OF assms(1)]] by fastforce
  then have "stack_ok (k_thread s (hd (ready_q s p)))" by (rule kinvD(5) [OF assms(1)])
  from rt_schedule_ok [OF kinvD(1) [OF assms(1)] p this True] show ?thesis
    by (rule ok_mono) (use True p in \<open>auto simp: switched_def\<close>)
next
  case False
  then show ?thesis by (simp add: rt_schedule_locked okr switched_def)
qed

section \<open>Suspend, resume and timeout\<close>

lemma suspend_ok:
  assumes inv: "kinv s" and t: "thr_stat s t = RT_THREAD_READY"
  shows "ok (rt_thread_suspend t s) (\<lambda>(r, s'). r = RT_EOK \<and> kinv s' \<and> frame s s' \<and>
     k_thread s' = (k_thread s)(t := (k_thread s t)\<lparr>stat := RT_THREAD_SUSPEND\<rparr>) \<and>
     k_tlist s' = qs_remove t (k_tlist s) \<and> qs_free t (k_tlist s') \<and>
     k_timers s' = qs_remove (Thread_timer t) (k_timers s) \<and> \<not> timer_on s' (Thread_timer t) \<and>
     (\<forall>ob. ob \<noteq> Obj_timer (Thread_timer t) \<longrightarrow> k_object s' ob = k_object s ob))"
proof -
  note S = kinvD(1) [OF inv] and T = kinvD(2) [OF inv]
  let ?s1 = "s\<lparr>k_thread := (k_thread s)(t := (k_thread s t)\<lparr>stat := RT_THREAD_SUSPEND\<rparr>)\<rparr>"
  have nz: "t \<noteq> RT_NULL" using t by (rule kinvD(3) [OF inv])
  have tk: "thread_ok (k_thread s t)" using t by (rule sched_invD(7) [OF S])
  have off: "\<not> timer_on s (Thread_timer t)" using timer_invD(4) [OF T, of t] t by auto
  obtain s2 where s2: "rt_schedule_remove_thread t ?s1 = Some s2" "sched_inv s2" "qs_free t (k_tlist s2)"
    "s2 = ?s1\<lparr>k_tlist := qs_remove t (k_tlist s), k_ready_group := k_ready_group s2\<rparr>"
    using remove_thread_ok [OF S nz tk _ refl, of RT_THREAD_SUSPEND] by (auto elim: okE)
  have f: "k_thread s2 = k_thread ?s1" "k_timers s2 = k_timers s" "k_timer s2 = k_timer s"
    "k_object s2 = k_object s" "k_tlist s2 = qs_remove t (k_tlist s)"
    by (subst s2(4), simp)+
  have T2: "timer_inv s2"
    by (rule timer_inv_stat [OF T off timer_invD(5) [OF T t]]) (simp_all add: f)
  obtain tr where s3: "snd (rt_timer_stop (Thread_timer t) s2) = s2\<lparr>k_timers := qs_remove (Thread_timer t) (k_timers s2),
     k_object := (k_object s2)(Obj_timer (Thread_timer t) :=
       (k_object s2 (Obj_timer (Thread_timer t)))\<lparr>obj_flag := timer_flag s2 (Thread_timer t) AND NOT RT_TIMER_FLAG_ACTIVATED\<rparr>),
     k_trace := tr\<rparr>" (is "_ = ?s3")
    using rt_timer_stop_eq [OF T2] by blast
  have T3: "timer_inv ?s3 \<and> \<not> timer_on ?s3 (Thread_timer t)"
    using rt_timer_stop_inv [OF T2, of "Thread_timer t"] by (simp add: s3)
  let ?s' = "emit (Hook_suspend t) ?s3"
  have eq: "rt_thread_suspend t s = Some (RT_EOK, ?s')"
    using nz t s2(1) s3 by (simp add: rt_thread_suspend_def Let_def)
  have "kinv ?s'"
  proof (rule kinvI)
    show "sched_inv ?s'" by (rule sched_inv_cong [OF s2(2)]) simp_all
    show "timer_inv ?s'" by (rule timer_inv_cong [OF conjunct1 [OF T3]]) simp_all
  qed (use kinvD(3-) [OF inv] t in \<open>auto simp: f stack_ok_def split: if_splits\<close>)
  moreover have "frame s ?s'" by (subst s2(4)) (simp add: frame_def)
  moreover have "\<not> timer_on ?s' (Thread_timer t)" using T3 by (simp add: timer_on_def)
  ultimately show ?thesis using s2(3) by (simp add: eq okr f)
qed

text \<open>A thread that is not ready may leave the queue it is in.\<close>

lemma sched_inv_unlink:
  assumes inv: "sched_inv s" and t: "thr_stat s t \<noteq> RT_THREAD_READY"
    and s': "k_thread s' = k_thread s" "k_tlist s' = qs_remove t (k_tlist s)" "k_ready_group s' = k_ready_group s"
  shows "sched_inv s' \<and> qs_free t (k_tlist s')"
proof
  note D = sched_invD [OF inv]
  have sr: "set (qs_remove t (k_tlist s) h) = set (k_tlist s h) - {t}" for h
    using D(1) by (rule set_qs_remove)
  have "t \<notin> set (ready_q s q)" for q using D(4) [of t "Ready q"] t by auto
  then have rq: "ready_q s' q = ready_q s q" for q by (simp add: s' qs_remove_def)
  show "qs_free t (k_tlist s')" unfolding s' using D(1) by (rule qs_free_remove)
  show "sched_inv s'"
  proof (rule sched_invI)
    show "qs_wf (k_tlist s')" unfolding s' using D(1) by (rule qs_wf_remove)
    show "t' \<noteq> RT_NULL \<and> thr_stat s' t' = head_stat h" if "t' \<in> set (k_tlist s' h)" for t' h
      using that D(3,4) [of t' h] by (auto simp: s' sr)
  qed (use D in \<open>auto simp: rq s'(1,3)\<close>)
qed

lemma make_ready_ok:
  assumes S: "sched_inv s" and T: "timer_inv s" and t: "t \<noteq> RT_NULL" "thr_stat s t \<noteq> RT_THREAD_READY"
    "thread_ok (k_thread s t)" "stack_ok (k_thread s t)" "qs_free t (k_tlist s)"
    "thread_timer_ok s t" "\<not> timer_on s (Thread_timer t)"
    and st: "\<And>t'. t' \<noteq> t \<Longrightarrow> thr_stat s t' = RT_THREAD_READY \<or> thr_stat s t' = RT_THREAD_SUSPEND \<Longrightarrow>
       t' \<noteq> RT_NULL \<and> stack_ok (k_thread s t')"
  shows "ok (rt_schedule_insert_thread t s) (\<lambda>s'. kinv s' \<and> frame s s' \<and>
     k_thread s' = (k_thread s)(t := (k_thread s t)\<lparr>stat := RT_THREAD_READY\<rparr>) \<and>
     k_tlist s' = qs_push_back (Ready (thr_prio s t)) t (k_tlist s) \<and>
     k_timers s' = k_timers s \<and> k_object s' = k_object s \<and> \<not> timer_on s' (Thread_timer t))"
proof -
  obtain s' where s': "rt_schedule_insert_thread t s = Some s'" "sched_inv s'"
    "s' = s\<lparr>k_thread := (k_thread s)(t := (k_thread s t)\<lparr>stat := RT_THREAD_READY\<rparr>),
            k_tlist := qs_push_back (Ready (thr_prio s t)) t (k_tlist s),
            k_ready_group := k_ready_group s'\<rparr>"
    using insert_thread_ok [OF S t(1,2,3,5)] by (auto elim: okE)
  have f: "k_thread s' = (k_thread s)(t := (k_thread s t)\<lparr>stat := RT_THREAD_READY\<rparr>)"
    "k_tlist s' = qs_push_back (Ready (thr_prio s t)) t (k_tlist s)"
    "k_timers s' = k_timers s" "k_timer s' = k_timer s" "k_object s' = k_object s"
    by (subst s'(3), simp)+
  have "kinv s'"
  proof (rule kinvI)
    show "timer_inv s'" by (rule timer_inv_stat [OF T t(7,6)]) (simp_all add: f)
    show "t' \<noteq> RT_NULL \<and> stack_ok (k_thread s' t')"
      if "thr_stat s' t' = RT_THREAD_READY \<or> thr_stat s' t' = RT_THREAD_SUSPEND" for t'
      using that st [of t'] t(1,4) by (cases "t' = t") (auto simp: f stack_ok_def)
  qed (rule s'(2))
  moreover have "frame s s'" by (subst s'(3)) (simp add: frame_def)
  ultimately show ?thesis using f t(7) by (simp add: s'(1) okr timer_on_def)
qed

lemma resume_ok:
  assumes inv: "kinv s" and t: "thr_stat s t = RT_THREAD_SUSPEND"
  shows "ok (rt_thread_resume t s) (\<lambda>(r, s'). r = RT_EOK \<and> kinv s' \<and> frame s s' \<and>
     k_thread s' = (k_thread s)(t := (k_thread s t)\<lparr>stat := RT_THREAD_READY\<rparr>) \<and>
     k_tlist s' = qs_push_back (Ready (thr_prio s t)) t (qs_remove t (k_tlist s)) \<and>
     k_timers s' = qs_remove (Thread_timer t) (k_timers s) \<and> \<not> timer_on s' (Thread_timer t) \<and>
     (\<forall>ob. ob \<noteq> Obj_timer (Thread_timer t) \<longrightarrow> k_object s' ob = k_object s ob))"
proof -
  note S = kinvD(1) [OF inv] and T = kinvD(2) [OF inv]
  have nz: "t \<noteq> RT_NULL" using t by (rule kinvD(4) [OF inv])
  let ?s1 = "s\<lparr>k_tlist := qs_remove t (k_tlist s)\<rparr>"
  have S1: "sched_inv ?s1 \<and> qs_free t (k_tlist ?s1)"
    by (rule sched_inv_unlink [OF S]) (simp_all add: t)
  have T1: "timer_inv ?s1" by (rule timer_inv_cong [OF T]) simp_all
  obtain tr where s2: "snd (rt_timer_stop (Thread_timer t) ?s1) = ?s1\<lparr>k_timers := qs_remove (Thread_timer t) (k_timers s),
     k_object := (k_object s)(Obj_timer (Thread_timer t) :=
       (k_object s (Obj_timer (Thread_timer t)))\<lparr>obj_flag := timer_flag s (Thread_timer t) AND NOT RT_TIMER_FLAG_ACTIVATED\<rparr>),
     k_trace := tr\<rparr>" (is "_ = ?s2")
    using rt_timer_stop_eq [OF T1, of "Thread_timer t"] by auto
  have T2: "timer_inv ?s2" "\<not> timer_on ?s2 (Thread_timer t)"
    using rt_timer_stop_inv [OF T1, of "Thread_timer t"] by (simp_all add: s2)
  have S2: "sched_inv ?s2" by (rule sched_inv_cong [OF conjunct1 [OF S1]]) simp_all
  have "thread_timer_ok ?s2 t" using timer_invD(6) [OF T2(1), of t] t by simp
  moreover have "thread_ok (k_thread ?s2 t)" "stack_ok (k_thread ?s2 t)"
    using sched_invD(8) [OF S t] kinvD(6) [OF inv t] by simp_all
  moreover have "t' \<noteq> RT_NULL \<and> stack_ok (k_thread ?s2 t')"
    if "thr_stat ?s2 t' = RT_THREAD_READY \<or> thr_stat ?s2 t' = RT_THREAD_SUSPEND" for t'
    using that kinvD(3-) [OF inv, of t'] by auto
  ultimately obtain s3 where s3: "rt_schedule_insert_thread t ?s2 = Some s3" "kinv s3" "frame ?s2 s3"
     "k_thread s3 = (k_thread s)(t := (k_thread s t)\<lparr>stat := RT_THREAD_READY\<rparr>)"
     "k_tlist s3 = qs_push_back (Ready (thr_prio s t)) t (qs_remove t (k_tlist s))"
     "k_timers s3 = k_timers ?s2" "k_object s3 = k_object ?s2" "\<not> timer_on s3 (Thread_timer t)"
    using make_ready_ok [OF S2 T2(1) nz _ _ _ _ _ T2(2)] S1 t by (auto elim: okE)
  have eq: "rt_thread_resume t s = Some (RT_EOK, emit (Hook_resume t) s3)"
    using nz t s2 s3(1) by (simp add: rt_thread_resume_def Let_def)
  have "kinv (emit (Hook_resume t) s3)" by (rule kinv_cong [OF s3(2)]) simp_all
  moreover have "frame s (emit (Hook_resume t) s3)"
    by (rule frame_trans [of s ?s2], simp add: frame_def, rule frame_trans [OF s3(3)], simp add: frame_def)
  ultimately show ?thesis using s3(4-) by (simp add: eq okr timer_on_def)
qed

lemma timeout_ok:
  assumes inv: "kinv s" and t: "thr_stat s t = RT_THREAD_SUSPEND" "\<not> timer_on s (Thread_timer t)"
    and i: "idle_ready s"
  shows "ok (rt_thread_timeout t s) (\<lambda>s'. \<exists>s1. kinv s1 \<and> frame s s1 \<and> switched s1 s' \<and> kinv s' \<and> idle_ready s' \<and>
     k_thread s1 = (k_thread s)(t := (k_thread s t)\<lparr>error := - RT_ETIMEOUT, stat := RT_THREAD_READY\<rparr>) \<and>
     k_tlist s1 = qs_push_back (Ready (thr_prio s t)) t (qs_remove t (k_tlist s)) \<and>
     k_timers s1 = k_timers s \<and> k_object s1 = k_object s)"
proof -
  note S = kinvD(1) [OF inv] and T = kinvD(2) [OF inv]
  have nz: "t \<noteq> RT_NULL" using t(1) by (rule kinvD(4) [OF inv])
  let ?s0 = "s\<lparr>k_thread := (k_thread s)(t := (k_thread s t)\<lparr>error := - RT_ETIMEOUT\<rparr>)\<rparr>"
  let ?s1 = "?s0\<lparr>k_tlist := qs_remove t (k_tlist s)\<rparr>"
  have S0: "sched_inv ?s0" by (rule sched_inv_thread_cong [OF S]) simp_all
  have S1: "sched_inv ?s1" "qs_free t (k_tlist ?s1)"
    using sched_inv_unlink [OF S0, of t ?s1] t(1) by simp_all
  have T1: "timer_inv ?s1" by (rule timer_inv_cong [OF T]) simp_all
  have tt: "thread_timer_ok ?s1 t" using timer_invD(6) [OF T1, of t] t by simp
  have off: "\<not> timer_on ?s1 (Thread_timer t)" using t(2) by (simp add: timer_on_def)
  have tok: "thread_ok (k_thread ?s1 t)" "stack_ok (k_thread ?s1 t)"
    using sched_invD(8) [OF S t(1)] kinvD(6) [OF inv t(1)] by (simp_all add: thread_ok_def stack_ok_def)
  have oth: "t' \<noteq> RT_NULL \<and> stack_ok (k_thread ?s1 t')"
    if "t' \<noteq> t" "thr_stat ?s1 t' = RT_THREAD_READY \<or> thr_stat ?s1 t' = RT_THREAD_SUSPEND" for t'
    using that kinvD(3-) [OF inv, of t'] by auto
  obtain s3 where s3: "rt_schedule_insert_thread t ?s1 = Some s3" "kinv s3" "frame ?s1 s3"
     "k_thread s3 = (k_thread s)(t := (k_thread s t)\<lparr>error := - RT_ETIMEOUT, stat := RT_THREAD_READY\<rparr>)"
     "k_tlist s3 = qs_push_back (Ready (thr_prio s t)) t (qs_remove t (k_tlist s))"
     "k_timers s3 = k_timers s" "k_object s3 = k_object s"
    using make_ready_ok [OF S1(1) T1 nz _ tok S1(2) tt off oth] t(1) by (auto elim: okE)
  have i3: "idle_ready s3" using i by (simp add: idle_ready_def s3(4))
  have fr: "frame s s3" by (rule frame_trans [OF _ s3(3)]) (simp add: frame_def)
  have eq: "rt_thread_timeout t s = rt_schedule s3"
    using nz t(1) s3(1) by (simp add: rt_thread_timeout_def Let_def)
  show ?thesis
    unfolding eq
  proof (rule ok_mono [OF schedule_ok [OF s3(2) i3]])
    fix s' assume sw: "switched s3 s'"
    then have "kinv s'" "idle_ready s'"
      using kinv_only_switched [OF s3(2)] i3 by (auto dest: switched_only simp: idle_ready_only_switched)
    with sw s3 fr show "\<exists>s1. kinv s1 \<and> frame s s1 \<and> switched s1 s' \<and> kinv s' \<and> idle_ready s' \<and>
      k_thread s1 = (k_thread s)(t := (k_thread s t)\<lparr>error := - RT_ETIMEOUT, stat := RT_THREAD_READY\<rparr>) \<and>
      k_tlist s1 = qs_push_back (Ready (thr_prio s t)) t (qs_remove t (k_tlist s)) \<and>
      k_timers s1 = k_timers s \<and> k_object s1 = k_object s"
      by (intro exI [of _ s3]) simp
  qed
qed

section \<open>Starting a thread\<close>

text \<open>A thread in no queue may be given any state but ready.\<close>

lemma sched_inv_free_upd:
  assumes inv: "sched_inv s" and t: "qs_free t (k_tlist s)" "stat th \<noteq> RT_THREAD_READY"
    "stat th = RT_THREAD_SUSPEND \<Longrightarrow> thread_ok th"
    and s': "k_thread s' = (k_thread s)(t := th)" "k_tlist s' = k_tlist s" "k_ready_group s' = k_ready_group s"
  shows "sched_inv s'"
proof -
  note D = sched_invD [OF inv]
  have nin: "t' \<in> set (k_tlist s h) \<Longrightarrow> t' \<noteq> t" for t' h using t(1) by (auto simp: qs_free_def)
  show ?thesis
  proof (rule sched_invI)
    show "t' \<noteq> RT_NULL \<and> thr_stat s' t' = head_stat h" if "t' \<in> set (k_tlist s' h)" for t' h
      using that D(3,4) [of t' h] nin by (auto simp: s')
    show "thr_prio s' t' = q" if "t' \<in> set (ready_q s' q)" for t' q
      using that D(5) [of t' q] nin by (auto simp: s')
    show "t' \<in> set (ready_q s' (thr_prio s' t'))" if "thr_stat s' t' = RT_THREAD_READY" for t'
      using that D(6) [of t'] t(2) by (cases "t' = t") (auto simp: s')
    show "thread_ok (k_thread s' t')" if "thr_stat s' t' \<in> {RT_THREAD_READY, RT_THREAD_SUSPEND}" for t'
      using that D(7,8) [of t'] t(2,3) by (cases "t' = t") (auto simp: s')
  qed (use D(1,2) in \<open>auto simp: s'\<close>)
qed

text \<open>What \<open>rt_thread_init\<close> establishes and \<open>rt_thread_startup\<close> needs.\<close>

definition startable :: "kstate \<Rightarrow> tid \<Rightarrow> bool" where
  "startable s t \<longleftrightarrow> t \<noteq> RT_NULL \<and> thr_stat s t = RT_THREAD_INIT \<and>
     unat (init_priority (k_thread s t)) < RT_THREAD_PRIORITY_MAX \<and> stack_ok (k_thread s t) \<and>
     qs_free t (k_tlist s) \<and> thread_timer_ok s t \<and> \<not> timer_on s (Thread_timer t)"

lemma startup_ok:
  assumes inv: "kinv s" and t: "startable s t" and i: "t = idle \<or> idle_ready s \<or> k_current s = RT_NULL"
  shows "ok (rt_thread_startup t s) (\<lambda>s'. kinv s' \<and> (t = idle \<or> idle_ready s \<longrightarrow> idle_ready s') \<and>
     thr_stat s' t = RT_THREAD_READY \<and>
     current_priority (k_thread s' t) = init_priority (k_thread s t) \<and>
     k_tlist s' = qs_push_back (Ready (unat (init_priority (k_thread s t)))) t (k_tlist s) \<and>
     (k_current s = RT_NULL \<longrightarrow> k_current s' = RT_NULL) \<and>
     (k_current s \<noteq> RT_NULL \<and> k_lock_nest s = 0 \<longrightarrow> (\<exists>p. highest s' p \<and> k_current s' = hd (ready_q s' p))))"
    (is "ok _ ?Q")
proof -
  note S = kinvD(1) [OF inv] and T = kinvD(2) [OF inv] and t' = t [unfolded startable_def]
  let ?th = "(k_thread s t)\<lparr>current_priority := init_priority (k_thread s t),
     number_mask := push_bit (unat (init_priority (k_thread s t))) 1, stat := RT_THREAD_SUSPEND\<rparr>"
  let ?s1 = "s\<lparr>k_thread := (k_thread s)(t := ?th)\<rparr>"
  have "kinv ?s1"
  proof (rule kinvI)
    show "sched_inv ?s1"
      by (rule sched_inv_free_upd [OF S, of t ?th]) (use t' in \<open>auto simp: thread_ok_def\<close>)
    show "timer_inv ?s1"
      by (rule timer_inv_stat [OF T, of t]) (use t' in auto)
    show "t'' \<noteq> RT_NULL \<and> stack_ok (k_thread ?s1 t'')"
      if "thr_stat ?s1 t'' = RT_THREAD_READY \<or> thr_stat ?s1 t'' = RT_THREAD_SUSPEND" for t''
      using that kinvD(3-) [OF inv, of t''] t' by (cases "t'' = t") (auto simp: stack_ok_def)
  qed
  from resume_ok [OF this, of t]
  obtain s2 where s2: "rt_thread_resume t ?s1 = Some (RT_EOK, s2)" "kinv s2" "frame ?s1 s2"
     "k_thread s2 = (k_thread ?s1)(t := ?th\<lparr>stat := RT_THREAD_READY\<rparr>)"
     "k_tlist s2 = qs_push_back (Ready (unat (init_priority (k_thread s t)))) t (qs_remove t (k_tlist s))"
    by (auto elim!: okE)
  have r: "qs_remove t (k_tlist s) = k_tlist s" using t' by (simp add: qs_remove_free)
  have c: "k_current s2 = k_current s" "k_lock_nest s2 = k_lock_nest s" using frameD [OF s2(3)] by simp_all
  have i2: "t = idle \<or> idle_ready s \<Longrightarrow> idle_ready s2" using s2(4) by (auto simp: idle_ready_def)
  have eq: "rt_thread_startup t s = (if k_current s \<noteq> RT_NULL then rt_schedule s2 else Some s2)"
    using t' s2(1) by (simp add: rt_thread_startup_def Let_def rt_thread_self_def c)
  show ?thesis
  proof (cases "k_current s = RT_NULL")
    case True
    then show ?thesis using s2 i2 r c by (simp add: eq okr)
  next
    case False
    with i have i3: "idle_ready s2" using i2 by auto
    have "?Q s'" if sw: "switched s2 s'" for s'
    proof -
      note o = only_switchedD [OF switched_only [OF sw]]
      have "kinv s'" using kinv_only_switched [OF s2(2) switched_only [OF sw]] .
      moreover have "idle_ready s'" using i3 idle_ready_only_switched [OF switched_only [OF sw]] by simp
      moreover have "k_lock_nest s = 0 \<longrightarrow> (\<exists>p. highest s' p \<and> k_current s' = hd (ready_q s' p))"
        using sw o by (auto simp: switched_def c highest_def)
      ultimately show "?Q s'" using s2(4,5) r o False by simp
    qed
    with schedule_ok [OF s2(2) i3] have "ok (rt_schedule s2) ?Q" by (rule ok_mono)
    with False show ?thesis by (simp add: eq)
  qed
qed

section \<open>Yielding the processor\<close>

lemma sched_inv_requeue:
  assumes inv: "sched_inv s" and t: "t \<in> set (ready_q s p)"
    and s': "k_thread s' = k_thread s" "k_tlist s' = qs_push_back (Ready p) t (qs_remove t (k_tlist s))"
      "k_ready_group s' = k_ready_group s"
  shows "sched_inv s'"
proof -
  note D = sched_invD [OF inv]
  have sr: "set (qs_remove t (k_tlist s) h) = set (k_tlist s h) - {t}" for h
    using D(1) by (rule set_qs_remove)
  have other: "h \<noteq> Ready p \<Longrightarrow> t \<notin> set (k_tlist s h)" for h
    using qs_wfD D(1) t unfolding qs_wf_def by blast
  have st: "set (k_tlist s' h) = set (k_tlist s h)" for h
    using t other [of h] by (auto simp: s' qs_push_back_def sr)
  have wf: "qs_wf (k_tlist s')"
    unfolding s' by (intro qs_wf_push_back qs_wf_remove qs_free_remove D(1))
  have em: "k_tlist s' h = [] \<longleftrightarrow> k_tlist s h = []" for h using st [of h] by (metis set_empty)
  show ?thesis
    by (rule sched_invI) (use D wf in \<open>auto simp: st em s'(1,3)\<close>)
qed

lemma yield_ok:
  assumes inv: "kinv s" and i: "idle_ready s" and t: "thr_stat s (k_current s) = RT_THREAD_READY"
  shows "ok (rt_thread_yield s) (\<lambda>s'. kinv s' \<and> idle_ready s' \<and> k_thread s' = k_thread s \<and>
     k_tlist s' = qs_push_back (Ready (thr_prio s (k_current s))) (k_current s)
        (qs_remove (k_current s) (k_tlist s)) \<and>
     (ready_q s (thr_prio s (k_current s)) \<noteq> [k_current s] \<and> k_lock_nest s = 0 \<longrightarrow>
        (\<exists>p. highest s' p \<and> k_current s' = hd (ready_q s' p))))"
proof -
  let ?t = "k_current s" and ?p = "thr_prio s (k_current s)"
  note S = kinvD(1) [OF inv]
  have m: "?t \<in> set (ready_q s ?p)" using sched_invD(6) [OF S t] .
  let ?s1 = "s\<lparr>k_tlist := qs_push_back (Ready ?p) ?t (qs_remove ?t (k_tlist s))\<rparr>"
  have k1: "kinv ?s1"
  proof (rule kinvI)
    show "sched_inv ?s1" by (rule sched_inv_requeue [OF S m]) simp_all
    show "timer_inv ?s1" by (rule timer_inv_cong [OF kinvD(2) [OF inv]]) simp_all
  qed (use kinvD(3-) [OF inv] in auto)
  show ?thesis
  proof (cases "ready_q s ?p = [?t]")
    case True
    have "k_tlist ?s1 = k_tlist s"
    proof
      fix h
      have "h \<noteq> Ready ?p \<Longrightarrow> ?t \<notin> set (k_tlist s h)"
        using sched_invD(1) [OF S] m unfolding qs_wf_def by blast
      then show "k_tlist ?s1 h = k_tlist s h"
        using True by (auto simp: qs_push_back_def qs_remove_def)
    qed
    then show ?thesis using True inv i by (simp add: rt_thread_yield_def Let_def okr)
  next
    case False
    have i1: "idle_ready ?s1" using i by (simp add: idle_ready_def)
    have eq: "rt_thread_yield s = rt_schedule ?s1"
      using False t by (simp add: rt_thread_yield_def Let_def)
    show ?thesis
      unfolding eq
    proof (rule ok_mono [OF schedule_ok [OF k1 i1]])
      fix s' assume sw: "switched ?s1 s'"
      note o = only_switchedD [OF switched_only [OF sw]]
      have "kinv s'" "idle_ready s'"
        using kinv_only_switched [OF k1 switched_only [OF sw]] i1
          idle_ready_only_switched [OF switched_only [OF sw]] by simp_all
      moreover have "k_lock_nest s = 0 \<longrightarrow> (\<exists>p. highest s' p \<and> k_current s' = hd (ready_q s' p))"
        using sw o by (auto simp: switched_def highest_def)
      ultimately show "kinv s' \<and> idle_ready s' \<and> k_thread s' = k_thread s \<and>
         k_tlist s' = qs_push_back (Ready ?p) ?t (qs_remove ?t (k_tlist s)) \<and>
         (ready_q s ?p \<noteq> [?t] \<and> k_lock_nest s = 0 \<longrightarrow>
          (\<exists>p. highest s' p \<and> k_current s' = hd (ready_q s' p)))"
        using o by simp
    qed
  qed
qed

section \<open>Priority changes\<close>

text \<open>The ready bitmap after a removal, as the code computes it.\<close>

definition removed_group :: "tid \<Rightarrow> kstate \<Rightarrow> rt_uint32_t" where
  "removed_group t s = (if qs_remove t (k_tlist s) (Ready (thr_prio s t)) = []
     then k_ready_group s AND NOT (number_mask (k_thread s t)) else k_ready_group s)"

lemma remove_thread_eq:
  "t \<noteq> RT_NULL \<Longrightarrow> rt_schedule_remove_thread t s =
     Some (s\<lparr>k_tlist := qs_remove t (k_tlist s), k_ready_group := removed_group t s\<rparr>)"
  by (simp add: rt_schedule_remove_thread_def removed_group_def Let_def)

text \<open>The removed thread, with any state but ready, leaves the invariant intact.\<close>

lemma removed_inv:
  assumes S: "sched_inv s" and t: "t \<noteq> RT_NULL" "thread_ok (k_thread s t)"
    and th: "stat th \<noteq> RT_THREAD_READY" "stat th = RT_THREAD_SUSPEND \<Longrightarrow> thread_ok th"
    and s': "k_thread s' = (k_thread s)(t := th)" "k_tlist s' = qs_remove t (k_tlist s)"
      "k_ready_group s' = removed_group t s"
  shows "sched_inv s' \<and> qs_free t (k_tlist s')"
proof -
  let ?s1 = "s\<lparr>k_thread := (k_thread s)(t := (k_thread s t)\<lparr>stat := RT_THREAD_CLOSE\<rparr>)\<rparr>"
  let ?s2 = "?s1\<lparr>k_tlist := qs_remove t (k_tlist s), k_ready_group := removed_group t s\<rparr>"
  have "rt_schedule_remove_thread t ?s1 = Some ?s2"
    using t(1) by (simp add: remove_thread_eq removed_group_def)
  with remove_thread_ok [OF S t, of RT_THREAD_CLOSE, OF _ refl]
  have 2: "sched_inv ?s2" "qs_free t (k_tlist ?s2)" by (auto simp: ok_Some)
  have "sched_inv s'"
    by (rule sched_inv_free_upd [OF 2, of th]) (use th in \<open>simp_all add: s'\<close>)
  with 2 show ?thesis by (simp add: s')
qed

lemma change_priority_ok:
  assumes inv: "kinv s" and t: "t \<noteq> RT_NULL" and p: "unat p < RT_THREAD_PRIORITY_MAX"
  shows "ok (rt_thread_control t 2 p s) (\<lambda>s'. kinv s' \<and> frame s s' \<and>
     k_thread s' = (k_thread s)(t := (k_thread s t)\<lparr>current_priority := p, number_mask := push_bit (unat p) 1\<rparr>) \<and>
     k_tlist s' = (if thr_stat s t = RT_THREAD_READY
       then qs_push_back (Ready (unat p)) t (qs_remove t (k_tlist s)) else k_tlist s) \<and>
     k_timers s' = k_timers s \<and> k_object s' = k_object s)"
proof (cases "thr_stat s t = RT_THREAD_READY")
  case True
  note S = kinvD(1) [OF inv] and T = kinvD(2) [OF inv]
  let ?th = "(k_thread s t)\<lparr>current_priority := p, number_mask := push_bit (unat p) 1\<rparr>"
  let ?s2 = "s\<lparr>k_tlist := qs_remove t (k_tlist s), k_ready_group := removed_group t s,
     k_thread := (k_thread s)(t := ?th)\<rparr>"
  let ?s2' = "?s2\<lparr>k_thread := (k_thread s)(t := ?th\<lparr>stat := RT_THREAD_SUSPEND\<rparr>)\<rparr>"
  have eq: "rt_thread_control t 2 p s = rt_schedule_insert_thread t ?s2'"
    using True t p by (simp add: rt_thread_control_def remove_thread_eq set_priority_def
        rt_schedule_insert_thread_def Let_def)
  have S2: "sched_inv ?s2'" "qs_free t (k_tlist ?s2')"
    using removed_inv [OF S t sched_invD(7) [OF S True], of "?th\<lparr>stat := RT_THREAD_SUSPEND\<rparr>" ?s2'] p
    by (simp_all add: thread_ok_def)
  have off: "\<not> timer_on s (Thread_timer t)" using timer_invD(4) [OF T, of t] True by auto
  have T2: "timer_inv ?s2'"
    by (rule timer_inv_stat [OF T off timer_invD(5) [OF T True]]) simp_all
  have "ok (rt_schedule_insert_thread t ?s2') (\<lambda>s'. kinv s' \<and> frame ?s2' s' \<and>
     k_thread s' = (k_thread ?s2')(t := (k_thread ?s2' t)\<lparr>stat := RT_THREAD_READY\<rparr>) \<and>
     k_tlist s' = qs_push_back (Ready (thr_prio ?s2' t)) t (k_tlist ?s2') \<and>
     k_timers s' = k_timers ?s2' \<and> k_object s' = k_object ?s2' \<and> \<not> timer_on s' (Thread_timer t))"
    by (rule make_ready_ok [OF S2(1) T2 t _ _ _ S2(2)])
      (use timer_invD(5) [OF T True] off p kinvD(3-) [OF inv] True
        in \<open>auto simp: thread_ok_def stack_ok_def thread_timer_ok_def timer_on_def split: if_splits\<close>)
  then show ?thesis
    unfolding eq
  proof (rule ok_mono, elim conjE)
    fix s' assume "kinv s'" "frame ?s2' s'"
      and 1: "k_thread s' = (k_thread ?s2')(t := (k_thread ?s2' t)\<lparr>stat := RT_THREAD_READY\<rparr>)"
      and 2: "k_tlist s' = qs_push_back (Ready (thr_prio ?s2' t)) t (k_tlist ?s2')"
        "k_timers s' = k_timers ?s2'" "k_object s' = k_object ?s2'"
    moreover have "k_thread s' = (k_thread s)(t := ?th)"
      using True by (cases "k_thread s t") (simp add: 1)
    moreover have "frame s s'"
      by (rule frame_trans [OF _ \<open>frame ?s2' s'\<close>]) (simp add: frame_def)
    ultimately show "kinv s' \<and> frame s s' \<and> k_thread s' = (k_thread s)(t := ?th) \<and>
       k_tlist s' = (if thr_stat s t = RT_THREAD_READY
         then qs_push_back (Ready (unat p)) t (qs_remove t (k_tlist s)) else k_tlist s) \<and>
       k_timers s' = k_timers s \<and> k_object s' = k_object s"
      using True by simp
  qed
next
  case False
  note S = kinvD(1) [OF inv] and T = kinvD(2) [OF inv]
  let ?th = "(k_thread s t)\<lparr>current_priority := p, number_mask := push_bit (unat p) 1\<rparr>"
  let ?s1 = "s\<lparr>k_thread := (k_thread s)(t := ?th)\<rparr>"
  have "kinv ?s1"
  proof (rule kinvI)
    show "sched_inv ?s1"
    proof (rule sched_invI)
      show "thr_prio ?s1 t' = q" if "t' \<in> set (ready_q ?s1 q)" for t' q
        using that sched_invD(4) [OF S, of t' "Ready q"] sched_invD(5) [OF S, of t' q] False by auto
      show "thread_ok (k_thread ?s1 t')" if "thr_stat ?s1 t' \<in> {RT_THREAD_READY, RT_THREAD_SUSPEND}" for t'
        using that sched_invD(7,8) [OF S, of t'] p by (cases "t' = t") (auto simp: thread_ok_def)
      show "t' \<noteq> RT_NULL \<and> thr_stat ?s1 t' = head_stat h" if "t' \<in> set (k_tlist ?s1 h)" for t' h
        using that sched_invD(3,4) [OF S, of t' h] by auto
      show "t' \<in> set (ready_q ?s1 (thr_prio ?s1 t'))" if "thr_stat ?s1 t' = RT_THREAD_READY" for t'
        using that sched_invD(6) [OF S, of t'] False by (cases "t' = t") auto
    qed (use sched_invD(1,2) [OF S] in simp_all)
    show "timer_inv ?s1" by (rule timer_inv_cong [OF T]) simp_all
  qed (use kinvD(3-) [OF inv] in \<open>auto simp: stack_ok_def split: if_splits\<close>)
  then show ?thesis
    using False t p by (simp add: rt_thread_control_def set_priority_def okr Let_def frame_def)
qed

section \<open>Ending a thread\<close>

text \<open>
  The state that \<open>rt_thread_delete\<close>, \<open>rt_thread_detach\<close> and \<open>rt_thread_exit\<close> have in common: out of the
  queues, timer detached, closed.
\<close>

definition closed_state :: "tid \<Rightarrow> kstate \<Rightarrow> kstate" where
  "closed_state t s = rt_timer_detach (Thread_timer t)
     (s\<lparr>k_tlist := qs_remove t (k_tlist s), k_ready_group := removed_group t s,
        k_thread := (k_thread s)(t := (k_thread s t)\<lparr>stat := RT_THREAD_CLOSE\<rparr>)\<rparr>)"

lemma closed_state_sel [simp]:
  "k_tlist (closed_state t s) = qs_remove t (k_tlist s)"
  "k_ready_group (closed_state t s) = removed_group t s"
  "k_thread (closed_state t s) = (k_thread s)(t := (k_thread s t)\<lparr>stat := RT_THREAD_CLOSE\<rparr>)"
  "k_timers (closed_state t s) = qs_remove (Thread_timer t) (k_timers s)"
  "k_timer (closed_state t s) = k_timer s" "k_object (closed_state t s) = k_object s"
  "k_container (closed_state t s) = qs_remove (Obj_timer (Thread_timer t)) (k_container s)"
  "k_lock_nest (closed_state t s) = k_lock_nest s" "k_current (closed_state t s) = k_current s"
  by (simp_all add: closed_state_def rt_timer_detach_def rt_timer_remove_def rt_object_detach_def Let_def)

lemma closed_state_inv:
  assumes inv: "kinv s" and t: "thr_stat s t \<in> {RT_THREAD_READY, RT_THREAD_SUSPEND}"
  shows "kinv (closed_state t s) \<and> qs_free t (k_tlist (closed_state t s)) \<and>
    \<not> timer_on (closed_state t s) (Thread_timer t)"
proof -
  note S = kinvD(1) [OF inv] and T = kinvD(2) [OF inv]
  let ?s = "closed_state t s" and ?s1 = "s\<lparr>k_timers := qs_remove (Thread_timer t) (k_timers s)\<rparr>"
  have nz: "t \<noteq> RT_NULL" and tk: "thread_ok (k_thread s t)" and tt: "thread_timer_ok s t"
    using t kinvD(3,4) [OF inv, of t] sched_invD(7,8) [OF S, of t] timer_invD(5,6) [OF T, of t] by auto
  have S': "sched_inv ?s" "qs_free t (k_tlist ?s)"
    using removed_inv [OF S nz tk, of "(k_thread s t)\<lparr>stat := RT_THREAD_CLOSE\<rparr>" ?s] by simp_all
  have T1: "timer_inv ?s1 \<and> \<not> timer_on ?s1 (Thread_timer t)"
    by (rule timer_inv_remove [OF T, of _ "Thread_timer t"]) simp_all
  have "thread_timer_ok ?s1 t" using tt by (simp add: thread_timer_ok_def)
  then have T': "timer_inv ?s"
    using T1 timer_inv_stat [of ?s1 t ?s] by simp
  moreover have "\<not> timer_on ?s (Thread_timer t)" using T1 by (simp add: timer_on_def)
  moreover have "kinv ?s"
    by (rule kinvI [OF S'(1) T']) (use kinvD(3-) [OF inv] in \<open>auto split: if_splits\<close>)
  ultimately show ?thesis using S'(2) by blast
qed

lemma defunct_inv:
  assumes inv: "kinv s" and t: "thr_stat s t = RT_THREAD_CLOSE" "t \<noteq> RT_NULL" "qs_free t (k_tlist s)"
  shows "kinv (s\<lparr>k_tlist := qs_push_front Defunct t (k_tlist s)\<rparr>)"
proof (rule kinvI)
  note S = kinvD(1) [OF inv]
  let ?s = "s\<lparr>k_tlist := qs_push_front Defunct t (k_tlist s)\<rparr>"
  show "sched_inv ?s"
  proof (rule sched_invI)
    show "qs_wf (k_tlist ?s)" using sched_invD(1) [OF S] t(3) by (simp add: qs_wf_push_front)
  qed (use sched_invD [OF S] t in \<open>auto simp: qs_push_front_def split: if_splits\<close>)
  show "timer_inv ?s" by (rule timer_inv_cong [OF kinvD(2) [OF inv]]) simp_all
qed (use kinvD(3-) [OF inv] in auto)

lemma delete_ok:
  assumes inv: "kinv s" and t: "thr_stat s t \<in> {RT_THREAD_READY, RT_THREAD_SUSPEND}"
  shows "ok (rt_thread_delete t s) (\<lambda>s'. kinv s' \<and> thr_stat s' t = RT_THREAD_CLOSE \<and>
    k_tlist s' = qs_push_front Defunct t (qs_remove t (k_tlist s)) \<and> \<not> timer_on s' (Thread_timer t) \<and>
    (\<forall>t'. t' \<noteq> t \<longrightarrow> k_thread s' t' = k_thread s t'))"
proof -
  have nz: "t \<noteq> RT_NULL" using t kinvD(3,4) [OF inv, of t] by auto
  note C = closed_state_inv [OF inv t]
  have eq: "rt_thread_delete t s = Some (upd_tlist (qs_push_front Defunct t) (closed_state t s))"
    using nz by (simp add: rt_thread_delete_def remove_thread_eq closed_state_def Let_def
        rt_timer_detach_def rt_timer_remove_def rt_object_detach_def)
  have "kinv (upd_tlist (qs_push_front Defunct t) (closed_state t s))"
    using defunct_inv [of "closed_state t s" t] C nz by simp
  with C show ?thesis by (simp add: eq okr timer_on_def)
qed

lemma detach_ok:
  assumes inv: "kinv s" and t: "thr_stat s t \<in> {RT_THREAD_READY, RT_THREAD_SUSPEND}"
  shows "ok (rt_thread_detach t s) (\<lambda>s'. kinv s' \<and> thr_stat s' t = RT_THREAD_CLOSE \<and>
    k_tlist s' = (if cleanup (k_thread s t) \<noteq> 0 then qs_push_front Defunct t (qs_remove t (k_tlist s))
      else qs_remove t (k_tlist s)) \<and> \<not> timer_on s' (Thread_timer t) \<and>
    k_container s' = qs_remove (Obj_thread t) (qs_remove (Obj_timer (Thread_timer t)) (k_container s)) \<and>
    (\<forall>t'. t' \<noteq> t \<longrightarrow> k_thread s' t' = k_thread s t'))"
proof -
  have nz: "t \<noteq> RT_NULL" using t kinvD(3,4) [OF inv, of t] by auto
  note C = closed_state_inv [OF inv t]
  let ?s = "rt_object_detach (Obj_thread t) (closed_state t s)"
  have eq: "rt_thread_detach t s =
      Some (if cleanup (k_thread s t) \<noteq> 0 then upd_tlist (qs_push_front Defunct t) ?s else ?s)"
    using nz by (simp add: rt_thread_detach_def remove_thread_eq closed_state_def Let_def
        rt_timer_detach_def rt_timer_remove_def rt_object_detach_def)
  have f: "k_tlist ?s = qs_remove t (k_tlist s)" "k_thread ?s = k_thread (closed_state t s)"
    "k_timers ?s = k_timers (closed_state t s)"
    "k_container ?s = qs_remove (Obj_thread t) (k_container (closed_state t s))"
    by (simp_all add: rt_object_detach_def Let_def)
  have k: "kinv ?s" by (rule kinv_cong [of "closed_state t s"]) (simp_all add: C rt_object_detach_def Let_def)
  have "kinv (upd_tlist (qs_push_front Defunct t) ?s)"
    using defunct_inv [of ?s t] C nz k by (simp add: f)
  with C k show ?thesis by (simp add: eq okr timer_on_def f)
qed

lemma exit_ok:
  assumes inv: "kinv s" and i: "idle_ready s" "k_current s \<noteq> idle"
    and t: "thr_stat s (k_current s) \<in> {RT_THREAD_READY, RT_THREAD_SUSPEND}"
  shows "ok (rt_thread_exit s) (\<lambda>s'. kinv s' \<and> idle_ready s' \<and> thr_stat s' (k_current s) = RT_THREAD_CLOSE \<and>
    (k_lock_nest s = 0 \<longrightarrow> k_current s' \<noteq> k_current s \<and> (\<exists>p. highest s' p \<and> k_current s' = hd (ready_q s' p))))"
    (is "ok _ ?Q")
proof -
  let ?t = "k_current s"
  have nz: "?t \<noteq> RT_NULL" using t kinvD(3,4) [OF inv, of ?t] by auto
  note C = closed_state_inv [OF inv t]
  let ?c = "closed_state ?t s"
  define s1 where "s1 = (if rt_object_is_systemobject (Obj_thread ?t) ?c \<and> cleanup (k_thread s ?t) = 0
      then rt_object_detach (Obj_thread ?t) ?c else upd_tlist (qs_push_front Defunct ?t) ?c)"
  have "kinv s1"
  proof (cases "rt_object_is_systemobject (Obj_thread ?t) ?c \<and> cleanup (k_thread s ?t) = 0")
    case True
    show ?thesis by (rule kinv_cong [of ?c]) (use True in \<open>simp_all add: C s1_def rt_object_detach_def Let_def\<close>)
  next
    case False
    then have "s1 = upd_tlist (qs_push_front Defunct ?t) ?c"
      unfolding s1_def by (rule if_not_P)
    then show ?thesis using defunct_inv [of ?c ?t] C nz by simp
  qed
  moreover have th: "k_thread s1 = k_thread ?c" and l: "k_lock_nest s1 = k_lock_nest s"
    by (simp_all add: s1_def rt_object_detach_def Let_def)
  moreover have i1: "idle_ready s1" using i by (simp add: idle_ready_def th)
  ultimately have so: "ok (rt_schedule s1) (switched s1)" and k1: "kinv s1" by (simp_all add: schedule_ok)
  have eq: "rt_thread_exit s = rt_schedule s1"
    using nz by (simp add: rt_thread_exit_def remove_thread_eq closed_state_def Let_def
        rt_timer_detach_def rt_timer_remove_def rt_object_detach_def s1_def rt_object_is_systemobject_def)
  have "?Q s'" if sw: "switched s1 s'" for s'
  proof -
    note o = only_switchedD [OF switched_only [OF sw]]
    have k: "kinv s'" using kinv_only_switched [OF k1 switched_only [OF sw]] .
    moreover have "idle_ready s'" using i1 idle_ready_only_switched [OF switched_only [OF sw]] by simp
    moreover have st: "thr_stat s' ?t = RT_THREAD_CLOSE" using o by (simp add: th)
    moreover have "k_current s' \<noteq> ?t \<and> (\<exists>p. highest s' p \<and> k_current s' = hd (ready_q s' p))"
      if l0: "k_lock_nest s = 0"
    proof -
      obtain p where p: "highest s' p" "k_current s' = hd (ready_q s' p)"
        using sw o l0 by (auto simp: switched_def highest_def l)
      then have "k_current s' \<in> set (ready_q s' p)" by (simp add: highest_def)
      then have "thr_stat s' (k_current s') = RT_THREAD_READY"
        using sched_invD(4) [OF kinvD(1) [OF k]] by fastforce
      with st p show ?thesis by auto
    qed
    ultimately show ?thesis by blast
  qed
  then show ?thesis unfolding eq by (rule ok_mono [OF so])
qed

section \<open>Initialising a thread\<close>

lemma RT_ALIGN_DOWN_8:
  "unat (RT_ALIGN_DOWN x 8) \<le> unat x" "unat x \<le> unat (RT_ALIGN_DOWN x 8) + 7"
proof -
  have "(x AND NOT 7) + (x AND 7) = (x AND NOT 7) OR (x AND 7)"
    by (rule disjunctive_add) (auto simp: bit_simps)
  also have "\<dots> = x" by (rule bit_word_eqI) (auto simp: bit_simps)
  finally have e: "(x AND NOT 7) + (x AND 7) = x" .
  have "x AND 7 = take_bit 3 x" by (simp add: take_bit_eq_mask mask_eq_exp_minus_1)
  then have l: "unat (x AND 7) < 8" by (simp add: unsigned_take_bit_eq take_bit_eq_mod unat_mod)
  have "(x AND NOT 7) \<le> x" by (rule word_and_le2)
  then have le: "unat (x AND NOT 7) \<le> unat x" by (simp add: word_le_nat_alt)
  have "x AND 7 = x - (x AND NOT 7)" using e by (metis add_diff_cancel_left')
  then have "unat (x AND 7) = unat x - unat (x AND NOT 7)" using \<open>(x AND NOT 7) \<le> x\<close> by (simp add: unat_sub)
  with l le show "unat (RT_ALIGN_DOWN x 8) \<le> unat x" "unat x \<le> unat (RT_ALIGN_DOWN x 8) + 7"
    by (simp_all add: RT_ALIGN_DOWN_def)
qed

lemma store_words_below: "x < a \<Longrightarrow> store_words a ws m x = m x"
  by (induction a ws m rule: store_words.induct) (simp_all add: store32_def)

text \<open>The frame is inside the stack and leaves the mark byte alone.\<close>

lemma rt_hw_stack_init_bounds:
  assumes r: "rt_hw_stack_init e p (start + sz - 4) x m = (stk, m')"
    and b: "unat start + unat sz < 2 ^ 32" "76 \<le> unat sz"
  shows "unat start < unat stk" "unat stk + 68 \<le> unat start + unat sz" "m' (unat start) = m (unat start)"
proof -
  let ?a = "RT_ALIGN_DOWN (start + sz) 8"
  have u: "unat (start + sz) = unat start + unat sz" using b(1) by (simp add: unat_word_ariths)
  have k: "stk = ?a - 68" using r by (auto simp: rt_hw_stack_init_def Let_def)
  note A = RT_ALIGN_DOWN_8 [of "start + sz", unfolded u]
  have "68 \<le> ?a" using A b(2) by (simp add: word_le_nat_alt)
  then have v: "unat stk = unat ?a - 68" by (simp add: k unat_sub)
  show s: "unat start < unat stk" and "unat stk + 68 \<le> unat start + unat sz"
    using A v b(2) by simp_all
  show "m' (unat start) = m (unat start)"
    using r s by (auto simp: rt_hw_stack_init_def Let_def store_words_below)
qed

lemma thread_init_ok:
  assumes inv: "kinv s" and t: "t \<noteq> RT_NULL" "thr_stat s t \<notin> {RT_THREAD_READY, RT_THREAD_SUSPEND}"
      "qs_free t (k_tlist s)" "\<not> timer_on s (Thread_timer t)"
    and a: "start \<noteq> 0" "unat start + unat sz < 2 ^ 32" "76 \<le> unat sz" "unat prio < RT_THREAD_PRIORITY_MAX"
  shows "ok (rt_thread_init m texit t name ent parm start sz prio tick s) (\<lambda>s'. kinv s' \<and> startable s' t \<and>
     (\<forall>t'. t' \<noteq> t \<longrightarrow> k_thread s' t' = k_thread s t') \<and> k_tlist s' = k_tlist s \<and>
     init_priority (k_thread s' t) = prio \<and> k_current s' = k_current s \<and> k_lock_nest s' = k_lock_nest s)"
proof -
  obtain stk m' where r: "rt_hw_stack_init (of_nat ent) (of_nat parm) (start + sz - 4) texit
      (rt_memset (unat start) 0x23 (unat sz) m) = (stk, m')" by fastforce
  note B = rt_hw_stack_init_bounds [OF r a(2,3)]
  define th where "th = (k_thread s t)\<lparr>entry := ent, parameter := parm, stack_addr := start,
       stack_size := sz, stack_mark := m' (unat start), sp := stk, init_priority := prio,
       current_priority := prio, init_tick := tick, remaining_tick := tick, error := RT_EOK,
       stat := RT_THREAD_INIT, cleanup := 0, user_data := 0\<rparr>"
  have stk: "stack_ok th"
    using B a(2,3) by (simp add: stack_ok_def th_def rt_memset_fill mem_fill_def word_less_nat_alt
        word_le_nat_alt unat_word_ariths)
  have "\<exists>s'. rt_thread_init m texit t name ent parm start sz prio tick s = Some s' \<and>
     k_thread s' = (k_thread s)(t := th) \<and> k_tlist s' = k_tlist s \<and> k_ready_group s' = k_ready_group s \<and>
     k_timers s' = k_timers s \<and> k_current s' = k_current s \<and> k_lock_nest s' = k_lock_nest s \<and>
     k_timer s' = (k_timer s)(Thread_timer t := \<lparr>timeout_func = Rt_thread_timeout, tm_parameter = t,
       tm_init_tick = 0, timeout_tick = 0\<rparr>) \<and>
     timer_flag s' (Thread_timer t) = 0 \<and>
     (\<forall>n. n \<noteq> Thread_timer t \<longrightarrow> timer_flag s' n = timer_flag s n)"
    using t(1) a(1,4) r by (simp add: rt_thread_init_def rt_thread_init_fields_def rt_object_init_def
        rt_timer_init_def rt_timer_init_fields_def clear_flag_def Let_def th_def)
  then obtain s' where s': "rt_thread_init m texit t name ent parm start sz prio tick s = Some s'"
    and f: "k_thread s' = (k_thread s)(t := th)" "k_tlist s' = k_tlist s" "k_ready_group s' = k_ready_group s"
     "k_timers s' = k_timers s" "k_current s' = k_current s" "k_lock_nest s' = k_lock_nest s"
     "k_timer s' = (k_timer s)(Thread_timer t := \<lparr>timeout_func = Rt_thread_timeout, tm_parameter = t,
       tm_init_tick = 0, timeout_tick = 0\<rparr>)"
     "timer_flag s' (Thread_timer t) = 0"
     "\<And>n. n \<noteq> Thread_timer t \<Longrightarrow> timer_flag s' n = timer_flag s n" by blast
  have st: "stat th = RT_THREAD_INIT" by (simp add: th_def)
  have off: "\<not> timer_on s' (Thread_timer t)" using t(4) by (simp add: timer_on_def f)
  have "sched_inv s'"
    by (rule sched_inv_free_upd [OF kinvD(1) [OF inv] t(3) _ _ f(1-3)]) (simp_all add: st)
  moreover have "timer_inv s'"
  proof (rule timer_invI)
    note T = timer_invD [OF kinvD(2) [OF inv]]
    have ne: "n \<noteq> Thread_timer t" if "n \<in> set (k_timers s l)" for n l
      using that t(4) by (auto simp: timer_on_iff)
    show "timer_flag s' n AND RT_TIMER_FLAG_ACTIVATED \<noteq> 0" "list_of_flag (timer_flag s' n) = l"
      if "n \<in> set (k_timers s' l)" for n l
      using that T(2,3) [of n l] ne [of n l] f(9) [of n] by (simp_all add: f(4))
    show "thr_stat s' t' = RT_THREAD_SUSPEND" if "timer_on s' (Thread_timer t')" for t'
      using that T(4) [of t'] t(4) f(1,4) by (cases "t' = t") (auto simp: timer_on_def)
    show "thread_timer_ok s' t'" if "thr_stat s' t' \<in> {RT_THREAD_READY, RT_THREAD_SUSPEND}" for t'
      using that T(5,6) [of t'] f(1) st f(9) [of "Thread_timer t'"]
      by (cases "t' = t") (auto simp: thread_timer_ok_def f(7))
  qed (use timer_invD(1) [OF kinvD(2) [OF inv]] f(4) in simp)
  ultimately have "kinv s'"
    by (rule kinvI) (use kinvD(3-) [OF inv] st in \<open>auto simp: f(1) split: if_splits\<close>)
  moreover have "startable s' t"
    using t a(4) stk off by (simp add: startable_def f th_def thread_timer_ok_def)
  ultimately show ?thesis by (simp add: s' okr f th_def)
qed

section \<open>An example state\<close>

text \<open>
  A small running system: the idle thread (1), the timer thread (2, suspended), the current thread 3 and
  thread 4 at priority 5, and thread 5 waiting for semaphore 1.
\<close>

definition demo_thread :: "rt_uint8_t \<Rightarrow> thread_stat \<Rightarrow> rt_thread" where
  "demo_thread p st = zero_thread\<lparr>sp := 0x1100, stack_addr := 0x1000, stack_size := 0x200, stack_mark := 0x23,
     stat := st, current_priority := p, init_priority := p, number_mask := push_bit (unat p) 1,
     init_tick := 10, remaining_tick := 10\<rparr>"

definition demo :: kstate where
  "demo = k_reset\<lparr>
     k_thread := (\<lambda>_. zero_thread)(1 := demo_thread 31 RT_THREAD_READY, 2 := demo_thread 0 RT_THREAD_SUSPEND,
       3 := demo_thread 5 RT_THREAD_READY, 4 := demo_thread 5 RT_THREAD_READY, 5 := demo_thread 7 RT_THREAD_SUSPEND),
     k_tlist := (\<lambda>_. [])(Ready 31 := [1], Ready 5 := [3, 4], Suspend (Obj_sem 1) := [5]),
     k_ready_group := 0x80000020,
     k_current := 3, k_current_priority := 5, k_tick := 100,
     k_timer := (\<lambda>m. case m of Thread_timer t \<Rightarrow> \<lparr>timeout_func = Rt_thread_timeout, tm_parameter = t,
       tm_init_tick = 0, timeout_tick = 0\<rparr> | Timer _ \<Rightarrow> zero_timer)\<rparr>"

lemma demo_sel [simp]:
  "k_thread demo = (\<lambda>_. zero_thread)(1 := demo_thread 31 RT_THREAD_READY, 2 := demo_thread 0 RT_THREAD_SUSPEND,
       3 := demo_thread 5 RT_THREAD_READY, 4 := demo_thread 5 RT_THREAD_READY, 5 := demo_thread 7 RT_THREAD_SUSPEND)"
  "k_tlist demo = (\<lambda>_. [])(Ready 31 := [1], Ready 5 := [3, 4], Suspend (Obj_sem 1) := [5])"
  "k_ready_group demo = 0x80000020" "k_current demo = 3" "k_lock_nest demo = 0" "k_interrupt_nest demo = 0"
  "k_tick demo = 100" "k_timers demo = (\<lambda>_. [])" "k_container demo = (\<lambda>_. [])" "k_object demo = k_object k_reset"
  "k_sem demo = k_sem k_reset" "k_mutex demo = k_mutex k_reset" "k_event demo = k_event k_reset"
  "k_mb demo = k_mb k_reset" "k_mq demo = k_mq k_reset"
  by (simp_all add: demo_def k_reset_def)

lemma demo_thread_sel [simp]:
  "stat (demo_thread p st) = st" "current_priority (demo_thread p st) = p"
  "init_priority (demo_thread p st) = p" "stack_ok (demo_thread p st)"
  "unat p < 32 \<Longrightarrow> thread_ok (demo_thread p st)" "cleanup (demo_thread p st) = 0"
  "number_mask (demo_thread p st) = push_bit (unat p) 1" "error (demo_thread p st) = 0"
  by (simp_all add: demo_thread_def zero_thread_def stack_ok_def thread_ok_def)

lemma zero_thread_stat [simp]: "stat zero_thread = RT_THREAD_INIT"
  by (simp add: zero_thread_def)

lemma demo_group:
  assumes "p < 32"
  shows "bit (0x80000020 :: rt_uint32_t) p \<longleftrightarrow> p = 5 \<or> p = 31"
proof -
  have "(0x80000020 :: rt_uint32_t) = push_bit 31 1 OR push_bit 5 1" by (simp add: push_bit_eq_mult)
  then show ?thesis using assms by (simp only: bit_or_iff bit_push_bit_1) auto
qed

lemma demo_kinv: "kinv demo"
proof (rule kinvI)
  show "sched_inv demo"
  proof (rule sched_invI)
    show "qs_wf (k_tlist demo)" by (auto simp: qs_wf_def)
    show "bit (k_ready_group demo) p \<longleftrightarrow> ready_q demo p \<noteq> []" if "p < 32" for p
      using demo_group [OF that] by auto
  qed (auto split: if_splits)
  show "timer_inv demo"
    by (rule timer_invI) (auto simp: timer_on_def thread_timer_ok_def demo_def k_reset_def qs_wf_def split: if_splits)
qed (auto split: if_splits)

lemma demo_idle: "idle_ready demo"
  by (simp add: idle_ready_def idle_def)

section \<open>Properties\<close>



text \<open>
  C27. Initialising and starting a thread with a stack of at least 76 bytes succeeds, keeps the
  invariant, and puts the thread at the end of the ready queue of its priority; with the scheduler
  running and unlocked, the current thread afterwards is the most urgent one.
\<close>

theorem rt_thread_init_startup:
  assumes "kinv s" "idle_ready s" "t \<noteq> RT_NULL" "thr_stat s t \<notin> {RT_THREAD_READY, RT_THREAD_SUSPEND}"
      "qs_free t (k_tlist s)" "\<not> timer_on s (Thread_timer t)"
      "start \<noteq> 0" "unat start + unat sz < 2 ^ 32" "76 \<le> unat sz" "unat prio < RT_THREAD_PRIORITY_MAX"
  shows "ok (do { s1 \<leftarrow> rt_thread_init m texit t name ent parm start sz prio tick s; rt_thread_startup t s1 })
    (\<lambda>s'. kinv s' \<and> idle_ready s' \<and> thr_stat s' t = RT_THREAD_READY \<and>
      k_tlist s' = qs_push_back (Ready (unat prio)) t (k_tlist s) \<and>
      (k_current s \<noteq> RT_NULL \<and> k_lock_nest s = 0 \<longrightarrow>
        (\<exists>p. highest s' p \<and> k_current s' = hd (ready_q s' p))))"
proof -
  have "t \<noteq> idle" using assms(2,4) by (auto simp: idle_ready_def)
  from thread_init_ok [OF assms(1,3-10), where m = m and texit = texit and name = name and ent = ent
      and parm = parm and tick = tick]
  obtain s1 where s1: "rt_thread_init m texit t name ent parm start sz prio tick s = Some s1"
    "kinv s1" "startable s1 t" "\<And>t'. t' \<noteq> t \<Longrightarrow> k_thread s1 t' = k_thread s t'" "k_tlist s1 = k_tlist s"
    "init_priority (k_thread s1 t) = prio" "k_current s1 = k_current s" "k_lock_nest s1 = k_lock_nest s"
    by (auto elim!: okE)
  have i: "idle_ready s1" using assms(2) s1(4) [of idle] \<open>t \<noteq> idle\<close> by (simp add: idle_ready_def)
  have "ok (rt_thread_startup t s1) (\<lambda>s'. kinv s' \<and> idle_ready s' \<and> thr_stat s' t = RT_THREAD_READY \<and>
      k_tlist s' = qs_push_back (Ready (unat prio)) t (k_tlist s) \<and>
      (k_current s \<noteq> RT_NULL \<and> k_lock_nest s = 0 \<longrightarrow>
        (\<exists>p. highest s' p \<and> k_current s' = hd (ready_q s' p))))"
    by (rule ok_mono [OF startup_ok [OF s1(2,3)]]) (use i s1(5-) in auto)
  then show ?thesis by (simp add: s1(1))
qed

theorem rt_thread_init_startup_witness:
  "ok (do { s1 \<leftarrow> rt_thread_init (\<lambda>_. 0) 0x400 9 (stream_of [116]) 7 0 0x20001000 512 3 10 demo; rt_thread_startup 9 s1 })
    (\<lambda>s'. kinv s' \<and> idle_ready s' \<and> thr_stat s' 9 = RT_THREAD_READY \<and>
      k_tlist s' = qs_push_back (Ready (unat (3 :: rt_uint8_t))) 9 (k_tlist demo) \<and>
      (k_current demo \<noteq> RT_NULL \<and> k_lock_nest demo = 0 \<longrightarrow>
        (\<exists>p. highest s' p \<and> k_current s' = hd (ready_q s' p))))"
  by (rule rt_thread_init_startup [OF demo_kinv demo_idle]) (simp_all add: qs_free_def timer_on_def)

text \<open>
  C28. A ready thread that is suspended and resumed passes through a consistent suspended state in
  which the scheduler cannot see it, and comes back, otherwise unchanged, behind the other ready
  threads of its priority.
\<close>

theorem rt_thread_suspend_resume:
  assumes "kinv s" "thr_stat s t = RT_THREAD_READY"
  shows "ok (do { (r1, s1) \<leftarrow> rt_thread_suspend t s; (r2, s2) \<leftarrow> rt_thread_resume t s1; Some (r1, s1, r2, s2) })
    (\<lambda>(r1, s1, r2, s2). r1 = RT_EOK \<and> kinv s1 \<and> thr_stat s1 t = RT_THREAD_SUSPEND \<and>
       (\<forall>p. t \<notin> set (ready_q s1 p)) \<and> r2 = RT_EOK \<and> kinv s2 \<and> k_thread s2 = k_thread s \<and>
       k_tlist s2 = qs_push_back (Ready (thr_prio s t)) t (qs_remove t (k_tlist s)))"
proof -
  obtain s1 where s1: "rt_thread_suspend t s = Some (RT_EOK, s1)" "kinv s1"
    "k_thread s1 = (k_thread s)(t := (k_thread s t)\<lparr>stat := RT_THREAD_SUSPEND\<rparr>)"
    "k_tlist s1 = qs_remove t (k_tlist s)" "qs_free t (k_tlist s1)"
    using suspend_ok [OF assms] by (auto elim!: okE)
  from resume_ok [OF s1(2), of t]
  obtain s2 where s2: "rt_thread_resume t s1 = Some (RT_EOK, s2)" "kinv s2"
    "k_thread s2 = (k_thread s1)(t := (k_thread s1 t)\<lparr>stat := RT_THREAD_READY\<rparr>)"
    "k_tlist s2 = qs_push_back (Ready (thr_prio s1 t)) t (qs_remove t (k_tlist s1))"
    by (auto simp: s1(3) elim!: okE)
  have "k_thread s2 = k_thread s" using assms(2)
    by (cases "k_thread s t") (auto simp: s2(3) s1(3) fun_eq_iff)
  moreover have "qs_remove t (qs_remove t (k_tlist s)) = qs_remove t (k_tlist s)"
    using qs_remove_free [OF s1(5)] by (simp add: s1(4))
  ultimately show ?thesis using s1 s2 by (simp add: okr qs_free_def)
qed

theorem rt_thread_suspend_resume_witness:
  "ok (do { (r1, s1) \<leftarrow> rt_thread_suspend 3 demo; (r2, s2) \<leftarrow> rt_thread_resume 3 s1; Some (r1, s1, r2, s2) })
    (\<lambda>(r1, s1, r2, s2). r1 = RT_EOK \<and> kinv s1 \<and> thr_stat s1 3 = RT_THREAD_SUSPEND \<and>
       (\<forall>p. 3 \<notin> set (ready_q s1 p)) \<and> r2 = RT_EOK \<and> kinv s2 \<and> k_thread s2 = k_thread demo \<and>
       k_tlist s2 = qs_push_back (Ready (thr_prio demo 3)) 3 (qs_remove 3 (k_tlist demo)))"
  by (rule rt_thread_suspend_resume [OF demo_kinv]) simp

text \<open>
  C29. \<open>rt_thread_yield\<close> implements round robin: the calling thread goes to the end of the ready queue of
  its priority, the order of all other threads is kept, and with the scheduler unlocked the current
  thread afterwards is the first one of the most urgent queue.
\<close>

theorem rt_thread_yield_round_robin:
  assumes "kinv s" "idle_ready s" "thr_stat s (k_current s) = RT_THREAD_READY"
  shows "ok (rt_thread_yield s) (\<lambda>s'. kinv s' \<and> idle_ready s' \<and> k_thread s' = k_thread s \<and>
     k_tlist s' = qs_push_back (Ready (thr_prio s (k_current s))) (k_current s)
        (qs_remove (k_current s) (k_tlist s)) \<and>
     (ready_q s (thr_prio s (k_current s)) \<noteq> [k_current s] \<and> k_lock_nest s = 0 \<longrightarrow>
        (\<exists>p. highest s' p \<and> k_current s' = hd (ready_q s' p))))"
  by (rule yield_ok [OF assms])

theorem rt_thread_yield_round_robin_witness:
  "ok (rt_thread_yield demo) (\<lambda>s'. kinv s' \<and> idle_ready s' \<and> k_thread s' = k_thread demo \<and>
     k_tlist s' = qs_push_back (Ready (thr_prio demo (k_current demo))) (k_current demo)
        (qs_remove (k_current demo) (k_tlist demo)) \<and>
     (ready_q demo (thr_prio demo (k_current demo)) \<noteq> [k_current demo] \<and> k_lock_nest demo = 0 \<longrightarrow>
        (\<exists>p. highest s' p \<and> k_current s' = hd (ready_q s' p))))"
  by (rule rt_thread_yield_round_robin [OF demo_kinv demo_idle]) simp

text \<open>
  \<open>rt_thread_delete\<close> of a thread that was never started uses the thread's \<^verbatim>\<open>number_mask\<close>, which
  \<^verbatim>\<open>_rt_thread_init\<close> does not set. If that memory holds the mask of another priority with ready
  threads, and no ready thread has the priority of the deleted one, the bitmap loses the bit of
  those threads and the scheduler no longer sees them.
\<close>

theorem rt_thread_delete_unstarted:
  assumes "kinv s" "t \<noteq> RT_NULL" "thr_stat s t = RT_THREAD_INIT" "ready_q s (thr_prio s t) = []"
    "q < RT_THREAD_PRIORITY_MAX" "ready_q s q \<noteq> []" "number_mask (k_thread s t) = push_bit q 1"
  shows "\<exists>s'. rt_thread_delete t s = Some s' \<and> ready_q s' q \<noteq> [] \<and> \<not> bit (k_ready_group s') q \<and> \<not> sched_inv s'"
proof -
  note S = kinvD(1) [OF assms(1)]
  let ?s1 = "s\<lparr>k_tlist := qs_remove t (k_tlist s), k_ready_group := removed_group t s\<rparr>"
  obtain s' where s': "rt_thread_delete t s = Some s'" "k_ready_group s' = removed_group t s"
    "k_tlist s' = qs_push_front Defunct t (qs_remove t (k_tlist s))"
    using assms(2) by (auto simp: rt_thread_delete_def remove_thread_eq Let_def rt_timer_detach_def
        rt_timer_remove_def rt_object_detach_def)
  have "t \<notin> set (ready_q s p)" for p using sched_invD(4) [OF S, of t "Ready p"] assms(3) by auto
  then have r: "ready_q s' p = ready_q s p" for p by (simp add: s' qs_push_front_def qs_remove_def)
  have g: "\<not> bit (k_ready_group s') q"
    using assms(4,5,7) by (simp add: s' removed_group_def qs_remove_def bit_simps)
  then have "\<not> sched_inv s'"
    using sched_invD(2) [of s' q] assms(5,6) by (auto simp: r)
  moreover have "ready_q s' q \<noteq> []" using assms(6) by (simp only: r simp_thms)
  ultimately show ?thesis using s'(1) g by blast
qed

theorem rt_thread_delete_unstarted_witness:
  "\<exists>s'. rt_thread_delete 9 (demo\<lparr>k_thread := (k_thread demo)(9 := zero_thread\<lparr>number_mask := 0x20\<rparr>)\<rparr>) = Some s' \<and>
     ready_q s' 5 \<noteq> [] \<and> \<not> bit (k_ready_group s') 5 \<and> \<not> sched_inv s'"
proof (rule rt_thread_delete_unstarted)
  let ?s = "demo\<lparr>k_thread := (k_thread demo)(9 := zero_thread\<lparr>number_mask := 0x20\<rparr>)\<rparr>"
  show "kinv ?s"
  proof (rule kinvI)
    show "sched_inv ?s"
      by (rule sched_inv_free_upd [OF kinvD(1) [OF demo_kinv], of 9 "zero_thread\<lparr>number_mask := 0x20\<rparr>"])
        (auto simp: qs_free_def)
    show "timer_inv ?s"
      by (rule timer_inv_cong [OF kinvD(2) [OF demo_kinv]]) simp_all
  qed (use kinvD(3-) [OF demo_kinv] in \<open>auto split: if_splits\<close>)
qed (simp_all add: zero_thread_def)

end
