(* ===== verification/Timeout.thy ===== *)
theory Timeout
  imports Thread "HOL-Library.Sublist"
begin

text \<open>
  The part of \<^verbatim>\<open>src/timer.c\<close> that acts on threads (\<open>rt_timer_start\<close>, the check of the hard and of the
  soft timer list, the timer thread), \<open>rt_thread_sleep\<close> of \<^verbatim>\<open>src/thread.c\<close> and the clock of \<^verbatim>\<open>src/clock.c\<close>.

  The timeout function of a timer is \<^verbatim>\<open>rt_thread_timeout\<close> or a function of the application. The latter
  is a parameter \<open>cb\<close> of the operations: \<open>cb f p s\<close> is the effect of function \<open>f\<close> called with
  parameter \<open>p\<close>.

  A call that gives up the processor in the middle is split there: \<open>rt_thread_sleep\<close> is the code up to
  its call of the scheduler, \<open>rt_thread_sleep_resume\<close> the rest, which runs when the thread is
  scheduled again.
\<close>

section \<open>Starting a timer\<close>

text \<open>
  The loop that looks for the place of a timer with timeout \<open>new\<close>: it passes over timers that expire
  at the same time or, in the wrap-around order, earlier.
\<close>

fun timer_insert :: "(timer_ref \<Rightarrow> rt_tick_t) \<Rightarrow> rt_tick_t \<Rightarrow> timer_ref \<Rightarrow> timer_ref list \<Rightarrow> timer_ref list" where
  "timer_insert tt new m [] = [m]"
| "timer_insert tt new m (t # ts) =
     (if tt t - new = 0 then t # timer_insert tt new m ts
      else if tt t - new < RT_TICK_HALF then m # t # ts
      else t # timer_insert tt new m ts)"

definition rt_timer_start :: "timer_ref \<Rightarrow> kstate \<Rightarrow> kstate option" where
  "rt_timer_start m s = do {
     let s = rt_timer_remove m s;
     let s = clear_flag RT_TIMER_FLAG_ACTIVATED m s;
     let s = emit (Hook_take (Obj_timer m)) s;
     RT_ASSERT (tm_init_tick (k_timer s m) < RT_TICK_HALF);
     let s = upd_timer m (\<lambda>x. x\<lparr>timeout_tick := k_tick s + tm_init_tick x\<rparr>) s;
     let l = list_of_flag (timer_flag s m);
     let new = timeout_tick (k_timer s m);
     let s = s\<lparr>k_random_nr := k_random_nr s + 1\<rparr>;
     let s = upd_timers (\<lambda>q. q(l := timer_insert (\<lambda>t. timeout_tick (k_timer s t)) new m (q l))) s;
     let s = set_flag RT_TIMER_FLAG_ACTIVATED m s;
     if timer_flag s m AND RT_TIMER_FLAG_SOFT_TIMER \<noteq> 0 \<and> thr_stat s timer_thread \<noteq> RT_THREAD_READY
     then do {
       (_, s) \<leftarrow> rt_thread_resume timer_thread s;
       rt_schedule s
     }
     else Some s
   }"

section \<open>The timer check\<close>

definition due :: "rt_tick_t \<Rightarrow> kstate \<Rightarrow> timer_ref \<Rightarrow> bool" where
  "due tick s m \<longleftrightarrow> tick - timeout_tick (k_timer s m) < RT_TICK_HALF"

type_synonym callback = "nat \<Rightarrow> nat \<Rightarrow> kstate \<Rightarrow> kstate option"

definition call_timeout :: "callback \<Rightarrow> timer_ref \<Rightarrow> kstate \<Rightarrow> kstate option" where
  "call_timeout cb m s =
     (let f = timeout_func (k_timer s m); p = tm_parameter (k_timer s m);
          s = emit (Call_timeout f p) s
      in case f of Rt_thread_timeout \<Rightarrow> rt_thread_timeout p s | User_timeout g \<Rightarrow> cb g p s)"

text \<open>What follows the timeout function: a periodic timer is started again.\<close>

definition rearm :: "timer_ref \<Rightarrow> kstate \<Rightarrow> kstate option" where
  "rearm m s =
     (if timer_flag s m AND RT_TIMER_FLAG_PERIODIC \<noteq> 0 \<and> timer_flag s m AND RT_TIMER_FLAG_ACTIVATED \<noteq> 0
      then rt_timer_start m (clear_flag RT_TIMER_FLAG_ACTIVATED m s)
      else Some (clear_flag RT_TIMER_FLAG_ACTIVATED m s))"

partial_function (option) timer_check_loop :: "callback \<Rightarrow> rt_tick_t \<Rightarrow> kstate \<Rightarrow> kstate option" where
  "timer_check_loop cb current_tick s =
     (case k_timers s Hard_list of
        [] \<Rightarrow> Some s
      | t # _ \<Rightarrow>
          if due current_tick s t then do {
            let s = emit (Hook_timeout t) s;
            let s = rt_timer_remove t s;
            s \<leftarrow> call_timeout cb t s;
            let current_tick = k_tick s;
            s \<leftarrow> rearm t s;
            timer_check_loop cb current_tick s
          } else Some s)"

definition rt_timer_check :: "callback \<Rightarrow> kstate \<Rightarrow> kstate option" where
  "rt_timer_check cb s = timer_check_loop cb (k_tick s) s"

section \<open>Soft timers\<close>

text \<open>
  The node after \<open>n\<close>, with \<^term>\<open>None\<close> for the head of the soft list. A node that was taken out of its
  list points to itself; one that is now in the other list leads nowhere sensible.
\<close>

fun next_in :: "timer_ref \<Rightarrow> timer_ref list \<Rightarrow> timer_ref option" where
  "next_in n [] = None"
| "next_in n (x # xs) = (if x = n then (case xs of [] \<Rightarrow> None | y # _ \<Rightarrow> Some y) else next_in n xs)"

definition soft_next :: "timer_ref \<Rightarrow> kstate \<Rightarrow> timer_ref option option" where
  "soft_next n s =
     (if n \<in> set (k_timers s Soft_list) then Some (next_in n (k_timers s Soft_list))
      else if n \<in> set (k_timers s Hard_list) then None
      else Some (Some n))"

text \<open>
  While the timeout function runs the scheduler is unlocked: \<open>cb\<close> is the effect of that function and
  of whatever else runs until the scheduler is locked again.
\<close>

partial_function (option) soft_check_loop ::
  "callback \<Rightarrow> rt_tick_t \<Rightarrow> timer_ref option \<Rightarrow> kstate \<Rightarrow> kstate option" where
  "soft_check_loop cb current_tick n s =
     (case n of
        None \<Rightarrow> Some s
      | Some t \<Rightarrow>
          if due current_tick s t then do {
            let s = emit (Hook_timeout t) s;
            n \<leftarrow> soft_next t s;
            let s = rt_timer_remove t s;
            s \<leftarrow> rt_exit_critical s;
            s \<leftarrow> call_timeout cb t s;
            let current_tick = k_tick s;
            let s = rt_enter_critical s;
            s \<leftarrow> rearm t s;
            soft_check_loop cb current_tick n s
          } else Some s)"

definition rt_soft_timer_check :: "callback \<Rightarrow> kstate \<Rightarrow> kstate option" where
  "rt_soft_timer_check cb s = do {
     let current_tick = k_tick s;
     let s = rt_enter_critical s;
     s \<leftarrow> soft_check_loop cb current_tick
            (case k_timers s Soft_list of [] \<Rightarrow> None | t # _ \<Rightarrow> Some t) s;
     rt_exit_critical s
   }"

section \<open>Sleeping\<close>

definition rt_thread_sleep :: "rt_tick_t \<Rightarrow> kstate \<Rightarrow> kstate option" where
  "rt_thread_sleep tick s = do {
     let t = k_current s;
     RT_ASSERT (t \<noteq> RT_NULL);
     (_, s) \<leftarrow> rt_thread_suspend t s;
     let s = snd (rt_timer_control (Thread_timer t) 0 tick s);
     s \<leftarrow> rt_timer_start (Thread_timer t) s;
     rt_schedule s
   }"

definition rt_thread_sleep_resume :: "tid \<Rightarrow> kstate \<Rightarrow> kstate" where
  "rt_thread_sleep_resume t s =
     (if error (k_thread s t) = - RT_ETIMEOUT then upd_thread t (error_update (\<lambda>_. RT_EOK)) s else s)"

definition rt_thread_delay :: "rt_tick_t \<Rightarrow> kstate \<Rightarrow> kstate option" where
  "rt_thread_delay tick s = rt_thread_sleep tick s"

text \<open>
  One round of the timer thread, up to the point where it blocks (or goes on to the check at once
  because the next timer is overdue).
\<close>

definition rt_thread_timer_entry_wait :: "kstate \<Rightarrow> kstate option" where
  "rt_thread_timer_entry_wait s =
     (let next_timeout = rt_timer_list_next_timeout Soft_list s
      in if next_timeout = 0xffffffff then do {
           (_, s) \<leftarrow> rt_thread_suspend (rt_thread_self s) s;
           rt_schedule s
         }
         else if next_timeout - k_tick s < RT_TICK_HALF
         then rt_thread_delay (next_timeout - k_tick s) s
         else Some s)"

section \<open>The clock\<close>

definition rt_tick_get :: "kstate \<Rightarrow> rt_tick_t" where
  "rt_tick_get s = k_tick s"

definition rt_tick_set :: "rt_tick_t \<Rightarrow> kstate \<Rightarrow> kstate" where
  "rt_tick_set tick s = s\<lparr>k_tick := tick\<rparr>"

text \<open>The current thread is dereferenced, so there has to be one.\<close>

definition rt_tick_increase :: "callback \<Rightarrow> kstate \<Rightarrow> kstate option" where
  "rt_tick_increase cb s = do {
     let s = s\<lparr>k_tick := k_tick s + 1\<rparr>;
     let t = rt_thread_self s;
     if t = RT_NULL then None
     else do {
       let s = upd_thread t (\<lambda>th. th\<lparr>remaining_tick := remaining_tick th - 1\<rparr>) s;
       s \<leftarrow> (if remaining_tick (k_thread s t) = 0
              then rt_thread_yield (upd_thread t (\<lambda>th. th\<lparr>remaining_tick := init_tick th\<rparr>) s)
              else Some s);
       rt_timer_check cb s
     }
   }"

definition rt_tick_from_millisecond :: "rt_uint32_t \<Rightarrow> rt_tick_t" where
  "rt_tick_from_millisecond ms = (1000 * ms + 999) div 1000"

section \<open>The timer thread\<close>

definition rt_system_timer_thread_init :: "mem \<Rightarrow> rt_uint32_t \<Rightarrow> nat \<Rightarrow> rt_uint32_t \<Rightarrow> kstate \<Rightarrow> kstate option" where
  "rt_system_timer_thread_init m texit ent stack s = do {
     let s = upd_timers (qs_init Soft_list) s;
     s \<leftarrow> rt_thread_init m texit timer_thread (stream_of [0x74, 0x69, 0x6d, 0x65, 0x72]) ent 0 stack 512 4 10 s;
     rt_thread_startup timer_thread s
   }"

section \<open>The place of a new timer\<close>

text \<open>The timers the loop passes over.\<close>

definition passes :: "(timer_ref \<Rightarrow> rt_tick_t) \<Rightarrow> rt_tick_t \<Rightarrow> timer_ref \<Rightarrow> bool" where
  "passes tt new t \<longleftrightarrow> tt t - new = 0 \<or> \<not> tt t - new < RT_TICK_HALF"

lemma timer_insert_split:
  "timer_insert tt new m ts = takeWhile (passes tt new) ts @ m # dropWhile (passes tt new) ts"
  by (induction ts) (auto simp: passes_def)

lemma set_timer_insert [simp]: "set (timer_insert tt new m ts) = insert m (set ts)"
  by (induction ts) auto

lemma distinct_timer_insert: "distinct ts \<Longrightarrow> m \<notin> set ts \<Longrightarrow> distinct (timer_insert tt new m ts)"
  by (induction ts) auto

lemma timer_insert_cong:
  "(\<And>t. t \<in> set ts \<Longrightarrow> tt t = tt' t) \<Longrightarrow> timer_insert tt new m ts = timer_insert tt' new m ts"
  by (induction ts) auto

text \<open>The time left, as a signed number: the wrap-around order of the code.\<close>

definition left :: "kstate \<Rightarrow> timer_ref \<Rightarrow> int" where
  "left s m = sint (timeout_tick (k_timer s m) - k_tick s)"

lemma uint_diff_sint:
  fixes a b c :: rt_tick_t
  shows "uint (a - b) = (sint (a - c) - sint (b - c)) mod 2 ^ 32"
proof -
  have "a - b = (a - c) - (b - c)" by simp
  also have "\<dots> = word_of_int (sint (a - c) - sint (b - c))" by simp
  finally have e: "a - b = word_of_int (sint (a - c) - sint (b - c))" .
  have w: "uint (word_of_int z :: rt_tick_t) = z mod 2 ^ 32" for z
    by (simp add: uint_word_of_int)
  show ?thesis by (subst e, rule w)
qed

lemma sint_bounds: "- (2 ^ 31) \<le> sint (w :: rt_tick_t)" "sint (w :: rt_tick_t) < 2 ^ 31"
  using sint_ge [of w] sint_lt [of w] by simp_all

text \<open>
  Within the window of half the tick range the loop passes over exactly the timers that have at most
  as much time left.
\<close>

lemma passes_left:
  assumes "tt t - c = x" "new - c = y" "- 1 \<le> sint x" "sint x < 2 ^ 31 - 1" "0 \<le> sint y" "sint y < 2 ^ 31 - 1"
  shows "passes tt new t \<longleftrightarrow> sint x \<le> sint y"
proof -
  have u: "uint (tt t - new) = (sint x - sint y) mod 2 ^ 32"
    using uint_diff_sint [of "tt t" new c] assms(1,2) by simp
  have z: "tt t - new = 0 \<longleftrightarrow> uint (tt t - new) = 0" by (simp add: word_uint_eq_iff)
  have l: "tt t - new < RT_TICK_HALF \<longleftrightarrow> uint (tt t - new) < 0x7fffffff" by (simp add: word_less_def)
  show ?thesis
  proof (cases "sint x \<le> sint y")
    case True
    have "(sint x - sint y) mod 2 ^ 32 = (if sint x = sint y then 0 else sint x - sint y + 2 ^ 32)"
    proof (cases "sint x = sint y")
      case False
      have "(sint x - sint y + 2 ^ 32) mod 2 ^ 32 = sint x - sint y + 2 ^ 32"
        using True False assms(3-) by (intro mod_pos_pos_trivial) auto
      with False show ?thesis by simp
    qed simp
    then show ?thesis unfolding passes_def z l u using True assms(3-) by auto
  next
    case False
    then have "(sint x - sint y) mod 2 ^ 32 = sint x - sint y"
      using assms by (intro mod_pos_pos_trivial) auto
    then show ?thesis unfolding passes_def z l u using False assms(3-) by auto
  qed
qed

section \<open>Starting a hard timer\<close>

text \<open>The state after \<open>rt_timer_start\<close> of a hard timer, as one update.\<close>

definition start_state :: "timer_ref \<Rightarrow> kstate \<Rightarrow> kstate" where
  "start_state m s =
     (let new = k_tick s + tm_init_tick (k_timer s m); q = qs_remove m (k_timers s)
      in s\<lparr>k_timers := q(Hard_list := timer_insert (\<lambda>t. timeout_tick (k_timer s t)) new m (q Hard_list)),
           k_timer := (k_timer s)(m := (k_timer s m)\<lparr>timeout_tick := new\<rparr>),
           k_object := (k_object s)(Obj_timer m := (k_object s (Obj_timer m))\<lparr>obj_flag :=
             timer_flag s m AND NOT RT_TIMER_FLAG_ACTIVATED OR RT_TIMER_FLAG_ACTIVATED\<rparr>),
           k_random_nr := k_random_nr s + 1, k_trace := Hook_take (Obj_timer m) # k_trace s\<rparr>)"

lemma start_state_sel [simp]:
  "k_thread (start_state m s) = k_thread s" "k_tlist (start_state m s) = k_tlist s"
  "k_ready_group (start_state m s) = k_ready_group s" "k_current (start_state m s) = k_current s"
  "k_lock_nest (start_state m s) = k_lock_nest s" "k_interrupt_nest (start_state m s) = k_interrupt_nest s"
  "k_tick (start_state m s) = k_tick s" "k_sem (start_state m s) = k_sem s"
  "k_mutex (start_state m s) = k_mutex s" "k_event (start_state m s) = k_event s"
  "k_mb (start_state m s) = k_mb s" "k_mq (start_state m s) = k_mq s"
  "k_mp (start_state m s) = k_mp s" "k_word (start_state m s) = k_word s"
  "k_module (start_state m s) = k_module s"
  "k_container (start_state m s) = k_container s" "k_errno (start_state m s) = k_errno s"
  "k_trace (start_state m s) = Hook_take (Obj_timer m) # k_trace s"
  by (simp_all add: start_state_def Let_def)

lemma start_state_timer:
  "k_timer (start_state m s) = (k_timer s)(m := (k_timer s m)\<lparr>timeout_tick := k_tick s + tm_init_tick (k_timer s m)\<rparr>)"
  "k_timers (start_state m s) = (qs_remove m (k_timers s))(Hard_list :=
     timer_insert (\<lambda>t. timeout_tick (k_timer s t)) (k_tick s + tm_init_tick (k_timer s m)) m
       (qs_remove m (k_timers s) Hard_list))"
  "m' \<noteq> m \<Longrightarrow> timer_flag (start_state m s) m' = timer_flag s m'"
  "timer_flag (start_state m s) m = timer_flag s m AND NOT RT_TIMER_FLAG_ACTIVATED OR RT_TIMER_FLAG_ACTIVATED"
  "(\<forall>n. ob \<noteq> Obj_timer n) \<Longrightarrow> k_object (start_state m s) ob = k_object s ob"
  by (simp_all add: start_state_def Let_def)

lemma timer_inv_wf: "timer_inv s \<Longrightarrow> x \<in> set (qs_remove m (k_timers s) l) \<longleftrightarrow> x \<in> set (k_timers s l) \<and> x \<noteq> m"
  by (auto simp: set_qs_remove timer_invD(1))

lemma rt_timer_start_hard:
  assumes "timer_inv s" "timer_flag s m AND RT_TIMER_FLAG_SOFT_TIMER = 0" "tm_init_tick (k_timer s m) < RT_TICK_HALF"
  shows "rt_timer_start m s = Some (start_state m s)"
proof -
  let ?f = "timer_flag s m AND NOT RT_TIMER_FLAG_ACTIVATED"
  have f: "list_of_flag ?f = Hard_list" "(?f OR RT_TIMER_FLAG_ACTIVATED) AND RT_TIMER_FLAG_SOFT_TIMER = 0"
    using assms(2) by (simp_all add: list_of_flag_def flag_bits)
  have "m \<notin> set (qs_remove m (k_timers s) Hard_list)" using timer_inv_wf [OF assms(1)] by simp
  then have i: "timer_insert (\<lambda>t. timeout_tick (((k_timer s)(m := x)) t)) new m (qs_remove m (k_timers s) Hard_list) =
      timer_insert (\<lambda>t. timeout_tick (k_timer s t)) new m (qs_remove m (k_timers s) Hard_list)" for new x
    by (intro timer_insert_cong) auto
  show ?thesis
    using assms(3) f i by (simp add: rt_timer_start_def start_state_def rt_timer_remove_def clear_flag_def
        set_flag_def Let_def okr)
qed

lemma start_state_timer_inv:
  assumes inv: "timer_inv s" and soft: "timer_flag s m AND RT_TIMER_FLAG_SOFT_TIMER = 0"
    and t: "\<And>t. m = Thread_timer t \<Longrightarrow> thr_stat s t = RT_THREAD_SUSPEND"
  shows "timer_inv (start_state m s) \<and> timer_on (start_state m s) m"
proof
  note W = timer_inv_wf [OF inv, of _ m]
  let ?s = "start_state m s" and ?q = "qs_remove m (k_timers s)"
  have mem: "x \<in> set (k_timers ?s l) \<longleftrightarrow> x \<in> set (k_timers s l) \<and> x \<noteq> m \<or> x = m \<and> l = Hard_list" for x l
    by (auto simp: start_state_timer W)
  show "timer_on ?s m" by (simp add: timer_on_iff mem)
  show "timer_inv ?s"
  proof (rule timer_invI)
    have q: "qs_wf ?q" using timer_invD(1) [OF inv] by (rule qs_wf_remove)
    have n: "m \<notin> set (?q l)" for l using W by simp
    have "distinct (?q l)" for l using q by (simp add: qs_wf_def)
    then have d: "distinct (k_timers ?s l)" for l
      using n by (simp add: start_state_timer distinct_timer_insert)
    show "qs_wf (k_timers ?s)"
      unfolding qs_wf_def
    proof (intro conjI allI impI d)
      fix l l' :: theads assume "l \<noteq> l'"
      then have "set (k_timers s l) \<inter> set (k_timers s l') = {}"
        using timer_invD(1) [OF inv] by (simp add: qs_wf_def)
      with \<open>l \<noteq> l'\<close> show "set (k_timers ?s l) \<inter> set (k_timers ?s l') = {}"
        by (auto simp: mem)
    qed
    have fl: "bit (timer_flag ?s x) n \<longleftrightarrow> bit (timer_flag s x) n \<or> x = m \<and> n = 0" for x n
      by (cases "x = m") (auto simp: start_state_timer flag_bits)
    show "timer_flag ?s x AND RT_TIMER_FLAG_ACTIVATED \<noteq> 0" "list_of_flag (timer_flag ?s x) = l"
      if "x \<in> set (k_timers ?s l)" for x l
      using that timer_invD(2,3) [OF inv, of x l] soft
      by (auto simp: mem fl list_of_flag_def and_flag_iff)
    show "thr_stat ?s t' = RT_THREAD_SUSPEND" if "timer_on ?s (Thread_timer t')" for t'
      using that timer_invD(4) [OF inv, of t'] t by (auto simp: timer_on_iff mem)
    show "thread_timer_ok ?s t'" if "thr_stat ?s t' \<in> {RT_THREAD_READY, RT_THREAD_SUSPEND}" for t'
    proof -
      have "thread_timer_ok s t'" using that timer_invD(5,6) [OF inv, of t'] by auto
      then show ?thesis
        by (auto simp: thread_timer_ok_def start_state_timer(1) fl and_flag_iff)
    qed
  qed
qed

lemma kinv_start_state:
  assumes inv: "kinv s" and soft: "timer_flag s m AND RT_TIMER_FLAG_SOFT_TIMER = 0"
    and t: "\<And>t. m = Thread_timer t \<Longrightarrow> thr_stat s t = RT_THREAD_SUSPEND"
  shows "kinv (start_state m s)"
proof (rule kinvI)
  show "sched_inv (start_state m s)" by (rule sched_inv_cong [OF kinvD(1) [OF inv]]) simp_all
  show "timer_inv (start_state m s)" using start_state_timer_inv [OF kinvD(2) [OF inv] soft t] by blast
qed (use kinvD(3-) [OF inv] in auto)

section \<open>The order of the hard timers\<close>

text \<open>
  \<open>window lo s\<close>: the hard timers stand in the order of the time left, which is at least \<open>lo\<close> and less than
  half of the tick range; periodic ones have a period that is neither zero nor too long, and only the
  timers of threads call \<open>rt_thread_timeout\<close>.
\<close>

definition window :: "int \<Rightarrow> kstate \<Rightarrow> bool" where
  "window lo s \<longleftrightarrow> sorted_wrt (\<lambda>a b. left s a \<le> left s b) (k_timers s Hard_list) \<and>
     (\<forall>m \<in> set (k_timers s Hard_list). lo \<le> left s m \<and> left s m < 2 ^ 31 - 1 \<and>
        (timer_flag s m AND RT_TIMER_FLAG_PERIODIC \<noteq> 0 \<longrightarrow>
           0 < tm_init_tick (k_timer s m) \<and> tm_init_tick (k_timer s m) < RT_TICK_HALF) \<and>
        (timeout_func (k_timer s m) = Rt_thread_timeout \<longrightarrow> (\<exists>t. m = Thread_timer t)))"

lemma sint_small: "uint (w :: rt_tick_t) < 2 ^ 31 \<Longrightarrow> sint w = uint w"
  unfolding sint_uint
  by (rule signed_take_bit_int_eq_self) (rule order_trans [OF _ uint_ge_0], simp_all)

lemma left_start_state:
  assumes "tm_init_tick (k_timer s m) < RT_TICK_HALF"
  shows "left (start_state m s) m = uint (tm_init_tick (k_timer s m))"
    and "x \<noteq> m \<Longrightarrow> left (start_state m s) x = left s x"
proof -
  have "uint (tm_init_tick (k_timer s m)) < 2 ^ 31 - 1" using assms by (simp add: word_less_def)
  then have "sint (tm_init_tick (k_timer s m)) = uint (tm_init_tick (k_timer s m))"
    by (intro sint_small) simp
  then show "left (start_state m s) m = uint (tm_init_tick (k_timer s m))"
    by (simp add: left_def start_state_timer)
qed (simp add: left_def start_state_timer)

lemma sorted_wrt_timer_insert:
  assumes "sorted_wrt (\<lambda>a b. f a \<le> f b) ts"
    and p: "\<And>t. t \<in> set ts \<Longrightarrow> passes tt new t \<longleftrightarrow> f t \<le> f m"
  shows "sorted_wrt (\<lambda>a b. (f a :: int) \<le> f b) (timer_insert tt new m ts)"
  using assms
proof (induction ts)
  case (Cons t ts)
  show ?case
  proof (cases "passes tt new t")
    case True
    then have "timer_insert tt new m (t # ts) = t # timer_insert tt new m ts" by (auto simp: passes_def)
    moreover have "f t \<le> f m" using True Cons.prems(2) [of t] by simp
    ultimately show ?thesis using Cons by auto
  next
    case False
    then have "timer_insert tt new m (t # ts) = m # t # ts" by (auto simp: passes_def)
    moreover have "f m \<le> f t" using False Cons.prems(2) [of t] by simp
    ultimately show ?thesis using Cons.prems(1) by fastforce
  qed
qed simp


lemma window_start_state:
  assumes inv: "timer_inv s" and w: "window lo s" "- 1 \<le> lo" "lo \<le> 1"
    and i: "tm_init_tick (k_timer s m) < RT_TICK_HALF" "lo \<le> uint (tm_init_tick (k_timer s m))"
      "timer_flag s m AND RT_TIMER_FLAG_PERIODIC \<noteq> 0 \<Longrightarrow> 0 < tm_init_tick (k_timer s m)"
      "timeout_func (k_timer s m) = Rt_thread_timeout \<Longrightarrow> \<exists>t. m = Thread_timer t"
  shows "window lo (start_state m s)"
proof -
  let ?s = "start_state m s" and ?q = "qs_remove m (k_timers s) Hard_list"
  let ?new = "k_tick s + tm_init_tick (k_timer s m)" and ?tt = "\<lambda>t. timeout_tick (k_timer s t)"
  note W = timer_inv_wf [OF inv, of _ m Hard_list] and L = left_start_state [OF i(1)]
  have u: "uint (tm_init_tick (k_timer s m)) < 2 ^ 31 - 1" using i(1) by (simp add: word_less_def)
  have sq: "sorted_wrt (\<lambda>a b. left s a \<le> left s b) ?q"
    using w(1) by (auto simp: window_def qs_remove_def intro: sorted_wrt_remove1)
  have bd: "lo \<le> left s t \<and> left s t < 2 ^ 31 - 1" if "t \<in> set ?q" for t
    using that w(1) W by (auto simp: window_def)
  have sq': "sorted_wrt (\<lambda>a b. left ?s a \<le> left ?s b) ?q"
    using sq by (rule sorted_wrt_mono_rel [rotated]) (use W in \<open>auto simp: L\<close>)
  have "passes ?tt ?new t \<longleftrightarrow> left ?s t \<le> left ?s m" if "t \<in> set ?q" for t
  proof -
    have "t \<noteq> m" using that W by blast
    moreover have "sint (?new - k_tick s) = left ?s m" by (simp add: left_def start_state_timer)
    moreover have "passes ?tt ?new t \<longleftrightarrow> sint (?tt t - k_tick s) \<le> sint (?new - k_tick s)"
      by (rule passes_left [OF refl refl])
        (use bd [OF that] w(2) u L(1) in \<open>simp_all add: left_def start_state_timer\<close>)
    ultimately show ?thesis by (simp add: left_def start_state_timer)
  qed
  then have "sorted_wrt (\<lambda>a b. left ?s a \<le> left ?s b) (k_timers ?s Hard_list)"
    using sorted_wrt_timer_insert [OF sq', of ?tt ?new m] by (simp add: start_state_timer)
  moreover have "lo \<le> left ?s x \<and> left ?s x < 2 ^ 31 - 1 \<and>
      (timer_flag ?s x AND RT_TIMER_FLAG_PERIODIC \<noteq> 0 \<longrightarrow>
        0 < tm_init_tick (k_timer ?s x) \<and> tm_init_tick (k_timer ?s x) < RT_TICK_HALF) \<and>
      (timeout_func (k_timer ?s x) = Rt_thread_timeout \<longrightarrow> (\<exists>t. x = Thread_timer t))"
    if "x \<in> set (k_timers ?s Hard_list)" for x
  proof (cases "x = m")
    case True
    have "timer_flag ?s m AND RT_TIMER_FLAG_PERIODIC \<noteq> 0 \<longleftrightarrow> timer_flag s m AND RT_TIMER_FLAG_PERIODIC \<noteq> 0"
      by (simp add: start_state_timer flag_bits)
    with True show ?thesis using L(1) u i by (auto simp: start_state_timer(1))
  next
    case False
    then have "x \<in> set (k_timers s Hard_list)" using that W by (auto simp: start_state_timer)
    with False w(1) show ?thesis by (simp add: window_def L(2) start_state_timer(1,3))
  qed
  ultimately show ?thesis by (simp add: window_def)
qed

section \<open>The check of the hard timers\<close>

text \<open>The timeout functions called so far, oldest first.\<close>

definition is_call :: "kevent \<Rightarrow> bool" where
  "is_call e \<longleftrightarrow> (case e of Call_timeout f p \<Rightarrow> True | _ \<Rightarrow> False)"

definition calls :: "kstate \<Rightarrow> kevent list" where
  "calls s = filter is_call (rev (k_trace s))"

definition call_of :: "kstate \<Rightarrow> timer_ref \<Rightarrow> kevent" where
  "call_of s m = Call_timeout (timeout_func (k_timer s m)) (tm_parameter (k_timer s m))"

text \<open>The current thread is ready.\<close>

definition cur_ready :: "kstate \<Rightarrow> bool" where
  "cur_ready s \<longleftrightarrow> thr_stat s (k_current s) = RT_THREAD_READY"

text \<open>A thread that was woken because its time has run out.\<close>

definition timed_out :: "kstate \<Rightarrow> tid \<Rightarrow> bool" where
  "timed_out s t \<longleftrightarrow> thr_stat s t = RT_THREAD_READY \<and> error (k_thread s t) = - RT_ETIMEOUT"

text \<open>
  \<open>calm s s'\<close>: of a thread only state, error number and time slice have changed, none was suspended, a
  queue of waiting threads has at most lost some, and the objects of the kernel are as before.
\<close>

definition calm :: "kstate \<Rightarrow> kstate \<Rightarrow> bool" where
  "calm s s' \<longleftrightarrow> kept s (s'\<lparr>k_tick := k_tick s\<rparr>) \<and>
     (\<forall>t. \<exists>e x r. k_thread s' t = (k_thread s t)\<lparr>error := e, stat := x, remaining_tick := r\<rparr>) \<and>
     (\<forall>t. thr_stat s' t = RT_THREAD_SUSPEND \<longrightarrow>
        thr_stat s t = RT_THREAD_SUSPEND \<and> error (k_thread s' t) = error (k_thread s t)) \<and>
     (\<forall>h. (\<forall>p. h \<noteq> Ready p) \<longrightarrow> subseq (k_tlist s' h) (k_tlist s h))"

lemma subseq_remove1: "subseq (remove1 x xs) xs"
  by (induction xs) auto

lemma calmD:
  assumes "calm s s'"
  shows "k_sem s' = k_sem s" "k_mutex s' = k_mutex s" "k_event s' = k_event s" "k_mb s' = k_mb s"
    "k_mq s' = k_mq s" "k_mp s' = k_mp s" "k_word s' = k_word s" "k_module s' = k_module s"
    "k_lock_nest s' = k_lock_nest s" "k_interrupt_nest s' = k_interrupt_nest s"
    "k_container s' = k_container s" "k_errno s' = k_errno s"
    "(\<forall>m. ob \<noteq> Obj_timer m) \<Longrightarrow> k_object s' ob = k_object s ob"
    "\<exists>e x r. k_thread s' t = (k_thread s t)\<lparr>error := e, stat := x, remaining_tick := r\<rparr>"
    "(\<forall>p. h \<noteq> Ready p) \<Longrightarrow> subseq (k_tlist s' h) (k_tlist s h)"
    "thr_stat s' t = RT_THREAD_SUSPEND \<Longrightarrow> thr_stat s t = RT_THREAD_SUSPEND"
    "thr_stat s' t = RT_THREAD_SUSPEND \<Longrightarrow> error (k_thread s' t) = error (k_thread s t)"
  using assms by (simp_all add: calm_def kept_def)

lemma calm_trans:
  assumes "calm s s'" "calm s' s''"
  shows "calm s s''"
  unfolding calm_def
proof (intro conjI allI impI)
  show "kept s (s''\<lparr>k_tick := k_tick s\<rparr>)" using assms by (simp add: calm_def kept_def)
  show "\<exists>e x r. k_thread s'' t = (k_thread s t)\<lparr>error := e, stat := x, remaining_tick := r\<rparr>" for t
    using calmD(14) [OF assms(1), of t] calmD(14) [OF assms(2), of t] by fastforce
  show "thr_stat s t = RT_THREAD_SUSPEND" "error (k_thread s'' t) = error (k_thread s t)"
    if "thr_stat s'' t = RT_THREAD_SUSPEND" for t
    using calmD(16,17) [OF assms(2) that] calmD(16,17) [OF assms(1), of t] by simp_all
  show "subseq (k_tlist s'' h) (k_tlist s h)" if "\<forall>p. h \<noteq> Ready p" for h
    using calmD(15) [OF assms(2) that] calmD(15) [OF assms(1) that] by (rule subseq_order.trans)
qed

lemma thread_self_upd: "\<exists>e x r. th = (th :: rt_thread)\<lparr>error := e, stat := x, remaining_tick := r\<rparr>"
  by (rule exI [of _ "error th"], rule exI [of _ "stat th"], rule exI [of _ "remaining_tick th"]) simp

lemma thread_error_stat_upd:
  "\<exists>e x r. (th :: rt_thread)\<lparr>error := a, stat := b\<rparr> = th\<lparr>error := e, stat := x, remaining_tick := r\<rparr>"
  by (rule exI [of _ a], rule exI [of _ b], rule exI [of _ "remaining_tick th"]) simp

lemma calm_same: "kept s (s'\<lparr>k_tick := k_tick s\<rparr>) \<Longrightarrow> k_thread s' = k_thread s \<Longrightarrow> k_tlist s' = k_tlist s \<Longrightarrow> calm s s'"
  by (simp add: calm_def thread_self_upd)

lemma calm_refl [simp]: "calm s s"
  by (rule calm_same) (simp_all add: kept_def)

lemma calm_only_switched: "only_switched s s' \<Longrightarrow> calm s s'"
  by (rule calm_same) (simp_all add: kept_def only_switchedD)

text \<open>
  \<open>quiet s s'\<close>: moreover the timers are as before, ready threads are still ready, and a current thread
  that was ready has at most been replaced by one that is.
\<close>

definition quiet :: "kstate \<Rightarrow> kstate \<Rightarrow> bool" where
  "quiet s s' \<longleftrightarrow>
     (\<forall>t. thr_stat s t = RT_THREAD_READY \<longrightarrow> thr_stat s' t = RT_THREAD_READY \<and> error (k_thread s' t) = error (k_thread s t)) \<and>
     (cur_ready s \<longrightarrow> cur_ready s') \<and> k_tick s' = k_tick s \<and> k_timers s' = k_timers s \<and> k_timer s' = k_timer s \<and>
     (\<forall>m. timer_flag s' m = timer_flag s m) \<and> calm s s'"

text \<open>
  The timeout functions of the application are assumed to return, to keep the invariant and to
  be quiet.
\<close>

definition cb_quiet :: "callback \<Rightarrow> bool" where
  "cb_quiet cb \<longleftrightarrow> (\<forall>f p s. kinv s \<and> idle_ready s \<longrightarrow>
     ok (cb f p s) (\<lambda>s'. kinv s' \<and> quiet s s' \<and> calls s' = calls s))"

lemma calls_emit: "calls (s\<lparr>k_trace := e # k_trace s\<rparr>) = calls s @ (if is_call e then [e] else [])"
  by (simp add: calls_def)

lemma rt_schedule_calls: "rt_schedule s = Some s' \<Longrightarrow> calls s' = calls s"
  by (auto simp: rt_schedule_def rt_scheduler_stack_check_def Let_def calls_def is_call_def RT_ASSERT_def
      split: if_splits option.splits Option.bind_splits)

lemma insert_thread_calls: "rt_schedule_insert_thread t s = Some s' \<Longrightarrow> calls s' = calls s"
  by (auto simp: rt_schedule_insert_thread_def Let_def calls_def RT_ASSERT_def split: if_splits)

lemma rt_thread_timeout_calls:
  assumes "rt_thread_timeout t s = Some s'"
  shows "calls s' = calls s"
proof -
  let ?s1 = "s\<lparr>k_thread := (k_thread s)(t := (k_thread s t)\<lparr>error := - RT_ETIMEOUT\<rparr>),
    k_tlist := qs_remove t (k_tlist s)\<rparr>"
  obtain s2 where "rt_schedule_insert_thread t ?s1 = Some s2" "rt_schedule s2 = Some s'"
    using assms by (auto simp: rt_thread_timeout_def Let_def RT_ASSERT_def split: if_splits Option.bind_splits)
  then have "calls s' = calls ?s1" by (simp add: rt_schedule_calls insert_thread_calls)
  then show ?thesis by (simp add: calls_def)
qed

lemma due_left:
  assumes "- 1 \<le> left s m" "left s m < 2 ^ 31 - 1"
  shows "due (k_tick s) s m \<longleftrightarrow> left s m \<le> 0"
proof -
  have u: "uint (k_tick s - timeout_tick (k_timer s m)) = (0 - left s m) mod 2 ^ 32"
    using uint_diff_sint [of "k_tick s" "timeout_tick (k_timer s m)" "k_tick s"] by (simp add: left_def)
  have d: "due (k_tick s) s m \<longleftrightarrow> uint (k_tick s - timeout_tick (k_timer s m)) < 0x7fffffff"
    by (simp add: due_def word_less_def)
  show ?thesis
  proof (cases "left s m \<le> 0")
    case True
    then have "(0 - left s m) mod 2 ^ 32 = - left s m" using assms by (subst mod_pos_pos_trivial) auto
    then show ?thesis unfolding d u using True assms by auto
  next
    case False
    then have "(0 - left s m + 2 ^ 32) mod 2 ^ 32 = 2 ^ 32 - left s m"
      using assms by (subst mod_pos_pos_trivial) auto
    then have "(0 - left s m) mod 2 ^ 32 = 2 ^ 32 - left s m" by simp
    then show ?thesis unfolding d u using False assms by auto
  qed
qed

lemma timer_insert_append:
  "(\<And>t. t \<in> set xs \<Longrightarrow> passes tt new t) \<Longrightarrow> timer_insert tt new m (xs @ ys) = xs @ timer_insert tt new m ys"
  by (induction xs) (auto simp: passes_def)

lemma switched_cur_ready:
  assumes "kinv s" "switched s s'" "cur_ready s"
  shows "cur_ready s'"
proof (cases "k_lock_nest s = 0")
  case True
  note o = only_switchedD [OF switched_only [OF assms(2)]]
  obtain p where p: "highest s p" "k_current s' = hd (ready_q s p)"
    using assms(2) True by (auto simp: switched_def)
  then have "k_current s' \<in> set (ready_q s p)" by (simp add: highest_def)
  then show ?thesis using sched_invD(4) [OF kinvD(1) [OF assms(1)]] o by (fastforce simp: cur_ready_def)
next
  case False
  then show ?thesis using assms by (simp add: switched_def)
qed

text \<open>The timeout function of a timer that has been taken out of its list.\<close>

lemma call_timeout_ok:
  assumes cb: "cb_quiet cb" and inv: "kinv s" "idle_ready s" "\<not> timer_on s m"
    and th: "\<And>t. m = Thread_timer t \<Longrightarrow> thr_stat s t = RT_THREAD_SUSPEND"
      "timeout_func (k_timer s m) = Rt_thread_timeout \<Longrightarrow> \<exists>t. m = Thread_timer t"
  shows "ok (call_timeout cb m s) (\<lambda>s'. kinv s' \<and> idle_ready s' \<and> quiet s s' \<and>
    calls s' = calls s @ [call_of s m] \<and> (\<forall>t. m = Thread_timer t \<longrightarrow> timed_out s' t))"
proof (cases "timeout_func (k_timer s m)")
  case Rt_thread_timeout
  then obtain t where m: "m = Thread_timer t" using th(2) by blast
  have st: "thr_stat s t = RT_THREAD_SUSPEND" using th(1) m by blast
  have "thread_timer_ok s t" using timer_invD(6) [OF kinvD(2) [OF inv(1)] st] .
  then have p: "tm_parameter (k_timer s m) = t" by (simp add: thread_timer_ok_def m)
  let ?s = "emit (Call_timeout Rt_thread_timeout t) s"
  have k: "kinv ?s" by (rule kinv_cong [OF inv(1)]) simp_all
  have i: "idle_ready ?s" using inv(2) by (simp add: idle_ready_def)
  have off: "\<not> timer_on ?s (Thread_timer t)" using inv(3) m by (simp add: timer_on_def)
  have eq: "call_timeout cb m s = rt_thread_timeout t ?s"
    using Rt_thread_timeout p by (simp add: call_timeout_def Let_def)
  have st': "thr_stat ?s t = RT_THREAD_SUSPEND" using st by simp
  from timeout_ok [OF k st' off i]
  obtain s' s1 where s': "rt_thread_timeout t ?s = Some s'" "frame ?s s1" "switched s1 s'" "kinv s'" "idle_ready s'"
     "k_thread s1 = (k_thread s)(t := (k_thread s t)\<lparr>error := - RT_ETIMEOUT, stat := RT_THREAD_READY\<rparr>)"
     "k_timers s1 = k_timers s" "k_object s1 = k_object s" "kinv s1"
     "k_tlist s1 = qs_push_back (Ready (thr_prio s t)) t (qs_remove t (k_tlist s))"
    by (auto elim!: okE)
  note o = only_switchedD [OF switched_only [OF s'(3)]]
  have "cur_ready s1" if "cur_ready s" using that s'(6) frameD(1) [OF s'(2)] by (simp add: cur_ready_def)
  then have "cur_ready s \<longrightarrow> cur_ready s'"
    using switched_cur_ready [OF s'(9,3)] by blast
  moreover have "calm s s'"
  proof -
    have "kept s s1" using s'(8) by (auto simp: kept_def frameD [OF s'(2)])
    moreover have "subseq (k_tlist s1 h) (k_tlist s h)" if "\<forall>p. h \<noteq> Ready p" for h
      using that by (simp add: s'(10) qs_push_back_def qs_remove_def subseq_remove1)
    ultimately have "calm s s1" by (auto simp: calm_def s'(6) kept_def thread_self_upd thread_error_stat_upd)
    then show ?thesis using calm_only_switched [OF switched_only [OF s'(3)]] by (rule calm_trans)
  qed
  ultimately have "quiet s s'"
    using s'(6-8) o frameD [OF s'(2)] st by (simp add: quiet_def)
  moreover have "calls s' = calls s @ [call_of s m]"
    using rt_thread_timeout_calls [OF s'(1)] Rt_thread_timeout p
    by (simp add: calls_def is_call_def call_of_def)
  moreover have "timed_out s' t" using s'(6) o by (simp add: timed_out_def)
  ultimately show ?thesis unfolding eq s'(1) ok_Some using s'(4,5) m by simp
next
  case (User_timeout g)
  let ?p = "tm_parameter (k_timer s m)"
  let ?s = "emit (Call_timeout (User_timeout g) ?p) s"
  have k: "kinv ?s" by (rule kinv_cong [OF inv(1)]) simp_all
  have i: "idle_ready ?s" using inv(2) by (simp add: idle_ready_def)
  have nt: "m \<noteq> Thread_timer t" for t
  proof
    assume m: "m = Thread_timer t"
    then have "thread_timer_ok s t" using timer_invD(6) [OF kinvD(2) [OF inv(1)]] th(1) by blast
    with m User_timeout show False by (simp add: thread_timer_ok_def)
  qed
  have eq: "call_timeout cb m s = cb g ?p ?s" using User_timeout by (simp add: call_timeout_def Let_def)
  have "ok (cb g ?p ?s) (\<lambda>s'. kinv s' \<and> quiet ?s s' \<and> calls s' = calls ?s)"
    using cb k i unfolding cb_quiet_def by blast
  then show ?thesis
    unfolding eq
  proof (rule ok_mono)
    fix s' assume a: "kinv s' \<and> quiet ?s s' \<and> calls s' = calls ?s"
    then have "calls s' = calls s @ [call_of s m]"
      using User_timeout by (simp add: calls_def is_call_def call_of_def)
    then show "kinv s' \<and> idle_ready s' \<and> quiet s s' \<and> calls s' = calls s @ [call_of s m] \<and>
        (\<forall>t. m = Thread_timer t \<longrightarrow> timed_out s' t)"
      using a inv(2) nt by (auto simp: quiet_def idle_ready_def cur_ready_def calm_def kept_def)
  qed
qed

lemma windowD:
  assumes "window lo s" "m \<in> set (k_timers s Hard_list)"
  shows "lo \<le> left s m" "left s m < 2 ^ 31 - 1"
    "timer_flag s m AND RT_TIMER_FLAG_PERIODIC \<noteq> 0 \<Longrightarrow> 0 < tm_init_tick (k_timer s m)"
    "timer_flag s m AND RT_TIMER_FLAG_PERIODIC \<noteq> 0 \<Longrightarrow> tm_init_tick (k_timer s m) < RT_TICK_HALF"
    "timeout_func (k_timer s m) = Rt_thread_timeout \<Longrightarrow> \<exists>t. m = Thread_timer t"
  using assms unfolding window_def by blast+

text \<open>The order only depends on the timers, their flags and the clock.\<close>

lemma window_cong:
  assumes "window lo s" "k_timers s' Hard_list = k_timers s Hard_list" "k_timer s' = k_timer s" "k_tick s' = k_tick s"
    "\<And>m. m \<in> set (k_timers s Hard_list) \<Longrightarrow>
       timer_flag s' m AND RT_TIMER_FLAG_PERIODIC = timer_flag s m AND RT_TIMER_FLAG_PERIODIC"
  shows "window lo s'"
  using assms unfolding window_def left_def by simp

lemma window_tail:
  assumes "window lo s" "k_timers s Hard_list = m # ts" "k_timers s' Hard_list = ts" "k_timer s' = k_timer s"
    "k_tick s' = k_tick s" "\<And>x. x \<in> set ts \<Longrightarrow>
       timer_flag s' x AND RT_TIMER_FLAG_PERIODIC = timer_flag s x AND RT_TIMER_FLAG_PERIODIC"
  shows "window lo s'"
  using assms unfolding window_def left_def by simp

text \<open>
  Re-arming a timer \<open>m\<close> that is in no list. The timers \<open>D\<close> at the front are due, the rest \<open>R\<close> is not;
  afterwards the same timers are at the front and still none of the rest is due.
\<close>

lemma rearm_ok:
  assumes inv: "kinv s" "\<not> timer_on s m" and w: "window (- 1) s"
    and l: "k_timers s Hard_list = D @ R" "\<forall>x \<in> set D. left s x \<le> 0" "\<forall>x \<in> set R. 0 < left s x"
    and m: "timer_flag s m AND RT_TIMER_FLAG_PERIODIC \<noteq> 0 \<longrightarrow>
        0 < tm_init_tick (k_timer s m) \<and> tm_init_tick (k_timer s m) < RT_TICK_HALF"
      "timer_flag s m AND RT_TIMER_FLAG_SOFT_TIMER = 0"
      "timer_flag s m AND RT_TIMER_FLAG_PERIODIC \<noteq> 0 \<longrightarrow> (\<forall>t. m \<noteq> Thread_timer t)"
      "timeout_func (k_timer s m) = Rt_thread_timeout \<longrightarrow> (\<exists>t. m = Thread_timer t)"
  shows "ok (rearm m s) (\<lambda>s'. kinv s' \<and> window (- 1) s' \<and> k_thread s' = k_thread s \<and> k_tick s' = k_tick s \<and>
    k_current s' = k_current s \<and> calm s s' \<and> calls s' = calls s \<and> (\<forall>x. x \<noteq> m \<longrightarrow> k_timer s' x = k_timer s x) \<and>
    (\<forall>x. tm_parameter (k_timer s' x) = tm_parameter (k_timer s x) \<and> timeout_func (k_timer s' x) = timeout_func (k_timer s x)) \<and>
    (\<exists>R'. k_timers s' Hard_list = D @ R' \<and> set R \<subseteq> set R' \<and> (\<forall>x \<in> set R'. 0 < left s' x)))"
    (is "ok _ ?Q")
proof -
  let ?s1 = "clear_flag RT_TIMER_FLAG_ACTIVATED m s"
  have f: "k_timers ?s1 = k_timers s" "k_timer ?s1 = k_timer s" "k_tick ?s1 = k_tick s" "k_thread ?s1 = k_thread s" "k_current ?s1 = k_current s"
    "calls ?s1 = calls s" "left ?s1 = left s" "k_tlist ?s1 = k_tlist s" "k_ready_group ?s1 = k_ready_group s"
    by (simp_all add: clear_flag_def calls_def left_def fun_eq_iff)
  have fl: "timer_flag ?s1 x AND 2 = timer_flag s x AND 2" "timer_flag ?s1 x AND 4 = timer_flag s x AND 4" for x
    by (simp_all add: clear_flag_def and.assoc)
  have T1: "timer_inv ?s1"
    using timer_inv_remove [OF kinvD(2) [OF inv(1)], of ?s1 m] inv(2)
    by (simp add: clear_flag_def qs_remove_free timer_off_free)
  have k1: "kinv ?s1"
    by (rule kinvI [OF sched_inv_cong [OF kinvD(1) [OF inv(1)]] T1])
      (use kinvD(3-) [OF inv(1)] in \<open>auto simp: f\<close>)
  have w1: "window (- 1) ?s1" by (rule window_cong [OF w]) (simp_all add: f fl)
  have c1: "calm s ?s1" by (rule calm_same) (simp_all add: kept_def clear_flag_def)
  show ?thesis
  proof (cases "timer_flag s m AND RT_TIMER_FLAG_PERIODIC \<noteq> 0 \<and> timer_flag s m AND RT_TIMER_FLAG_ACTIVATED \<noteq> 0")
    case False
    have "?Q ?s1" using k1 w1 l c1 by (auto simp: f)
    moreover have "rearm m s = Some ?s1" using False by (auto simp: rearm_def)
    ultimately show ?thesis by (simp add: okr)
  next
    case True
    with m have i: "0 < tm_init_tick (k_timer s m)" "tm_init_tick (k_timer s m) < RT_TICK_HALF" and nt: "m \<noteq> Thread_timer t" for t
      by auto
    let ?s2 = "start_state m ?s1"
    have eq: "rearm m s = Some ?s2"
      using True rt_timer_start_hard [OF T1, of m] m(2) i by (simp add: rearm_def f fl)
    have k2: "kinv ?s2" by (rule kinv_start_state [OF k1]) (use m(2) nt in \<open>simp_all add: fl\<close>)
    have i': "tm_init_tick (k_timer ?s1 m) < RT_TICK_HALF" using i by (simp add: f)
    note L = left_start_state [OF i', unfolded f]
    have pos: "0 < uint (tm_init_tick (k_timer s m))" using i(1) by (simp add: word_less_def)
    have w2: "window (- 1) ?s2"
      by (rule window_start_state [OF T1 w1]) (use i pos m(4) in \<open>simp_all add: f\<close>)
    let ?tt = "\<lambda>t. timeout_tick (k_timer s t)" and ?new = "k_tick s + tm_init_tick (k_timer s m)"
    have nin: "m \<notin> set (D @ R)" using inv(2) l(1) by (auto simp: timer_on_def)
    have "passes ?tt ?new x" if "x \<in> set D" for x
    proof -
      have x: "x \<in> set (k_timers s Hard_list)" using that l(1) by simp
      have "sint (?new - k_tick s) = uint (tm_init_tick (k_timer s m))"
        using L(1) by (simp add: left_def start_state_timer f)
      moreover have "uint (tm_init_tick (k_timer s m)) < 2 ^ 31 - 1" using i(2) by (simp add: word_less_def)
      ultimately have "passes ?tt ?new x \<longleftrightarrow> sint (?tt x - k_tick s) \<le> uint (tm_init_tick (k_timer s m))"
        using passes_left [OF refl refl, of ?tt x "k_tick s" ?new] windowD(1,2) [OF w x]
        by (simp add: left_def)
      then show ?thesis using l(2) that pos by (auto simp: left_def)
    qed
    then have h: "k_timers ?s2 Hard_list = D @ timer_insert ?tt ?new m R"
      using nin by (simp add: start_state_timer f l(1) qs_remove_free timer_insert_append qs_remove_def)
    have "0 < left ?s2 x" if "x \<in> set (timer_insert ?tt ?new m R)" for x
      using that l(3) nin L pos by (cases "x = m") auto
    moreover have "calls ?s2 = calls s" using f(6) by (simp add: calls_def is_call_def)
    moreover have "calm ?s1 ?s2" by (rule calm_same) (simp_all add: kept_def start_state_timer(5))
    then have "calm s ?s2" by (rule calm_trans [OF c1])
    ultimately have "?Q ?s2" using k2 w2 h by (auto simp: f start_state_timer(1))
    then show ?thesis by (simp add: eq okr)
  qed
qed

text \<open>The loop calls the timeout functions of the due timers in order and stops behind the last one.\<close>

lemma timer_check_loop_ok:
  assumes cb: "cb_quiet cb"
  shows "\<lbrakk>kinv s; idle_ready s; window (- 1) s; k_timers s Hard_list = D @ R;
      \<forall>x \<in> set D. left s x \<le> 0; \<forall>x \<in> set R. 0 < left s x\<rbrakk> \<Longrightarrow>
    ok (timer_check_loop cb (k_tick s) s) (\<lambda>s'. kinv s' \<and> idle_ready s' \<and> window 1 s' \<and> k_tick s' = k_tick s \<and>
      calls s' = calls s @ map (call_of s) D \<and> (cur_ready s \<longrightarrow> cur_ready s') \<and>
      (\<forall>t. thr_stat s t = RT_THREAD_READY \<longrightarrow> thr_stat s' t = RT_THREAD_READY \<and> error (k_thread s' t) = error (k_thread s t)) \<and>
      (\<forall>t. Thread_timer t \<in> set D \<longrightarrow> timed_out s' t) \<and> calm s s' \<and>
      set R \<subseteq> set (k_timers s' Hard_list) \<and> (\<forall>x \<in> set R. k_timer s' x = k_timer s x))"
proof (induction D arbitrary: s R)
  case Nil
  have "window 1 s" using Nil.prems(3,4,6) unfolding window_def by fastforce
  moreover have "timer_check_loop cb (k_tick s) s = Some s"
  proof (cases R)
    case (Cons r rs)
    have "r \<in> set (k_timers s Hard_list)" using Nil.prems(4) Cons by simp
    then have "\<not> due (k_tick s) s r"
      using due_left [of s r] windowD(1,2) [OF Nil.prems(3)] Nil.prems(6) Cons by fastforce
    then show ?thesis using Nil.prems(4) Cons by (subst timer_check_loop.simps) simp
  qed (use Nil.prems(4) in \<open>subst timer_check_loop.simps, simp\<close>)
  ultimately show ?case using Nil.prems by (auto simp: okr)
next
  case (Cons m D)
  note inv = Cons.prems(1) and w = Cons.prems(3) and l = Cons.prems(4)
  note T = kinvD(2) [OF inv]
  have mem: "m \<in> set (k_timers s Hard_list)" using l by simp
  have due: "due (k_tick s) s m"
    using due_left [OF windowD(1,2) [OF w mem]] Cons.prems(5) by simp
  let ?s1 = "rt_timer_remove m (s\<lparr>k_trace := Hook_timeout m # k_trace s\<rparr>)"
  have f1: "k_timers ?s1 = qs_remove m (k_timers s)" "k_timer ?s1 = k_timer s" "k_object ?s1 = k_object s"
    "k_thread ?s1 = k_thread s" "k_tick ?s1 = k_tick s" "k_tlist ?s1 = k_tlist s" "k_ready_group ?s1 = k_ready_group s"
    "calls ?s1 = calls s"
    by (simp_all add: rt_timer_remove_def calls_def is_call_def)
  have dl: "distinct (k_timers s Hard_list)" using timer_invD(1) [OF T] by (simp add: qs_wf_def)
  have l1: "k_timers ?s1 Hard_list = D @ R" by (simp add: f1 qs_remove_def l)
  have T1: "timer_inv ?s1" "\<not> timer_on ?s1 m"
    using timer_inv_remove [OF T, of ?s1 m] by (simp_all add: f1)
  have k1: "kinv ?s1"
    by (rule kinvI [OF sched_inv_cong [OF kinvD(1) [OF inv]] T1(1)]) (use kinvD(3-) [OF inv] in \<open>auto simp: f1\<close>)
  have i1: "idle_ready ?s1" using Cons.prems(2) by (simp add: idle_ready_def f1)
  have c1: "calm s ?s1" by (rule calm_same) (simp_all add: kept_def rt_timer_remove_def)
  have w1: "window (- 1) ?s1" by (rule window_tail [OF w l [unfolded append_Cons] l1]) (simp_all add: f1)
  have th: "thr_stat s t = RT_THREAD_SUSPEND" if "m = Thread_timer t" for t
    using timer_invD(4) [OF T, of t] mem that by (auto simp: timer_on_def)
  have "ok (call_timeout cb m ?s1) (\<lambda>s'. kinv s' \<and> idle_ready s' \<and> quiet ?s1 s' \<and>
    calls s' = calls ?s1 @ [call_of ?s1 m] \<and> (\<forall>t. m = Thread_timer t \<longrightarrow> timed_out s' t))"
    by (rule call_timeout_ok [OF cb k1 i1 T1(2)]) (use th windowD(5) [OF w mem] in \<open>simp_all add: rt_timer_remove_def\<close>)
  then obtain s2 where s2: "call_timeout cb m ?s1 = Some s2" "kinv s2" "idle_ready s2" "quiet ?s1 s2"
    "calls s2 = calls s @ [call_of s m]" "\<forall>t. m = Thread_timer t \<longrightarrow> timed_out s2 t"
    by (auto simp: f1 call_of_def elim!: okE)
  note q = s2(4) [unfolded quiet_def f1]
  have per: "m \<noteq> Thread_timer t" if "timer_flag s m AND RT_TIMER_FLAG_PERIODIC \<noteq> 0" for t
    using that timer_invD(6) [OF T th, of t] by (auto simp: thread_timer_ok_def)
  have soft: "timer_flag s m AND RT_TIMER_FLAG_SOFT_TIMER = 0"
    using timer_invD(3) [OF T mem] by (simp add: list_of_flag_def split: if_splits)
  have l2: "k_timers s2 Hard_list = D @ R" using q l1 f1(1) by simp
  have w2: "window (- 1) s2" by (rule window_cong [OF w1]) (use q l1 l2 in \<open>simp_all add: f1\<close>)
  have off2: "\<not> timer_on s2 m" using T1(2) q by (simp add: timer_on_def f1)
  have lf2: "left s2 x = left s x" for x using q by (simp add: left_def)
  have fl2: "timer_flag s2 m = timer_flag s m" "k_timer s2 = k_timer s" using q by simp_all
  have p: "\<forall>x \<in> set D. left s2 x \<le> 0" "\<forall>x \<in> set R. 0 < left s2 x"
    "timer_flag s2 m AND RT_TIMER_FLAG_SOFT_TIMER = 0"
    using Cons.prems(5,6) soft by (simp_all add: lf2 fl2)
  have p1: "timer_flag s2 m AND RT_TIMER_FLAG_PERIODIC \<noteq> 0 \<longrightarrow>
      0 < tm_init_tick (k_timer s2 m) \<and> tm_init_tick (k_timer s2 m) < RT_TICK_HALF"
    "timer_flag s2 m AND RT_TIMER_FLAG_PERIODIC \<noteq> 0 \<longrightarrow> (\<forall>t. m \<noteq> Thread_timer t)"
    "timeout_func (k_timer s2 m) = Rt_thread_timeout \<longrightarrow> (\<exists>t. m = Thread_timer t)"
    using windowD(3-5) [OF w mem] per unfolding fl2 by blast+
  obtain s3 R' where s3: "rearm m s2 = Some s3" "kinv s3" "window (- 1) s3" "k_thread s3 = k_thread s2" "k_current s3 = k_current s2" "calm s2 s3"
    "k_tick s3 = k_tick s2" "calls s3 = calls s2" "\<forall>x. x \<noteq> m \<longrightarrow> k_timer s3 x = k_timer s2 x"
    "\<forall>x. tm_parameter (k_timer s3 x) = tm_parameter (k_timer s2 x) \<and> timeout_func (k_timer s3 x) = timeout_func (k_timer s2 x)"
    "k_timers s3 Hard_list = D @ R'" "set R \<subseteq> set R'" "\<forall>x \<in> set R'. 0 < left s3 x"
    using rearm_ok [OF s2(2) off2 w2 l2 p(1,2) p1(1) p(3) p1(2,3)] by (elim okE) blast+
  have i3: "idle_ready s3" using s2(3) s3(4) by (simp add: idle_ready_def)
  have nm: "x \<noteq> m" if "x \<in> set D \<or> x \<in> set R" for x using that dl l by auto
  have tk: "k_tick s3 = k_tick s" using s3(7) q by simp
  have d3: "\<forall>x \<in> set D. left s3 x \<le> 0"
    using Cons.prems(5) nm s3(9) fl2(2) tk by (auto simp: left_def)
  have c3: "map (call_of s3) D = map (call_of s) D" using s3(10) fl2(2) by (simp add: call_of_def)
  have rr: "thr_stat s3 t = RT_THREAD_READY \<and> error (k_thread s3 t) = error (k_thread s t)"
    if "thr_stat s t = RT_THREAD_READY" for t
    using that q s3(4) by auto
  have to: "timed_out s3 t" if "m = Thread_timer t" for t
    using that s2(6) s3(4) by (simp add: timed_out_def)
  have eq: "timer_check_loop cb (k_tick s) s = timer_check_loop cb (k_tick s3) s3"
    using l due s2(1) s3(1) q tk by (subst timer_check_loop.simps) (simp add: Let_def)
  show ?case
    unfolding eq
  proof (rule ok_mono [OF Cons.IH [OF s3(2) i3 s3(3,11) d3 s3(13)]], elim conjE)
    fix s' assume a: "kinv s'" "idle_ready s'" "window 1 s'" "k_tick s' = k_tick s3"
      "calls s' = calls s3 @ map (call_of s3) D"
      and cr: "cur_ready s3 \<longrightarrow> cur_ready s'" and a6:
      "\<forall>t. thr_stat s3 t = RT_THREAD_READY \<longrightarrow> thr_stat s' t = RT_THREAD_READY \<and> error (k_thread s' t) = error (k_thread s3 t)"
      and a7: "\<forall>t. Thread_timer t \<in> set D \<longrightarrow> timed_out s' t" "calm s3 s'" and a8:
      "set R' \<subseteq> set (k_timers s' Hard_list)" "\<forall>x\<in>set R'. k_timer s' x = k_timer s3 x"
    have "cur_ready s \<longrightarrow> cur_ready ?s1" by (simp add: cur_ready_def rt_timer_remove_def)
    then have "cur_ready s \<longrightarrow> cur_ready s'"
      using s2(4) cr s3(4,5) by (auto simp: quiet_def cur_ready_def)
    moreover have "\<forall>x\<in>set R. k_timer s' x = k_timer s x"
      using a8(2) s3(9,12) nm fl2(2) by (metis subsetD)
    moreover have "calls s' = calls s @ map (call_of s) (m # D)"
      using a(5) s3(8) s2(5) c3 by simp
    moreover have "calm s s'" using calm_trans [OF c1 calm_trans [OF calm_trans [OF _ s3(6)] a7(2)]] q by blast
    moreover have "\<forall>t. Thread_timer t \<in> set (m # D) \<longrightarrow> timed_out s' t"
      using a6 a7(1) to by (auto simp: timed_out_def)
    ultimately show "kinv s' \<and> idle_ready s' \<and> window 1 s' \<and> k_tick s' = k_tick s \<and>
      calls s' = calls s @ map (call_of s) (m # D) \<and> (cur_ready s \<longrightarrow> cur_ready s') \<and>
      (\<forall>t. thr_stat s t = RT_THREAD_READY \<longrightarrow> thr_stat s' t = RT_THREAD_READY \<and> error (k_thread s' t) = error (k_thread s t)) \<and>
      (\<forall>t. Thread_timer t \<in> set (m # D) \<longrightarrow> timed_out s' t) \<and> calm s s' \<and>
      set R \<subseteq> set (k_timers s' Hard_list) \<and> (\<forall>x \<in> set R. k_timer s' x = k_timer s x)"
      using a(1-4) a6 a8(1) s3(12) tk rr by auto
  qed
qed

lemma sorted_dropWhile_pos:
  assumes "sorted_wrt (\<lambda>a b. (f a :: int) \<le> f b) xs" "x \<in> set (dropWhile (\<lambda>x. f x \<le> 0) xs)"
  shows "0 < f x"
  using assms by (induction xs) (auto split: if_splits)

lemma sorted_takeWhile_filter:
  "sorted_wrt (\<lambda>a b. (f a :: int) \<le> f b) xs \<Longrightarrow> takeWhile (\<lambda>x. f x \<le> 0) xs = filter (\<lambda>x. f x \<le> 0) xs"
  by (induction xs) (auto intro!: sym [OF filter_False])

lemma check_ok:
  assumes cb: "cb_quiet cb" and inv: "kinv s" "idle_ready s" "window (- 1) s"
  shows "ok (rt_timer_check cb s) (\<lambda>s'. kinv s' \<and> idle_ready s' \<and> window 1 s' \<and> k_tick s' = k_tick s \<and>
    calls s' = calls s @ map (call_of s) (filter (\<lambda>m. left s m \<le> 0) (k_timers s Hard_list)) \<and>
    (cur_ready s \<longrightarrow> cur_ready s') \<and>
    (\<forall>t. thr_stat s t = RT_THREAD_READY \<longrightarrow> thr_stat s' t = RT_THREAD_READY \<and> error (k_thread s' t) = error (k_thread s t)) \<and>
    (\<forall>t. Thread_timer t \<in> set (k_timers s Hard_list) \<and> left s (Thread_timer t) \<le> 0 \<longrightarrow> timed_out s' t) \<and> calm s s' \<and>
    (\<forall>x \<in> set (k_timers s Hard_list). 0 < left s x \<longrightarrow> x \<in> set (k_timers s' Hard_list) \<and> k_timer s' x = k_timer s x))"
proof -
  let ?P = "\<lambda>x. left s x \<le> 0" and ?l = "k_timers s Hard_list"
  have so: "sorted_wrt (\<lambda>a b. left s a \<le> left s b) ?l" using inv(3) by (simp add: window_def)
  have D: "\<forall>x \<in> set (takeWhile ?P ?l). left s x \<le> 0" by (auto dest: set_takeWhileD)
  have R: "\<forall>x \<in> set (dropWhile ?P ?l). 0 < left s x" using sorted_dropWhile_pos [OF so] by blast
  have l: "?l = takeWhile ?P ?l @ dropWhile ?P ?l" by simp
  have f: "takeWhile ?P ?l = filter ?P ?l" using so by (rule sorted_takeWhile_filter)
  have R': "x \<in> set (dropWhile ?P ?l)" if "x \<in> set ?l" "0 < left s x" for x
  proof -
    have "x \<notin> set (takeWhile ?P ?l)" using D that(2) by fastforce
    moreover have "x \<in> set (takeWhile ?P ?l @ dropWhile ?P ?l)" using that(1) by simp
    ultimately show ?thesis by (simp only: set_append Un_iff simp_thms)
  qed
  from timer_check_loop_ok [OF cb inv l D R] show ?thesis
    unfolding rt_timer_check_def f by (rule ok_mono) (use R' in auto)
qed

section \<open>The tick\<close>

lemma rt_schedule_only_switched: "rt_schedule s = Some s' \<Longrightarrow> only_switched s s'"
  by (auto simp: rt_schedule_def rt_scheduler_stack_check_def Let_def RT_ASSERT_def only_switched_def
      split: if_splits option.splits Option.bind_splits)

lemma yield_frame:
  assumes "rt_thread_yield s = Some s'"
  shows "k_timers s' = k_timers s" "k_timer s' = k_timer s" "k_object s' = k_object s" "k_tick s' = k_tick s"
    "calls s' = calls s" "calm s s'"
proof -
  obtain L where q: "\<forall>h. (\<forall>p. h \<noteq> Ready p) \<longrightarrow> subseq (L h) (k_tlist s h)"
    and L: "only_switched (s\<lparr>k_tlist := L\<rparr>) s' \<and> calls s' = calls (s\<lparr>k_tlist := L\<rparr>) \<or> s' = s"
  proof (cases "thr_stat s (k_current s) = RT_THREAD_READY \<and> ready_q s (thr_prio s (k_current s)) \<noteq> [k_current s]")
    case True
    let ?L = "qs_push_back (Ready (thr_prio s (k_current s))) (k_current s) (qs_remove (k_current s) (k_tlist s))"
    have "rt_schedule (s\<lparr>k_tlist := ?L\<rparr>) = Some s'"
      using assms True by (simp add: rt_thread_yield_def Let_def)
    moreover have "\<forall>h. (\<forall>p. h \<noteq> Ready p) \<longrightarrow> subseq (?L h) (k_tlist s h)"
      by (simp add: qs_push_back_def qs_remove_def subseq_remove1)
    ultimately show thesis using rt_schedule_only_switched rt_schedule_calls that by blast
  next
    case False
    then have "s' = s" using assms by (auto simp: rt_thread_yield_def Let_def)
    with that [of "k_tlist s"] show thesis by simp
  qed
  have c: "calls (s\<lparr>k_tlist := L\<rparr>) = calls s" by (simp add: calls_def)
  show "k_timers s' = k_timers s" "k_timer s' = k_timer s" "k_object s' = k_object s" "k_tick s' = k_tick s"
    "calls s' = calls s"
    using L only_switchedD [of "s\<lparr>k_tlist := L\<rparr>" s'] c by auto
  have "calm s (s\<lparr>k_tlist := L\<rparr>)" using q by (simp add: calm_def kept_def thread_self_upd)
  from L show "calm s s'"
  proof
    assume "only_switched (s\<lparr>k_tlist := L\<rparr>) s' \<and> calls s' = calls (s\<lparr>k_tlist := L\<rparr>)"
    then have "calm (s\<lparr>k_tlist := L\<rparr>) s'" by (simp add: calm_only_switched)
    then show ?thesis by (rule calm_trans [OF \<open>calm s (s\<lparr>k_tlist := L\<rparr>)\<close>])
  qed simp
qed

lemma yield_cur_ready:
  assumes inv: "kinv s" "idle_ready s" "cur_ready s"
  shows "ok (rt_thread_yield s) cur_ready"
proof (cases "ready_q s (thr_prio s (k_current s)) = [k_current s]")
  case True
  then show ?thesis using inv(3) by (simp add: rt_thread_yield_def Let_def okr)
next
  case False
  let ?s1 = "s\<lparr>k_tlist := qs_push_back (Ready (thr_prio s (k_current s))) (k_current s)
        (qs_remove (k_current s) (k_tlist s))\<rparr>"
  have st: "thr_stat s (k_current s) = RT_THREAD_READY" using inv(3) by (simp add: cur_ready_def)
  have k1: "kinv ?s1"
  proof (rule kinvI)
    show "sched_inv ?s1"
      by (rule sched_inv_requeue [OF kinvD(1) [OF inv(1)] sched_invD(6) [OF kinvD(1) [OF inv(1)] st]]) simp_all
    show "timer_inv ?s1" by (rule timer_inv_cong [OF kinvD(2) [OF inv(1)]]) simp_all
  qed (use kinvD(3-) [OF inv(1)] in auto)
  have "rt_thread_yield s = rt_schedule ?s1"
    using False st by (simp add: rt_thread_yield_def Let_def)
  moreover have "idle_ready ?s1" "cur_ready ?s1" using inv(2) st by (simp_all add: idle_ready_def cur_ready_def)
  ultimately show ?thesis
    using ok_mono [OF schedule_ok [OF k1]] switched_cur_ready [OF k1] by metis
qed

lemma kinv_thread_cong:
  assumes inv: "kinv s" and s': "k_tlist s' = k_tlist s" "k_ready_group s' = k_ready_group s"
    "k_timers s' = k_timers s" "k_timer s' = k_timer s" "k_object s' = k_object s"
    "\<And>t. thr_stat s' t = thr_stat s t"
    "\<And>t. current_priority (k_thread s' t) = current_priority (k_thread s t)"
    "\<And>t. number_mask (k_thread s' t) = number_mask (k_thread s t)"
    "\<And>t. stack_ok (k_thread s' t) = stack_ok (k_thread s t)"
  shows "kinv s'"
proof (rule kinvI)
  show "sched_inv s'" by (rule sched_inv_thread_cong [OF kinvD(1) [OF inv]]) (simp_all add: s')
  show "timer_inv s'" by (rule timer_inv_cong [OF kinvD(2) [OF inv]]) (simp_all add: s')
qed (use kinvD(3-) [OF inv] in \<open>auto simp: s'\<close>)

lemma sint_minus_1: "- (2 ^ 31) < sint (w :: rt_tick_t) \<Longrightarrow> sint (w - 1) = sint w - 1"
proof -
  assume a: "- (2 ^ 31) < sint w"
  have "w - 1 = word_of_int (sint w - 1)" by simp
  then have "sint (w - 1) = (sint w - 1 + 2 ^ 31) mod 2 ^ 32 - 2 ^ 31"
    by (simp only: int_word_sint) simp
  also have "(sint w - 1 + 2 ^ 31) mod 2 ^ 32 = sint w - 1 + 2 ^ 31"
    using a sint_bounds(2) [of w] by (intro mod_pos_pos_trivial) auto
  finally show ?thesis by simp
qed

lemma left_tick:
  assumes "0 \<le> left s m" "k_tick s' = k_tick s + 1" "k_timer s' m = k_timer s m"
  shows "left s' m = left s m - 1"
  using sint_minus_1 [of "timeout_tick (k_timer s m) - k_tick s"] assms
  by (simp add: left_def diff_diff_eq)


lemma tick_ok:
  assumes cb: "cb_quiet cb" and inv: "kinv s" "idle_ready s" "cur_ready s" "window 0 s"
  shows "ok (rt_tick_increase cb s) (\<lambda>s'. kinv s' \<and> idle_ready s' \<and> cur_ready s' \<and> window 1 s' \<and>
    k_tick s' = k_tick s + 1 \<and>
    calls s' = calls s @ map (call_of s) (filter (\<lambda>m. left s m \<le> 1) (k_timers s Hard_list)) \<and>
    (\<forall>t. thr_stat s t = RT_THREAD_READY \<longrightarrow> thr_stat s' t = RT_THREAD_READY \<and> error (k_thread s' t) = error (k_thread s t)) \<and>
    (\<forall>t. Thread_timer t \<in> set (k_timers s Hard_list) \<and> left s (Thread_timer t) \<le> 1 \<longrightarrow> timed_out s' t) \<and> calm s s' \<and>
    (\<forall>x \<in> set (k_timers s Hard_list). 1 < left s x \<longrightarrow> x \<in> set (k_timers s' Hard_list) \<and> left s' x = left s x - 1))"
    (is "ok _ ?Q")
proof -
  let ?t = "k_current s"
  have nz: "?t \<noteq> RT_NULL" using inv(3) kinvD(3) [OF inv(1)] by (simp add: cur_ready_def)
  define th where "th = (let th = (k_thread s ?t)\<lparr>remaining_tick := remaining_tick (k_thread s ?t) - 1\<rparr>
    in if remaining_tick th = 0 then th\<lparr>remaining_tick := init_tick th\<rparr> else th)"
  define s1 where "s1 = s\<lparr>k_tick := k_tick s + 1, k_thread := (k_thread s)(?t := th)\<rparr>"
  have th: "stat th = stat (k_thread s ?t)" "current_priority th = current_priority (k_thread s ?t)"
    "number_mask th = number_mask (k_thread s ?t)" "stack_ok th = stack_ok (k_thread s ?t)"
    "error th = error (k_thread s ?t)"
    by (simp_all add: th_def Let_def stack_ok_def)
  have f1: "k_timers s1 = k_timers s" "k_timer s1 = k_timer s" "k_object s1 = k_object s" "k_tick s1 = k_tick s + 1"
    "thr_stat s1 t = thr_stat s t" "k_current s1 = ?t" "calls s1 = calls s" "error (k_thread s1 t) = error (k_thread s t)" for t
    by (simp_all add: s1_def calls_def th)
  have k1: "kinv s1" by (rule kinv_thread_cong [OF inv(1)]) (simp_all add: s1_def th)
  have "\<exists>e x r. th = (k_thread s ?t)\<lparr>error := e, stat := x, remaining_tick := r\<rparr>"
    by (cases "k_thread s ?t") (auto simp: th_def Let_def)
  then have c1: "calm s s1" by (simp add: calm_def kept_def s1_def thread_self_upd th)
  have i1: "idle_ready s1" "cur_ready s1" using inv(2,3) by (simp_all add: idle_ready_def cur_ready_def f1)
  obtain s2 where s2: "(if remaining_tick (k_thread s ?t) - 1 = 0 then rt_thread_yield s1 else Some s1) = Some s2"
    "kinv s2" "idle_ready s2" "cur_ready s2" "k_thread s2 = k_thread s1" "k_timers s2 = k_timers s"
    "k_timer s2 = k_timer s" "k_object s2 = k_object s" "k_tick s2 = k_tick s + 1" "calls s2 = calls s" "calm s1 s2"
  proof (cases "remaining_tick (k_thread s ?t) - 1 = 0")
    case True
    obtain s2 where y: "rt_thread_yield s1 = Some s2" "kinv s2" "idle_ready s2" "k_thread s2 = k_thread s1"
      "cur_ready s2"
      using yield_ok [OF k1 i1(1)] yield_cur_ready [OF k1 i1] i1(2) unfolding cur_ready_def by (auto elim!: okE)
    with yield_frame [OF y(1)] True f1 that show thesis by simp
  next
    case False
    with that [of s1] k1 i1 f1 show thesis by simp
  qed
  have left2: "left s2 m = left s m - 1" if "0 \<le> left s m" for m
    using left_tick [OF that, of s2] s2(7,9) by simp
  have bd: "- 1 \<le> left s2 m \<and> left s2 m < 2 ^ 31 - 1" if "m \<in> set (k_timers s Hard_list)" for m
    using windowD(1,2) [OF inv(4) that] left2 by simp
  have w2: "window (- 1) s2"
    unfolding window_def s2(6)
  proof (intro conjI ballI)
    show "sorted_wrt (\<lambda>a b. left s2 a \<le> left s2 b) (k_timers s Hard_list)"
      using inv(4) unfolding window_def by (auto simp: left2 elim!: sorted_wrt_mono_rel [rotated])
  qed (use windowD(3-) [OF inv(4)] bd s2(7,8) in auto)
  have eq: "rt_tick_increase cb s = rt_timer_check cb s2"
    using s2(1) nz unfolding s1_def th_def
    by (cases "remaining_tick (k_thread s ?t) = 1")
      (auto simp: rt_tick_increase_def Let_def rt_thread_self_def)
  have fl: "filter (\<lambda>m. left s2 m \<le> 0) (k_timers s Hard_list) = filter (\<lambda>m. left s m \<le> 1) (k_timers s Hard_list)"
    using windowD(1) [OF inv(4)] by (intro filter_cong) (auto simp: left2)
  have co: "call_of s2 = call_of s" by (simp add: call_of_def s2(7) fun_eq_iff)
  show ?thesis
    unfolding eq
  proof (rule ok_mono [OF check_ok [OF cb s2(2,3) w2]], unfold s2(6,9,10) fl co)
    fix s' assume a: "kinv s' \<and> idle_ready s' \<and> window 1 s' \<and> k_tick s' = k_tick s + 1 \<and>
      calls s' = calls s @ map (call_of s) (filter (\<lambda>m. left s m \<le> 1) (k_timers s Hard_list)) \<and>
      (cur_ready s2 \<longrightarrow> cur_ready s') \<and>
      (\<forall>t. thr_stat s2 t = RT_THREAD_READY \<longrightarrow> thr_stat s' t = RT_THREAD_READY \<and> error (k_thread s' t) = error (k_thread s2 t)) \<and>
    (\<forall>t. Thread_timer t \<in> set (k_timers s Hard_list) \<and> left s2 (Thread_timer t) \<le> 0 \<longrightarrow> timed_out s' t) \<and> calm s2 s' \<and>
      (\<forall>x\<in>set (k_timers s Hard_list). 0 < left s2 x \<longrightarrow> x \<in> set (k_timers s' Hard_list) \<and> k_timer s' x = k_timer s2 x)"
    have l': "left s' x = left s2 x" if "k_timer s' x = k_timer s2 x" for x
      using that a s2(9) by (simp add: left_def)
    have st: "thr_stat s2 t = thr_stat s t" "error (k_thread s2 t) = error (k_thread s t)" for t
      by (simp_all add: s2(5) f1)
    show "?Q s'"
      using a s2(4) st windowD(1) [OF inv(4)] l' left2 calm_trans [OF calm_trans [OF c1 s2(11)]] by auto
  qed
qed

section \<open>Sleeping\<close>

lemma window_remove:
  assumes "window lo s" "k_timers s' Hard_list = remove1 m (k_timers s Hard_list)" "m \<notin> set (k_timers s' Hard_list)"
    "\<And>x. x \<noteq> m \<Longrightarrow> k_timer s' x = k_timer s x" "k_tick s' = k_tick s"
    "\<And>x. x \<noteq> m \<Longrightarrow> timer_flag s' x = timer_flag s x"
  shows "window lo s'"
proof -
  have sub: "x \<in> set (k_timers s Hard_list) \<and> x \<noteq> m" if "x \<in> set (k_timers s' Hard_list)" for x
    using that assms(2,3) set_remove1_subset [of m "k_timers s Hard_list"] by auto
  have "sorted_wrt (\<lambda>a b. left s a \<le> left s b) (k_timers s' Hard_list)"
    using assms(1,2) by (simp add: window_def sorted_wrt_remove1)
  then have "sorted_wrt (\<lambda>a b. left s' a \<le> left s' b) (k_timers s' Hard_list)"
    by (rule sorted_wrt_mono_rel [rotated]) (use sub assms(4,5) in \<open>auto simp: left_def\<close>)
  moreover have "left s' x = left s x" "k_timer s' x = k_timer s x" "timer_flag s' x = timer_flag s x"
    "x \<in> set (k_timers s Hard_list)" if "x \<in> set (k_timers s' Hard_list)" for x
    using sub [OF that] assms(4-6) by (simp_all add: left_def)
  ultimately show ?thesis
    using windowD [OF assms(1)] unfolding window_def by (metis (no_types, lifting))
qed

lemma kinv_timer_cong:
  assumes inv: "kinv s" and s': "k_thread s' = k_thread s" "k_tlist s' = k_tlist s" "k_ready_group s' = k_ready_group s"
    "k_timers s' = k_timers s" "k_object s' = k_object s"
    "\<And>m. timeout_func (k_timer s' m) = timeout_func (k_timer s m)"
    "\<And>m. tm_parameter (k_timer s' m) = tm_parameter (k_timer s m)"
  shows "kinv s'"
proof (rule kinvI)
  show "sched_inv s'" by (rule sched_inv_cong [OF kinvD(1) [OF inv]]) (simp_all add: s')
  show "timer_inv s'"
    using kinvD(2) [OF inv] unfolding timer_inv_def timer_on_def thread_timer_ok_def by (simp add: s')
qed (use kinvD(3-) [OF inv] in \<open>auto simp: s'\<close>)

text \<open>
  Suspending the current thread and starting its timer, the common part of \<open>rt_thread_sleep\<close> and of the
  blocking calls of \<^verbatim>\<open>ipc.c\<close>: \<open>s1\<close> is the state after the thread has been suspended and, possibly, put
  into a queue.
\<close>

lemma arm_timer_ok:
  assumes inv: "kinv s" and t: "thr_stat s t = RT_THREAD_SUSPEND" "\<not> timer_on s (Thread_timer t)"
    and tick: "tick < RT_TICK_HALF"
  shows "ok (rt_timer_start (Thread_timer t) (snd (rt_timer_control (Thread_timer t) 0 tick s)))
    (\<lambda>s'. kinv s' \<and> k_thread s' = k_thread s \<and> k_tlist s' = k_tlist s \<and> k_current s' = k_current s \<and> kept s s' \<and>
      Thread_timer t \<in> set (k_timers s' Hard_list) \<and> left s' (Thread_timer t) = uint tick \<and>
      (window 0 s \<longrightarrow> window 0 s') \<and> (\<forall>x. x \<noteq> Thread_timer t \<longrightarrow> k_timer s' x = k_timer s x \<and>
        (\<forall>l. x \<in> set (k_timers s' l) \<longleftrightarrow> x \<in> set (k_timers s l))))"
proof -
  let ?m = "Thread_timer t"
  let ?s1 = "s\<lparr>k_timer := (k_timer s)(?m := (k_timer s ?m)\<lparr>tm_init_tick := tick\<rparr>)\<rparr>"
  have c: "snd (rt_timer_control ?m 0 tick s) = ?s1" by (simp add: rt_timer_control_def)
  have k1: "kinv ?s1" by (rule kinv_timer_cong [OF inv]) simp_all
  note T1 = kinvD(2) [OF k1]
  have tt: "thread_timer_ok ?s1 t" using timer_invD(6) [OF T1, of t] t(1) by simp
  then have soft: "timer_flag ?s1 ?m AND RT_TIMER_FLAG_SOFT_TIMER = 0"
    and per: "timer_flag ?s1 ?m AND RT_TIMER_FLAG_PERIODIC = 0" by (simp_all add: thread_timer_ok_def)
  have i: "tm_init_tick (k_timer ?s1 ?m) < RT_TICK_HALF" using tick by simp
  have eq: "rt_timer_start ?m ?s1 = Some (start_state ?m ?s1)" by (rule rt_timer_start_hard [OF T1 soft i])
  have k2: "kinv (start_state ?m ?s1)" by (rule kinv_start_state [OF k1 soft]) (use t(1) in simp)
  have L: "left (start_state ?m ?s1) ?m = uint tick" using left_start_state(1) [OF i] by simp
  have w: "window 0 (start_state ?m ?s1)" if "window 0 s"
  proof (rule window_start_state [OF T1 _ _ _ i])
    have "?m \<notin> set (k_timers s Hard_list)" using t(2) by (simp add: timer_on_def)
    then show "window 0 ?s1" by (intro window_remove [OF that, of _ ?m]) simp_all
  qed (use per in simp_all)
  have fr: "qs_free ?m (k_timers ?s1)" using t(2) by (simp add: timer_off_free)
  have mem: "x \<noteq> ?m \<Longrightarrow> x \<in> set (k_timers (start_state ?m ?s1) l) \<longleftrightarrow> x \<in> set (k_timers s l)" for x l
    using qs_remove_free [OF fr] by (simp add: start_state_timer)
  have "?m \<in> set (k_timers (start_state ?m ?s1) Hard_list)" by (simp add: start_state_timer)
  moreover have "kept s (start_state ?m ?s1)" by (simp add: kept_def start_state_timer(5))
  ultimately show ?thesis
    unfolding c eq using k2 L w mem by (simp add: okr start_state_timer(1))
qed

lemma sleep_ok:
  assumes inv: "kinv s" "idle_ready s" "cur_ready s" "window 0 s" and t: "k_current s = t" "t \<noteq> idle"
    and tick: "tick < RT_TICK_HALF"
  shows "ok (rt_thread_sleep tick s) (\<lambda>s'. kinv s' \<and> idle_ready s' \<and> window 0 s' \<and> thr_stat s' t = RT_THREAD_SUSPEND \<and>
    Thread_timer t \<in> set (k_timers s' Hard_list) \<and> left s' (Thread_timer t) = uint tick \<and>
    (k_lock_nest s = 0 \<longrightarrow> cur_ready s' \<and> k_current s' \<noteq> t))" (is "ok _ ?Q")
proof -
  have st: "thr_stat s t = RT_THREAD_READY" using inv(3) t(1) by (simp add: cur_ready_def)
  have nz: "t \<noteq> RT_NULL" by (rule kinvD(3) [OF inv(1) st])
  obtain s1 where s1: "rt_thread_suspend t s = Some (RT_EOK, s1)" "kinv s1" "frame s s1"
    "k_thread s1 = (k_thread s)(t := (k_thread s t)\<lparr>stat := RT_THREAD_SUSPEND\<rparr>)"
    "k_timers s1 = qs_remove (Thread_timer t) (k_timers s)" "\<not> timer_on s1 (Thread_timer t)"
    "\<forall>ob. ob \<noteq> Obj_timer (Thread_timer t) \<longrightarrow> k_object s1 ob = k_object s ob"
    using suspend_ok [OF inv(1) st] by (auto elim!: okE)
  note F = frameD [OF s1(3)]
  have w1: "window 0 s1"
    by (rule window_remove [OF inv(4), of _ "Thread_timer t"])
      (use s1(5-) F in \<open>auto simp: qs_remove_def timer_on_def\<close>)
  have st1: "thr_stat s1 t = RT_THREAD_SUSPEND" using s1(4) by simp
  obtain s2 where s2: "rt_timer_start (Thread_timer t) (snd (rt_timer_control (Thread_timer t) 0 tick s1)) = Some s2"
    "kinv s2" "k_thread s2 = k_thread s1" "k_tlist s2 = k_tlist s1" "k_current s2 = k_current s1"
    "kept s1 s2" "Thread_timer t \<in> set (k_timers s2 Hard_list)"
    "left s2 (Thread_timer t) = uint tick" "window 0 s1 \<longrightarrow> window 0 s2"
    using arm_timer_ok [OF s1(2) st1 s1(6) tick] by (auto elim!: okE)
  have i2: "idle_ready s2" using inv(2) t(2) by (simp add: idle_ready_def s2(3) s1(4))
  have eq: "rt_thread_sleep tick s = rt_schedule s2"
    using nz t(1) s1(1) s2(1) by (simp add: rt_thread_sleep_def Let_def)
  have "?Q s'" if sw: "switched s2 s'" for s'
  proof -
    note o = only_switchedD [OF switched_only [OF sw]]
    have k: "kinv s'" using kinv_only_switched [OF s2(2) switched_only [OF sw]] .
    have w: "window 0 s'" by (rule window_cong [of _ s2]) (use w1 s2(9) o in simp_all)
    have st': "thr_stat s' t = RT_THREAD_SUSPEND" using o s2(3) st1 by simp
    have "cur_ready s'" if l: "k_lock_nest s = 0"
    proof -
      obtain p where p: "highest s2 p" "k_current s' = hd (ready_q s2 p)"
        using sw l keptD(9) [OF s2(6)] F(3) by (auto simp: switched_def)
      then have "k_current s' \<in> set (ready_q s2 p)" by (simp add: highest_def)
      then show ?thesis using sched_invD(4) [OF kinvD(1) [OF s2(2)]] o by (fastforce simp: cur_ready_def)
    qed
    moreover have "k_current s' \<noteq> t" if "cur_ready s'" using that st' by (auto simp: cur_ready_def)
    ultimately show "?Q s'"
      using k w st' i2 o s2(7,8) idle_ready_only_switched [OF switched_only [OF sw]] by (simp add: left_def)
  qed
  with schedule_ok [OF s2(2) i2] show ?thesis unfolding eq by (rule ok_mono)
qed

text \<open>A number of ticks.\<close>

fun run_ticks :: "callback \<Rightarrow> nat \<Rightarrow> kstate \<Rightarrow> kstate option" where
  "run_ticks cb 0 s = Some s"
| "run_ticks cb (Suc n) s = do { s \<leftarrow> rt_tick_increase cb s; run_ticks cb n s }"

lemma run_ticks_ok:
  assumes cb: "cb_quiet cb"
  shows "\<lbrakk>kinv s; idle_ready s; cur_ready s; window 0 s; Thread_timer t \<in> set (k_timers s Hard_list);
      left s (Thread_timer t) = int d; 0 < d; n \<le> d\<rbrakk> \<Longrightarrow>
    ok (run_ticks cb n s) (\<lambda>s'. kinv s' \<and> idle_ready s' \<and> cur_ready s' \<and> window 0 s' \<and> calm s s' \<and>
      (if n < d then thr_stat s' t = RT_THREAD_SUSPEND else timed_out s' t))"
proof (induction n arbitrary: s d)
  case 0
  have "thr_stat s t = RT_THREAD_SUSPEND"
    using timer_invD(4) [OF kinvD(2) [OF 0(1)], of t] 0(5) by (simp add: timer_on_def)
  with 0 show ?case by (simp add: okr)
next
  case (Suc n)
  note prems = Suc.prems
  obtain s1 where s1: "rt_tick_increase cb s = Some s1" "kinv s1" "idle_ready s1" "cur_ready s1" "window 1 s1" "calm s s1"
    "left s (Thread_timer t) \<le> 1 \<longrightarrow> timed_out s1 t"
    "1 < left s (Thread_timer t) \<longrightarrow> Thread_timer t \<in> set (k_timers s1 Hard_list) \<and>
       left s1 (Thread_timer t) = left s (Thread_timer t) - 1"
    using tick_ok [OF cb prems(1-4)] prems(5) by (auto elim!: okE)
  have w: "window 0 s1" using s1(5) unfolding window_def by force
  show ?case
  proof (cases "d = 1")
    case True
    with prems(8) have "n = 0" by simp
    then show ?thesis using s1 w True prems(6) by (simp add: okr)
  next
    case False
    then have "Thread_timer t \<in> set (k_timers s1 Hard_list)" "left s1 (Thread_timer t) = int (d - 1)"
      using s1(8) prems(6,7) by auto
    from Suc.IH [OF s1(2-4) w this] prems(7,8) False
    have "ok (run_ticks cb n s1) (\<lambda>s'. kinv s' \<and> idle_ready s' \<and> cur_ready s' \<and> window 0 s' \<and> calm s1 s' \<and>
      (if n < d - 1 then thr_stat s' t = RT_THREAD_SUSPEND else timed_out s' t))" by simp
    then have "ok (run_ticks cb n s1) (\<lambda>s'. kinv s' \<and> idle_ready s' \<and> cur_ready s' \<and> window 0 s' \<and> calm s s' \<and>
      (if Suc n < d then thr_stat s' t = RT_THREAD_SUSPEND else timed_out s' t))"
      by (rule ok_mono) (use s1(6) prems(7) calm_trans in \<open>auto simp: less_diff_conv\<close>)
    then show ?thesis using s1(1) by simp
  qed
qed

section \<open>Properties\<close>

lemma sorted_takeWhile_le:
  "sorted_wrt (\<lambda>a b. (f a :: int) \<le> f b) xs \<Longrightarrow> takeWhile (\<lambda>x. f x \<le> c) xs = filter (\<lambda>x. f x \<le> c) xs"
  by (induction xs) (auto intro!: sym [OF filter_False])

lemma sorted_dropWhile_le:
  "sorted_wrt (\<lambda>a b. (f a :: int) \<le> f b) xs \<Longrightarrow> dropWhile (\<lambda>x. f x \<le> c) xs = filter (\<lambda>x. c < f x) xs"
  by (induction xs) (auto simp: not_le intro!: sym [OF filter_True])

lemma takeWhile_cong_set: "(\<And>x. x \<in> set xs \<Longrightarrow> P x = Q x) \<Longrightarrow> takeWhile P xs = takeWhile Q xs"
  by (rule takeWhile_cong) auto

lemma dropWhile_cong_set: "(\<And>x. x \<in> set xs \<Longrightarrow> P x = Q x) \<Longrightarrow> dropWhile P xs = dropWhile Q xs"
  by (rule dropWhile_cong) auto

text \<open>
  C26. Starting a hard timer puts it, in the wrap-around order of the tick counter, behind all
  timers that expire no later than it does and before those that expire later; the other timers
  keep their order, and the list stays sorted.
\<close>

theorem rt_timer_start_order:
  assumes "kinv s" "window 0 s" "timer_flag s m AND RT_TIMER_FLAG_SOFT_TIMER = 0"
    "tm_init_tick (k_timer s m) < RT_TICK_HALF" "\<forall>t. m \<noteq> Thread_timer t"
    "timeout_func (k_timer s m) \<noteq> Rt_thread_timeout"
    "timer_flag s m AND RT_TIMER_FLAG_PERIODIC = 0 \<or> 0 < tm_init_tick (k_timer s m)"
  shows "ok (rt_timer_start m s) (\<lambda>s'. kinv s' \<and> window 0 s' \<and> left s' m = uint (tm_init_tick (k_timer s m)) \<and>
    k_timers s' Hard_list =
      filter (\<lambda>x. left s x \<le> left s' m) (remove1 m (k_timers s Hard_list)) @ m #
      filter (\<lambda>x. left s' m < left s x) (remove1 m (k_timers s Hard_list)))"
proof -
  let ?s = "start_state m s" and ?q = "remove1 m (k_timers s Hard_list)"
  let ?tt = "\<lambda>t. timeout_tick (k_timer s t)" and ?new = "k_tick s + tm_init_tick (k_timer s m)"
  note T = kinvD(2) [OF assms(1)]
  have k: "kinv ?s" by (rule kinv_start_state [OF assms(1,3)]) (use assms(5) in simp)
  have w: "window 0 ?s" by (rule window_start_state [OF T assms(2) _ _ assms(4)]) (use assms(6,7) in auto)
  note L = left_start_state(1) [OF assms(4)]
  have u: "uint (tm_init_tick (k_timer s m)) < 2 ^ 31 - 1" using assms(4) by (simp add: word_less_def)
  have so: "sorted_wrt (\<lambda>a b. left s a \<le> left s b) ?q"
    using assms(2) by (simp add: window_def sorted_wrt_remove1)
  have p: "passes ?tt ?new x \<longleftrightarrow> left s x \<le> left ?s m" if "x \<in> set ?q" for x
  proof -
    have x: "x \<in> set (k_timers s Hard_list)" using that by (metis notin_set_remove1)
    have "sint (?new - k_tick s) = left ?s m" by (simp add: left_def start_state_timer)
    with passes_left [OF refl refl, of ?tt x "k_tick s" ?new] windowD(1,2) [OF assms(2) x] u L
    show ?thesis by (simp add: left_def)
  qed
  have "k_timers ?s Hard_list = takeWhile (\<lambda>x. left s x \<le> left ?s m) ?q @ m # dropWhile (\<lambda>x. left s x \<le> left ?s m) ?q"
    using takeWhile_cong_set [of ?q "passes ?tt ?new", OF p] dropWhile_cong_set [of ?q "passes ?tt ?new", OF p]
    by (simp add: start_state_timer timer_insert_split qs_remove_def)
  with k w L show ?thesis
    by (simp add: rt_timer_start_hard [OF T assms(3,4)] okr sorted_takeWhile_le [OF so] sorted_dropWhile_le [OF so])
qed

text \<open>An example: the system of \<open>demo\<close> with a one-shot timer, first stopped, then started.\<close>

definition demo_timer :: kstate where
  "demo_timer = demo\<lparr>k_timer := (k_timer demo)(Timer 7 := \<lparr>timeout_func = User_timeout 1, tm_parameter = 42,
     tm_init_tick = 0, timeout_tick = 0\<rparr>)\<rparr>"

lemma demo_window: "window lo demo" "window lo demo_timer"
  by (simp_all add: window_def demo_timer_def)

lemma demo_timer_kinv: "kinv demo_timer" "idle_ready demo_timer"
proof -
  show "kinv demo_timer"
  proof (rule kinvI)
    show "sched_inv demo_timer"
      by (rule sched_inv_cong [OF kinvD(1) [OF demo_kinv]]) (simp_all add: demo_timer_def)
    show "timer_inv demo_timer"
      using kinvD(2) [OF demo_kinv] unfolding timer_inv_def timer_on_def thread_timer_ok_def demo_timer_def by simp
  qed (use kinvD(3-) [OF demo_kinv] in \<open>auto simp: demo_timer_def split: if_splits\<close>)
  show "idle_ready demo_timer" using demo_idle by (simp add: idle_ready_def demo_timer_def)
qed

lemma demo_timer_sel [simp]:
  "timer_flag demo_timer m = 0" "k_timer demo_timer (Timer 7) = \<lparr>timeout_func = User_timeout 1, tm_parameter = 42,
     tm_init_tick = 0, timeout_tick = 0\<rparr>" "k_timers demo_timer = (\<lambda>_. [])" "k_tick demo_timer = 100"
  by (simp_all add: demo_timer_def k_reset_def)

theorem rt_timer_start_order_witness:
  "ok (rt_timer_start (Timer 7) demo_timer) (\<lambda>s'. kinv s' \<and> window 0 s' \<and>
    left s' (Timer 7) = uint (tm_init_tick (k_timer demo_timer (Timer 7))) \<and>
    k_timers s' Hard_list =
      filter (\<lambda>x. left demo_timer x \<le> left s' (Timer 7)) (remove1 (Timer 7) (k_timers demo_timer Hard_list)) @ Timer 7 #
      filter (\<lambda>x. left s' (Timer 7) < left demo_timer x) (remove1 (Timer 7) (k_timers demo_timer Hard_list)))"
  by (rule rt_timer_start_order [OF demo_timer_kinv(1) demo_window(2)]) simp_all


lemma quiet_none: "cb_quiet (\<lambda>f p. Some)"
  by (simp add: cb_quiet_def okr quiet_def)

lemma demo_running: "kinv (start_state (Timer 7) demo_timer)" "idle_ready (start_state (Timer 7) demo_timer)"
  "window (- 1) (start_state (Timer 7) demo_timer)"
proof -
  show "kinv (start_state (Timer 7) demo_timer)" by (rule kinv_start_state [OF demo_timer_kinv(1)]) simp_all
  show "idle_ready (start_state (Timer 7) demo_timer)" using demo_timer_kinv(2) by (simp add: idle_ready_def)
  show "window (- 1) (start_state (Timer 7) demo_timer)"
    by (rule window_start_state [OF kinvD(2) [OF demo_timer_kinv(1)] demo_window(2)]) simp_all
qed




end
