(* ===== verification/Ipc.thy ===== *)
theory Ipc
  imports Timeout
begin

text \<open>
  The functions of \<^verbatim>\<open>src/ipc.c\<close> that all IPC objects share: waiting in the queue of an object, in the
  order of arrival or of priority, with or without a timeout, and waking one or all of its threads.

  A call that may block is split where it gives up the processor. The first part ends with the call
  of the scheduler and has the result \<open>Waiting\<close>; the second, whose name ends in \<open>_resume\<close>, runs when the
  scheduler returns to the thread. A call that does not block has the result \<open>Returned\<close>.
\<close>

section \<open>Operations\<close>

abbreviation (input) RT_IPC_FLAG_FIFO :: rt_uint8_t where "RT_IPC_FLAG_FIFO \<equiv> 0"
abbreviation (input) RT_IPC_FLAG_PRIO :: rt_uint8_t where "RT_IPC_FLAG_PRIO \<equiv> 1"
abbreviation (input) RT_IPC_CMD_RESET :: rt_uint8_t where "RT_IPC_CMD_RESET \<equiv> 1"

datatype outcome = Returned rt_err_t | Waiting

definition rt_ipc_object_init :: "lhead \<Rightarrow> kstate \<Rightarrow> kstate" where
  "rt_ipc_object_init h = upd_tlist (qs_init h)"

text \<open>The place of a thread in a queue ordered by priority: before the first that is less urgent.\<close>

fun prio_insert :: "(tid \<Rightarrow> rt_uint8_t) \<Rightarrow> tid \<Rightarrow> tid list \<Rightarrow> tid list" where
  "prio_insert prio t [] = [t]"
| "prio_insert prio t (x # xs) = (if prio t < prio x then t # x # xs else x # prio_insert prio t xs)"

text \<open>A flag that is neither \<^verbatim>\<open>RT_IPC_FLAG_FIFO\<close> nor \<^verbatim>\<open>RT_IPC_FLAG_PRIO\<close> matches no case of the \<^verbatim>\<open>switch\<close>.\<close>

definition wait_insert :: "rt_uint8_t \<Rightarrow> (tid \<Rightarrow> rt_uint8_t) \<Rightarrow> tid \<Rightarrow> tid list \<Rightarrow> tid list" where
  "wait_insert flag prio t q =
     (if flag = RT_IPC_FLAG_FIFO then q @ [t]
      else if flag = RT_IPC_FLAG_PRIO then prio_insert prio t q
      else q)"

definition rt_ipc_list_suspend :: "lhead \<Rightarrow> tid \<Rightarrow> rt_uint8_t \<Rightarrow> kstate \<Rightarrow> kstate option" where
  "rt_ipc_list_suspend h t flag s = do {
     (_, s) \<leftarrow> rt_thread_suspend t s;
     Some (upd_tlist (\<lambda>q. q(h := wait_insert flag (\<lambda>x. current_priority (k_thread s x)) t (q h))) s)
   }"

definition rt_ipc_list_resume :: "lhead \<Rightarrow> kstate \<Rightarrow> kstate option" where
  "rt_ipc_list_resume h s =
     (case k_tlist s h of [] \<Rightarrow> None | t # _ \<Rightarrow> do { (_, s) \<leftarrow> rt_thread_resume t s; Some s })"

partial_function (option) rt_ipc_list_resume_all :: "lhead \<Rightarrow> kstate \<Rightarrow> kstate option" where
  "rt_ipc_list_resume_all h s =
     (case k_tlist s h of
        [] \<Rightarrow> Some s
      | t # _ \<Rightarrow> do {
          let s = upd_thread t (error_update (\<lambda>_. - RT_ERROR)) s;
          (_, s) \<leftarrow> rt_thread_resume t s;
          rt_ipc_list_resume_all h s
        })"

text \<open>
  The sequence with which every blocking call puts the calling thread to sleep: into the queue, and
  with a positive time also into the timer list.
\<close>

definition arm_thread :: "tid \<Rightarrow> rt_int32_t \<Rightarrow> kstate \<Rightarrow> kstate option" where
  "arm_thread t time s =
     (if 0 <s time
      then rt_timer_start (Thread_timer t) (snd (rt_timer_control (Thread_timer t) 0 time s))
      else Some s)"

definition ipc_wait :: "lhead \<Rightarrow> tid \<Rightarrow> rt_uint8_t \<Rightarrow> rt_int32_t \<Rightarrow> kstate \<Rightarrow> kstate option" where
  "ipc_wait h t flag time s = do {
     s \<leftarrow> rt_ipc_list_suspend h t flag s;
     arm_thread t time s
   }"

text \<open>
  The time that is left of a timeout when a thread is woken before its end, as the loops of the mailbox and the
  message queue compute it.
\<close>

definition time_left :: "rt_int32_t \<Rightarrow> rt_tick_t \<Rightarrow> rt_tick_t \<Rightarrow> rt_int32_t" where
  "time_left timeout tick_delta now =
     (if 0 <s timeout then
        let tick_delta = now - tick_delta; timeout = timeout - tick_delta
        in if timeout <s 0 then 0 else timeout
      else timeout)"

section \<open>Queues of suspended threads\<close>

lemma set_prio_insert [simp]: "set (prio_insert prio t xs) = insert t (set xs)"
  by (induction xs) auto

lemma prio_insert_split: "\<exists>ys zs. xs = ys @ zs \<and> prio_insert prio t xs = ys @ t # zs"
proof (induction xs)
  case (Cons x xs)
  then obtain ys zs where "xs = ys @ zs" "prio_insert prio t xs = ys @ t # zs" by blast
  then show ?case
    by (cases "prio t < prio x") (auto intro: exI [of _ "[]"] exI [of _ "x # ys"])
qed simp

lemma wait_insert_split:
  "flag \<in> {RT_IPC_FLAG_FIFO, RT_IPC_FLAG_PRIO} \<Longrightarrow> \<exists>ys zs. q = ys @ zs \<and> wait_insert flag prio t q = ys @ t # zs"
  using prio_insert_split [of q prio t] by (auto simp: wait_insert_def)

lemma qs_wf_insert_at:
  assumes "qs_wf L" "qs_free n L" "L h = ys @ zs"
  shows "qs_wf (L(h := ys @ n # zs))"
proof -
  have "distinct (ys @ zs)" "n \<notin> set (ys @ zs)" using assms by (auto simp: qs_wf_def qs_free_def simp flip: assms(3))
  moreover have "set (ys @ n # zs) \<inter> set (L l) = {}" if "l \<noteq> h" for l
  proof -
    have "set (L h) \<inter> set (L l) = {}" "n \<notin> set (L l)" using assms(1,2) that [symmetric] by (simp_all add: qs_wf_def qs_free_def)
    then show ?thesis by (auto simp: assms(3))
  qed
  ultimately show ?thesis using assms(1) by (auto simp: qs_wf_def)
qed

lemma sched_inv_link:
  assumes inv: "sched_inv s" and t: "qs_free t (k_tlist s)" "t \<noteq> RT_NULL" "thr_stat s t = head_stat h"
    "\<And>p. h \<noteq> Ready p" and q: "k_tlist s h = ys @ zs"
    and s': "k_thread s' = k_thread s" "k_tlist s' = (k_tlist s)(h := ys @ t # zs)"
      "k_ready_group s' = k_ready_group s"
  shows "sched_inv s'"
proof -
  note D = sched_invD [OF inv]
  have rq: "ready_q s' q = ready_q s q" for q using t(4) [of q] by (auto simp: s'(2))
  show ?thesis
  proof (rule sched_invI)
    show "qs_wf (k_tlist s')"
      unfolding s' using D(1) t(1) q by (rule qs_wf_insert_at)
    show "t' \<noteq> RT_NULL \<and> thr_stat s' t' = head_stat h'" if "t' \<in> set (k_tlist s' h')" for t' h'
      using that D(3,4) [of t' h'] t(2,3) by (auto simp: s' q split: if_splits)
  qed (use D in \<open>auto simp: s'(1,3) rq\<close>)
qed

text \<open>Suspending a thread into any place of a queue.\<close>

definition list_suspend :: "lhead \<Rightarrow> tid \<Rightarrow> (tid list \<Rightarrow> tid list) \<Rightarrow> kstate \<Rightarrow> kstate option" where
  "list_suspend h t ins s = do {
     (_, s) \<leftarrow> rt_thread_suspend t s;
     Some (upd_tlist (\<lambda>q. q(h := ins (q h))) s)
   }"

lemma list_suspend_ok:
  assumes inv: "kinv s" and t: "thr_stat s t = RT_THREAD_READY"
    and h: "head_stat h = RT_THREAD_SUSPEND" "\<exists>ys zs. k_tlist s h = ys @ zs \<and> ins (k_tlist s h) = ys @ t # zs"
  shows "ok (list_suspend h t ins s) (\<lambda>s'. kinv s' \<and> kept s s' \<and> k_current s' = k_current s \<and>
    k_thread s' = (k_thread s)(t := (k_thread s t)\<lparr>stat := RT_THREAD_SUSPEND\<rparr>) \<and>
    k_tlist s' = (qs_remove t (k_tlist s))(h := ins (k_tlist s h)) \<and>
    k_timers s' = k_timers s \<and> k_timer s' = k_timer s \<and> \<not> timer_on s' (Thread_timer t) \<and>
    (window lo s \<longrightarrow> window lo s'))"
proof -
  note S = kinvD(1) [OF inv] and T = kinvD(2) [OF inv]
  obtain s1 where s1: "rt_thread_suspend t s = Some (RT_EOK, s1)" "kinv s1" "frame s s1"
    "k_thread s1 = (k_thread s)(t := (k_thread s t)\<lparr>stat := RT_THREAD_SUSPEND\<rparr>)"
    "k_tlist s1 = qs_remove t (k_tlist s)" "qs_free t (k_tlist s1)"
    "k_timers s1 = qs_remove (Thread_timer t) (k_timers s)" "\<not> timer_on s1 (Thread_timer t)"
    "\<forall>ob. ob \<noteq> Obj_timer (Thread_timer t) \<longrightarrow> k_object s1 ob = k_object s ob"
    using suspend_ok [OF inv t] by (auto elim: okE)
  let ?q = "(qs_remove t (k_tlist s))(h := ins (k_tlist s h))"
  let ?s = "s1\<lparr>k_tlist := ?q\<rparr>"
  have off: "\<not> timer_on s (Thread_timer t)" using timer_invD(4) [OF T, of t] t by auto
  then have tms: "k_timers s1 = k_timers s" unfolding s1(7) by (simp add: qs_remove_free timer_off_free)
  have "t \<notin> set (k_tlist s h)" using sched_invD(4) [OF S, of t h] t h(1) by auto
  then have hq: "qs_remove t (k_tlist s) h = k_tlist s h" by (simp add: qs_remove_def)
  have eq: "list_suspend h t ins s = Some ?s"
    by (simp add: list_suspend_def s1(1,5) hq)
  obtain ys zs where q: "k_tlist s h = ys @ zs"
    "ins (k_tlist s h) = ys @ t # zs"
    using h(2) by blast
  have "kinv ?s"
  proof (rule kinvI)
    show "sched_inv ?s"
      by (rule sched_inv_link [OF kinvD(1) [OF s1(2)] s1(6) kinvD(3) [OF inv t], where h = h and ys = ys and zs = zs])
        (use h q in \<open>auto simp: s1(4,5) hq\<close>)
    show "timer_inv ?s" by (rule timer_inv_cong [OF kinvD(2) [OF s1(2)]]) simp_all
  qed (use kinvD(3-) [OF s1(2)] in auto)
  moreover have "kept s ?s" using s1(3,9) by (auto simp: kept_def frameD)
  moreover have "window lo ?s" if "window lo s"
  proof (rule window_cong [OF that])
    show "timer_flag ?s m AND RT_TIMER_FLAG_PERIODIC = timer_flag s m AND RT_TIMER_FLAG_PERIODIC"
      if "m \<in> set (k_timers s Hard_list)" for m
      using s1(9) off that by (cases "m = Thread_timer t") (auto simp: timer_on_def)
  qed (simp_all add: tms frameD [OF s1(3)])
  moreover have "\<not> timer_on ?s (Thread_timer t)" using s1(8) by (simp add: timer_on_def)
  ultimately show ?thesis by (simp add: eq okr s1(4) tms frameD [OF s1(3)])
qed

lemma ipc_list_suspend_eq:
  assumes "kinv s" "thr_stat s t = RT_THREAD_READY"
  shows "rt_ipc_list_suspend h t flag s = list_suspend h t (wait_insert flag (\<lambda>x. current_priority (k_thread s x)) t) s"
proof -
  obtain s1 where s1: "rt_thread_suspend t s = Some (RT_EOK, s1)" "k_thread s1 = (k_thread s)(t := (k_thread s t)\<lparr>stat := RT_THREAD_SUSPEND\<rparr>)"
    using suspend_ok [OF assms] by (auto elim: okE)
  have "(\<lambda>x. current_priority (k_thread s1 x)) = (\<lambda>x. current_priority (k_thread s x))" by (auto simp: s1(2))
  then show ?thesis by (simp add: rt_ipc_list_suspend_def list_suspend_def s1(1) del: upd_tlist_def)
qed

section \<open>Rescheduling\<close>

lemma resched_ok:
  assumes inv: "kinv s" "idle_ready s"
  shows "ok (rt_schedule s) (\<lambda>s'. kinv s' \<and> idle_ready s' \<and> only_switched s s' \<and>
    (k_lock_nest s = 0 \<longrightarrow> cur_ready s' \<and> (\<exists>p. highest s' p \<and> k_current s' = hd (ready_q s' p))) \<and>
    (k_lock_nest s \<noteq> 0 \<longrightarrow> s' = s) \<and> (cur_ready s \<longrightarrow> cur_ready s') \<and> (window lo s \<longrightarrow> window lo s'))" (is "ok _ ?Q")
proof -
  have "?Q s'" if sw: "switched s s'" for s'
  proof -
    note o = only_switchedD [OF switched_only [OF sw]]
    have c: "cur_ready s'" if l: "k_lock_nest s = 0"
    proof -
      obtain p where p: "highest s p" "k_current s' = hd (ready_q s p)" using sw l by (auto simp: switched_def)
      then have "k_current s' \<in> set (ready_q s p)" by (simp add: highest_def)
      then show ?thesis using sched_invD(4) [OF kinvD(1) [OF inv(1)]] o by (fastforce simp: cur_ready_def)
    qed
    have h: "highest s' p = highest s p" for p by (simp add: highest_def o)
    have "window lo s'" if "window lo s" by (rule window_cong [OF that]) (simp_all add: o)
    then show ?thesis
      using kinv_only_switched [OF inv(1) switched_only [OF sw]] idle_ready_only_switched [OF switched_only [OF sw]] inv(2)
        switched_only [OF sw] c sw h o by (cases "k_lock_nest s = 0") (auto simp: switched_def)
  qed
  with schedule_ok [OF inv] show ?thesis by (rule ok_mono)
qed

section \<open>Waiting\<close>

lemma sint_of_nat: "n < 2 ^ 31 \<Longrightarrow> sint (of_nat n :: rt_int32_t) = int n"
  using sint_small [of "of_nat n"] by (simp add: unsigned_of_nat take_bit_nat_eq_self)

lemma signed_pos: "0 <s (time :: rt_int32_t) \<Longrightarrow> uint time = sint time"
  using sint_bounds [of time] by (simp add: word_sless_alt uint_sint take_bit_int_eq_self)

lemma arm_thread_ok:
  assumes inv: "kinv s" and t: "thr_stat s t = RT_THREAD_SUSPEND" "\<not> timer_on s (Thread_timer t)" and time: "time \<noteq> 0x7fffffff"
  shows "ok (arm_thread t time s) (\<lambda>s'. kinv s' \<and> kept s s' \<and> k_current s' = k_current s \<and> k_thread s' = k_thread s \<and> k_tlist s' = k_tlist s \<and>
    (window 0 s \<longrightarrow> window 0 s') \<and>
    (if 0 <s time then Thread_timer t \<in> set (k_timers s' Hard_list) \<and> left s' (Thread_timer t) = sint time
     else \<not> timer_on s' (Thread_timer t)))"
proof (cases "0 <s time")
  case True
  have "sint time \<noteq> 2 ^ 31 - 1"
  proof
    assume "sint time = 2 ^ 31 - 1"
    then have "(word_of_int (sint time) :: rt_int32_t) = word_of_int (2 ^ 31 - 1)" by simp
    with time show False by simp
  qed
  then have "time < RT_TICK_HALF"
    using sint_bounds(2) [of time] signed_pos [OF True] by (simp add: word_less_def)
  note A = arm_timer_ok [OF inv _ t(2) this]
  show ?thesis
    by (simp add: arm_thread_def True) (rule ok_mono [OF A], use t(1) True signed_pos in auto)
next
  case False
  with inv t(2) show ?thesis by (simp add: arm_thread_def okr kept_refl)
qed

text \<open>
  Suspending a thread at any place of a queue, with or without a timeout. The counter that a memory pool keeps of its waiting threads
  is changed in between; the other classes change nothing there.
\<close>

lemma list_wait_ok:
  assumes inv: "kinv s" and t: "thr_stat s t = RT_THREAD_READY"
    and h: "head_stat h = RT_THREAD_SUSPEND" "\<exists>ys zs. k_tlist s h = ys @ zs \<and> ins (k_tlist s h) = ys @ t # zs"
    and time: "time \<noteq> 0x7fffffff"
  shows "ok (do { s \<leftarrow> list_suspend h t ins s; arm_thread t time (s\<lparr>k_mp := g (k_mp s)\<rparr>) }) (\<lambda>s'.
    kinv s' \<and> kept (s\<lparr>k_mp := g (k_mp s)\<rparr>) s' \<and> k_current s' = k_current s \<and>
    k_thread s' = (k_thread s)(t := (k_thread s t)\<lparr>stat := RT_THREAD_SUSPEND\<rparr>) \<and>
    k_tlist s' = (qs_remove t (k_tlist s))(h := ins (k_tlist s h)) \<and> (window 0 s \<longrightarrow> window 0 s') \<and>
    (if 0 <s time then Thread_timer t \<in> set (k_timers s' Hard_list) \<and> left s' (Thread_timer t) = sint time
     else \<not> timer_on s' (Thread_timer t)))"
proof -
  obtain s1 where s1: "list_suspend h t ins s = Some s1" "kinv s1" "kept s s1" "k_current s1 = k_current s"
    "k_thread s1 = (k_thread s)(t := (k_thread s t)\<lparr>stat := RT_THREAD_SUSPEND\<rparr>)"
    "k_tlist s1 = (qs_remove t (k_tlist s))(h := ins (k_tlist s h))"
    "\<not> timer_on s1 (Thread_timer t)" "window 0 s \<longrightarrow> window 0 s1"
    using list_suspend_ok [where ins = ins and lo = 0, OF inv t h] by (auto elim!: okE)
  let ?s = "s1\<lparr>k_mp := g (k_mp s1)\<rparr>"
  have k: "kinv ?s" by (rule kinv_thread_cong [OF s1(2)]) simp_all
  have w: "window 0 ?s" if "window 0 s1" by (rule window_cong [OF that]) simp_all
  have kp: "kept (s\<lparr>k_mp := g (k_mp s)\<rparr>) ?s" using s1(3) by (simp add: kept_def)
  have off: "\<not> timer_on ?s (Thread_timer t)" and st: "thr_stat ?s t = RT_THREAD_SUSPEND" using s1(5,7) by (simp_all add: timer_on_def)
  show ?thesis
    unfolding s1(1) bind.bind_lunit
    by (rule ok_mono [OF arm_thread_ok [OF k st off time]]) (use s1(4-6,8) w kept_trans [OF kp] in auto)
qed

lemma ipc_wait_ok:
  assumes inv: "kinv s" and t: "thr_stat s t = RT_THREAD_READY"
    and h: "head_stat h = RT_THREAD_SUSPEND" "flag \<in> {RT_IPC_FLAG_FIFO, RT_IPC_FLAG_PRIO}"
    and time: "time \<noteq> 0x7fffffff"
  shows "ok (ipc_wait h t flag time s) (\<lambda>s'. kinv s' \<and> kept s s' \<and> k_current s' = k_current s \<and>
    k_thread s' = (k_thread s)(t := (k_thread s t)\<lparr>stat := RT_THREAD_SUSPEND\<rparr>) \<and>
    k_tlist s' = (qs_remove t (k_tlist s))(h := wait_insert flag (\<lambda>x. current_priority (k_thread s x)) t (k_tlist s h)) \<and>
    (window 0 s \<longrightarrow> window 0 s') \<and>
    (if 0 <s time then Thread_timer t \<in> set (k_timers s' Hard_list) \<and> left s' (Thread_timer t) = sint time
     else \<not> timer_on s' (Thread_timer t)))"
  using list_wait_ok [where ins = "wait_insert flag (\<lambda>x. current_priority (k_thread s x)) t" and g = "\<lambda>x. x",
      OF inv t h(1) wait_insert_split [OF h(2)] time]
  by (simp add: ipc_wait_def ipc_list_suspend_eq [OF inv t])

section \<open>Waking\<close>

lemma list_resume_ok:
  assumes inv: "kinv s" and q: "k_tlist s h = t # ts" and h: "head_stat h = RT_THREAD_SUSPEND"
  shows "ok (rt_ipc_list_resume h s) (\<lambda>s'. kinv s' \<and> kept s s' \<and> k_current s' = k_current s \<and>
    k_thread s' = (k_thread s)(t := (k_thread s t)\<lparr>stat := RT_THREAD_READY\<rparr>) \<and>
    k_tlist s' = qs_push_back (Ready (thr_prio s t)) t ((k_tlist s)(h := ts)) \<and>
    \<not> timer_on s' (Thread_timer t) \<and> (window lo s \<longrightarrow> window lo s'))"
proof -
  note S = kinvD(1) [OF inv]
  have st: "thr_stat s t = RT_THREAD_SUSPEND" using sched_invD(4) [OF S, of t h] q h by simp
  obtain s1 where s1: "rt_thread_resume t s = Some (RT_EOK, s1)" "kinv s1" "frame s s1"
    "k_thread s1 = (k_thread s)(t := (k_thread s t)\<lparr>stat := RT_THREAD_READY\<rparr>)"
    "k_tlist s1 = qs_push_back (Ready (thr_prio s t)) t (qs_remove t (k_tlist s))"
    "k_timers s1 = qs_remove (Thread_timer t) (k_timers s)" "\<not> timer_on s1 (Thread_timer t)"
    "\<forall>ob. ob \<noteq> Obj_timer (Thread_timer t) \<longrightarrow> k_object s1 ob = k_object s ob"
    using resume_ok [OF inv st] by (auto elim!: okE)
  have r: "qs_remove t (k_tlist s) = (k_tlist s)(h := ts)"
    using qs_remove_at [OF sched_invD(1) [OF S], of t h] q by simp
  have k: "kept s s1" by (rule kept_frame [OF s1(3)]) (use s1(8) in simp)
  have "window lo s1" if "window lo s"
    by (rule window_remove [OF that, of _ "Thread_timer t"])
      (use s1(6-8) in \<open>auto simp: frameD [OF s1(3)] qs_remove_def timer_on_def\<close>)
  with s1 k show ?thesis by (simp add: rt_ipc_list_resume_def q okr r frameD [OF s1(3)])
qed

lemma resume_all_ok:
  assumes "kinv s" "k_tlist s h = ts" "head_stat h = RT_THREAD_SUSPEND"
  shows "ok (rt_ipc_list_resume_all h s) (\<lambda>s'. kinv s' \<and> kept s s' \<and> k_current s' = k_current s \<and>
    k_thread s' = (\<lambda>t. if t \<in> set ts then (k_thread s t)\<lparr>error := - RT_ERROR, stat := RT_THREAD_READY\<rparr> else k_thread s t) \<and>
    k_tlist s' h = [] \<and> (\<forall>h'. (\<forall>p. h' \<noteq> Ready p) \<and> h' \<noteq> h \<longrightarrow> k_tlist s' h' = k_tlist s h') \<and>
    (window lo s \<longrightarrow> window lo s'))"
  using assms
proof (induction ts arbitrary: s)
  case Nil
  then show ?case by (subst rt_ipc_list_resume_all.simps) (simp add: okr)
next
  case (Cons t ts)
  let ?s1 = "s\<lparr>k_thread := (k_thread s)(t := (k_thread s t)\<lparr>error := - RT_ERROR\<rparr>)\<rparr>"
  have k1: "kinv ?s1" by (rule kinv_thread_cong [OF Cons.prems(1)]) (simp_all add: stack_ok_def)
  have w1: "window lo ?s1" if "window lo s" by (rule window_cong [OF that]) simp_all
  obtain s2 where s2: "rt_ipc_list_resume h ?s1 = Some s2" "kinv s2" "kept ?s1 s2" "k_current s2 = k_current s"
    "k_thread s2 = (k_thread s)(t := (k_thread s t)\<lparr>error := - RT_ERROR, stat := RT_THREAD_READY\<rparr>)"
    "k_tlist s2 = qs_push_back (Ready (thr_prio s t)) t ((k_tlist s)(h := ts))" "window lo ?s1 \<longrightarrow> window lo s2"
    using list_resume_ok [OF k1, of h t ts lo] Cons.prems(2,3) by (auto elim!: okE)
  have eq: "rt_ipc_list_resume_all h s = rt_ipc_list_resume_all h s2"
    using s2(1) Cons.prems(2)
    by (subst rt_ipc_list_resume_all.simps) (auto simp: rt_ipc_list_resume_def split: Option.bind_splits)
  have q: "k_tlist s2 h = ts" using Cons.prems(3) by (auto simp: s2(6) qs_push_back_def)
  have nin: "t \<notin> set ts"
    using qs_wfD(1) [OF sched_invD(1) [OF kinvD(1) [OF Cons.prems(1)]], of h] Cons.prems(2) by simp
  have ks: "kept s s2" using s2(3) by (simp add: kept_def)
  show ?case
    unfolding eq
    by (rule ok_mono [OF Cons.IH [OF s2(2) q Cons.prems(3)]])
      (use nin ks kept_trans s2(5,6,7) w1 in \<open>auto simp: s2(4) qs_push_back_def fun_eq_iff\<close>)
qed

section \<open>The system between operations\<close>

text \<open>
  What holds whenever a thread runs with the scheduler unlocked: the kernel invariant, the idle
  thread is ready, the running thread is ready, no timer is overdue.
\<close>

definition sys :: "kstate \<Rightarrow> bool" where
  "sys s \<longleftrightarrow> kinv s \<and> idle_ready s \<and> cur_ready s \<and> window 0 s"

lemma sysD:
  assumes "sys s"
  shows "kinv s" "idle_ready s" "cur_ready s" "window 0 s" "thr_stat s (k_current s) = RT_THREAD_READY"
    "k_current s \<noteq> RT_NULL"
  using assms kinvD(3) [of s "k_current s"] by (auto simp: sys_def cur_ready_def)

lemma sys_cong:
  assumes "k_tlist s' = k_tlist s" "k_ready_group s' = k_ready_group s" "k_timers s' = k_timers s"
    "k_timer s' = k_timer s" "k_object s' = k_object s" "k_tick s' = k_tick s" "k_current s' = k_current s"
    "\<And>t. thr_stat s' t = thr_stat s t"
    "\<And>t. current_priority (k_thread s' t) = current_priority (k_thread s t)"
    "\<And>t. number_mask (k_thread s' t) = number_mask (k_thread s t)"
    "\<And>t. stack_ok (k_thread s' t) = stack_ok (k_thread s t)"
  shows "sys s' = sys s"
proof -
  have k: "kinv s' = kinv s"
    by (rule iffI; erule kinv_thread_cong) (simp_all add: assms)
  have w: "window 0 s' = window 0 s"
    by (rule iffI; erule window_cong) (simp_all add: assms)
  show ?thesis by (simp add: sys_def k w idle_ready_def cur_ready_def assms)
qed

lemma sys_simps [simp]:
  "sys (s\<lparr>k_trace := tr\<rparr>) = sys s" "sys (s\<lparr>k_sem := a\<rparr>) = sys s" "sys (s\<lparr>k_mutex := b\<rparr>) = sys s"
  "sys (s\<lparr>k_event := c\<rparr>) = sys s" "sys (s\<lparr>k_mb := d\<rparr>) = sys s" "sys (s\<lparr>k_mq := f\<rparr>) = sys s"
  "sys (s\<lparr>k_mp := g\<rparr>) = sys s" "sys (s\<lparr>k_word := h\<rparr>) = sys s" "sys (s\<lparr>k_errno := i\<rparr>) = sys s"
  "sys (s\<lparr>k_lock_nest := j\<rparr>) = sys s" "sys (s\<lparr>k_container := k\<rparr>) = sys s"
  by (rule sys_cong; simp)+

lemma sys_thread [simp]:
  assumes "k_thread s' = k_thread s"
  shows "sys (s'\<lparr>k_thread := (k_thread s)(t := (k_thread s t)\<lparr>error := e\<rparr>)\<rparr>) = sys s'"
    "sys (s'\<lparr>k_thread := (k_thread s)(t := (k_thread s t)\<lparr>error := e, event_set := w, event_info := x\<rparr>)\<rparr>) = sys s'"
    "sys (s'\<lparr>k_thread := (k_thread s)(t := (k_thread s t)\<lparr>event_set := w\<rparr>)\<rparr>) = sys s'"
  by (rule sys_cong; simp add: stack_ok_def assms)+

lemma kinv_object:
  assumes "kinv s" "\<And>m. ob \<noteq> Obj_timer m"
  shows "kinv (s\<lparr>k_object := (k_object s)(ob := x)\<rparr>)"
proof (rule kinvI)
  show "sched_inv (s\<lparr>k_object := (k_object s)(ob := x)\<rparr>)" by (rule sched_inv_cong [OF kinvD(1) [OF assms(1)]]) simp_all
  show "timer_inv (s\<lparr>k_object := (k_object s)(ob := x)\<rparr>)"
    using kinvD(2) [OF assms(1)] assms(2) [symmetric] by (simp add: timer_inv_def timer_on_def thread_timer_ok_def)
qed (use kinvD(3-) [OF assms(1)] in auto)

lemma sys_object [simp]:
  assumes "\<And>m. ob \<noteq> Obj_timer m" "k_object s' = k_object s"
  shows "sys (s'\<lparr>k_object := (k_object s)(ob := x)\<rparr>) = sys s'"
proof -
  let ?s = "\<lambda>s x. s\<lparr>k_object := (k_object s)(ob := x)\<rparr>"
  have w: "window 0 (?s s' x) = window 0 s'"
    by (rule iffI; erule window_cong) (simp_all add: assms(1) [symmetric])
  have "kinv (?s s' x) = kinv s'"
  proof
    assume "kinv (?s s' x)"
    from kinv_object [OF this assms(1), of "k_object s' ob"] show "kinv s'" by simp
  qed (rule kinv_object [OF _ assms(1)])
  then show ?thesis by (simp add: sys_def w idle_ready_def cur_ready_def flip: assms(2))
qed

lemma sys_resched:
  assumes "kinv s" "idle_ready s" "window 0 s" "k_lock_nest s = 0 \<or> cur_ready s"
  shows "ok (rt_schedule s) (\<lambda>s'. sys s' \<and> only_switched s s' \<and>
    (k_lock_nest s = 0 \<longrightarrow> (\<exists>p. highest s' p \<and> k_current s' = hd (ready_q s' p))) \<and> (k_lock_nest s \<noteq> 0 \<longrightarrow> s' = s))"
  by (rule ok_mono [OF resched_ok [OF assms(1,2), of 0]]) (use assms(3,4) in \<open>auto simp: sys_def\<close>)

text \<open>Blocking: the thread ends up suspended in the queue, and another thread runs.\<close>

lemma list_block_ok:
  assumes inv: "sys s" and t: "k_current s = t" "t \<noteq> idle"
    and h: "head_stat h = RT_THREAD_SUSPEND" "\<exists>ys zs. k_tlist s h = ys @ zs \<and> ins (k_tlist s h) = ys @ t # zs"
    and time: "time \<noteq> 0x7fffffff" and l: "k_lock_nest s = 0"
  shows "ok (do { s \<leftarrow> do { s \<leftarrow> list_suspend h t ins s; arm_thread t time (s\<lparr>k_mp := g (k_mp s)\<rparr>) }; rt_schedule s }) (\<lambda>s'. sys s' \<and> kept (s\<lparr>k_mp := g (k_mp s)\<rparr>) s' \<and> k_current s' \<noteq> t \<and>
    k_thread s' = (k_thread s)(t := (k_thread s t)\<lparr>stat := RT_THREAD_SUSPEND\<rparr>) \<and>
    k_tlist s' = (qs_remove t (k_tlist s))(h := ins (k_tlist s h)) \<and>
    (\<exists>p. highest s' p \<and> k_current s' = hd (ready_q s' p)) \<and>
    (if 0 <s time then Thread_timer t \<in> set (k_timers s' Hard_list) \<and> left s' (Thread_timer t) = sint time
     else \<not> timer_on s' (Thread_timer t)))" (is "ok _ ?Q")
proof -
  note D = sysD [OF inv]
  obtain s1 where s1: "do { s \<leftarrow> list_suspend h t ins s; arm_thread t time (s\<lparr>k_mp := g (k_mp s)\<rparr>) } = Some s1" "kinv s1" "kept (s\<lparr>k_mp := g (k_mp s)\<rparr>) s1" "k_current s1 = k_current s"
    "k_thread s1 = (k_thread s)(t := (k_thread s t)\<lparr>stat := RT_THREAD_SUSPEND\<rparr>)"
    "k_tlist s1 = (qs_remove t (k_tlist s))(h := ins (k_tlist s h))"
    "window 0 s1" "if 0 <s time then Thread_timer t \<in> set (k_timers s1 Hard_list) \<and> left s1 (Thread_timer t) = sint time
     else \<not> timer_on s1 (Thread_timer t)"
    using list_wait_ok [where ins = ins and g = g, OF D(1) D(5) [unfolded t(1)] h time] D(4) by (elim okE) blast
  have i: "idle_ready s1" using D(2) t(2) by (simp add: idle_ready_def s1(5))
  have l1: "k_lock_nest s1 = 0" using l keptD(9) [OF s1(3)] by simp
  have "?Q s'" if sw: "sys s'" "only_switched s1 s'" "\<exists>p. highest s' p \<and> k_current s' = hd (ready_q s' p)" for s'
  proof -
    note o = only_switchedD [OF sw(2)]
    have "k_current s' \<noteq> t" using sysD(5) [OF sw(1)] by (auto simp: o s1(5))
    moreover have "kept (s\<lparr>k_mp := g (k_mp s)\<rparr>) s'" using kept_trans [OF s1(3) kept_only_switched [OF sw(2)]] .
    ultimately show ?thesis using sw(1,3) s1(5,6,8) by (simp add: o timer_on_def left_def split: if_splits)
  qed
  then have q: "sys s' \<Longrightarrow> only_switched s1 s' \<Longrightarrow> \<exists>p. highest s' p \<and> k_current s' = hd (ready_q s' p) \<Longrightarrow> ?Q s'" for s' .
  show ?thesis
    unfolding s1(1) bind.bind_lunit
    by (rule ok_mono [OF sys_resched [OF s1(2) i s1(7)]], use l1 in blast, rule q) (use l1 in blast)+
qed

lemma block_ok:
  assumes inv: "sys s" and t: "k_current s = t" "t \<noteq> idle"
    and h: "head_stat h = RT_THREAD_SUSPEND" "flag \<in> {RT_IPC_FLAG_FIFO, RT_IPC_FLAG_PRIO}"
    and time: "time \<noteq> 0x7fffffff" and l: "k_lock_nest s = 0"
  shows "ok (do { s \<leftarrow> ipc_wait h t flag time s; rt_schedule s }) (\<lambda>s'. sys s' \<and> kept s s' \<and> k_current s' \<noteq> t \<and>
    k_thread s' = (k_thread s)(t := (k_thread s t)\<lparr>stat := RT_THREAD_SUSPEND\<rparr>) \<and>
    k_tlist s' = (qs_remove t (k_tlist s))(h := wait_insert flag (\<lambda>x. current_priority (k_thread s x)) t (k_tlist s h)) \<and>
    (\<exists>p. highest s' p \<and> k_current s' = hd (ready_q s' p)) \<and>
    (if 0 <s time then Thread_timer t \<in> set (k_timers s' Hard_list) \<and> left s' (Thread_timer t) = sint time
     else \<not> timer_on s' (Thread_timer t)))"
  using list_block_ok [where ins = "wait_insert flag (\<lambda>x. current_priority (k_thread s x)) t" and g = "\<lambda>x. x",
      OF inv t h(1) wait_insert_split [OF h(2)] time l]
  by (simp add: ipc_wait_def ipc_list_suspend_eq [OF sysD(1) [OF inv] sysD(5) [OF inv, unfolded t(1)]])

text \<open>Waking: the first thread of the queue, or all of them, become ready.\<close>

lemma sys_wake:
  assumes inv: "sys s" and q: "k_tlist s h = t # ts" and h: "head_stat h = RT_THREAD_SUSPEND"
  shows "ok (rt_ipc_list_resume h s) (\<lambda>s'. sys s' \<and> kept s s' \<and> k_current s' = k_current s \<and>
    k_thread s' = (k_thread s)(t := (k_thread s t)\<lparr>stat := RT_THREAD_READY\<rparr>) \<and>
    k_tlist s' = qs_push_back (Ready (thr_prio s t)) t ((k_tlist s)(h := ts)) \<and> \<not> timer_on s' (Thread_timer t))"
proof -
  note D = sysD [OF inv]
  show ?thesis
    by (rule ok_mono [OF list_resume_ok [OF D(1) q h, of 0]])
      (use D in \<open>auto simp: sys_def idle_ready_def cur_ready_def\<close>)
qed

lemma wake_ok:
  assumes inv: "sys s" and q: "k_tlist s h = t # ts" and h: "head_stat h = RT_THREAD_SUSPEND"
  shows "ok (do { s \<leftarrow> rt_ipc_list_resume h s; rt_schedule s }) (\<lambda>s'. sys s' \<and> kept s s' \<and>
    k_thread s' = (k_thread s)(t := (k_thread s t)\<lparr>stat := RT_THREAD_READY\<rparr>) \<and>
    k_tlist s' = qs_push_back (Ready (thr_prio s t)) t ((k_tlist s)(h := ts)) \<and> \<not> timer_on s' (Thread_timer t) \<and>
    (k_lock_nest s = 0 \<longrightarrow> (\<exists>p. highest s' p \<and> k_current s' = hd (ready_q s' p))) \<and>
    (k_lock_nest s \<noteq> 0 \<longrightarrow> k_current s' = k_current s))" (is "ok _ ?Q")
proof -
  obtain s1 where s1: "rt_ipc_list_resume h s = Some s1" "sys s1" "kept s s1" "k_current s1 = k_current s"
    "k_thread s1 = (k_thread s)(t := (k_thread s t)\<lparr>stat := RT_THREAD_READY\<rparr>)"
    "k_tlist s1 = qs_push_back (Ready (thr_prio s t)) t ((k_tlist s)(h := ts))" "\<not> timer_on s1 (Thread_timer t)"
    using sys_wake [OF assms] by (auto elim!: okE)
  note D = sysD [OF s1(2)] and k = keptD(9) [OF s1(3)]
  have "?Q s'" if "sys s' \<and> only_switched s1 s' \<and>
      (k_lock_nest s1 = 0 \<longrightarrow> (\<exists>p. highest s' p \<and> k_current s' = hd (ready_q s' p))) \<and> (k_lock_nest s1 \<noteq> 0 \<longrightarrow> s' = s1)" for s'
    using that only_switchedD [of s1 s'] kept_trans [OF s1(3) kept_only_switched, of s'] s1(4-7)
    by (auto simp: k timer_on_def)
  with sys_resched [OF D(1,2,4)] D(3) show ?thesis
    unfolding s1(1) bind.bind_lunit by (blast intro: ok_mono)
qed

text \<open>A waiting thread is made ready, whatever its place in the queue.\<close>

lemma sys_resume:
  assumes inv: "sys s" and q: "t \<in> set (k_tlist s h)" and h: "head_stat h = RT_THREAD_SUSPEND"
  shows "ok (rt_thread_resume t s) (\<lambda>(r, s'). r = RT_EOK \<and> sys s' \<and> kept s s' \<and> k_current s' = k_current s \<and>
    k_thread s' = (k_thread s)(t := (k_thread s t)\<lparr>stat := RT_THREAD_READY\<rparr>) \<and>
    k_tlist s' h = remove1 t (k_tlist s h) \<and> (\<forall>h'. (\<forall>p. h' \<noteq> Ready p) \<and> h' \<noteq> h \<longrightarrow> k_tlist s' h' = k_tlist s h'))"
proof -
  note D = sysD [OF inv] and S = kinvD(1) [OF sysD(1) [OF inv]]
  have st: "thr_stat s t = RT_THREAD_SUSPEND" using sched_invD(4) [OF S q] h by simp
  obtain s1 where s1: "rt_thread_resume t s = Some (RT_EOK, s1)" "kinv s1" "frame s s1"
    "k_thread s1 = (k_thread s)(t := (k_thread s t)\<lparr>stat := RT_THREAD_READY\<rparr>)"
    "k_tlist s1 = qs_push_back (Ready (thr_prio s t)) t (qs_remove t (k_tlist s))"
    "k_timers s1 = qs_remove (Thread_timer t) (k_timers s)" "\<not> timer_on s1 (Thread_timer t)"
    "\<forall>ob. ob \<noteq> Obj_timer (Thread_timer t) \<longrightarrow> k_object s1 ob = k_object s ob"
    using resume_ok [OF D(1) st] by (auto elim!: okE)
  have k: "kept s s1" by (rule kept_frame [OF s1(3)]) (use s1(8) in simp)
  have w: "window 0 s1"
    by (rule window_remove [OF D(4), of _ "Thread_timer t"])
      (use s1(6-8) in \<open>auto simp: frameD [OF s1(3)] qs_remove_def timer_on_def\<close>)
  have c: "k_current s1 = k_current s" by (simp add: frameD [OF s1(3)])
  have "sys s1" using D(2,3) s1(2,4) w by (auto simp: sys_def idle_ready_def cur_ready_def c)
  moreover have "t \<notin> set (k_tlist s h')" if "h' \<noteq> h" for h' using qs_wfD(2) [OF sched_invD(1) [OF S] q] that by auto
  ultimately show ?thesis using k h by (auto simp: s1(1,4,5) c ok_Some qs_push_back_def qs_remove_def)
qed

lemma sys_wake_all:
  assumes inv: "sys s" and q: "k_tlist s h = ts" and h: "head_stat h = RT_THREAD_SUSPEND"
  shows "ok (rt_ipc_list_resume_all h s) (\<lambda>s'. sys s' \<and> kept s s' \<and> k_current s' = k_current s \<and>
    k_thread s' = (\<lambda>t. if t \<in> set ts then (k_thread s t)\<lparr>error := - RT_ERROR, stat := RT_THREAD_READY\<rparr> else k_thread s t) \<and>
    k_tlist s' h = [] \<and> (\<forall>h'. (\<forall>p. h' \<noteq> Ready p) \<and> h' \<noteq> h \<longrightarrow> k_tlist s' h' = k_tlist s h'))"
proof -
  note D = sysD [OF inv]
  show ?thesis
    by (rule ok_mono [OF resume_all_ok [OF D(1) q h, of 0]])
      (use D in \<open>auto simp: sys_def idle_ready_def cur_ready_def\<close>)
qed

lemma subseq_setD: "subseq xs ys \<Longrightarrow> x \<in> set xs \<Longrightarrow> x \<in> set ys"
  by (induction rule: list_emb.induct) auto

lemma sorted_wrt_subseq: "subseq xs ys \<Longrightarrow> sorted_wrt P ys \<Longrightarrow> sorted_wrt P xs"
  by (induction rule: list_emb.induct) (auto dest: subseq_setD)

text \<open>A thread that is still in a queue of waiting threads after some ticks has no new error.\<close>

lemma calm_waiting:
  assumes "calm s s'" "kinv s'" "t \<in> set (k_tlist s' h)" "head_stat h = RT_THREAD_SUSPEND"
  shows "t \<in> set (k_tlist s h)" "error (k_thread s' t) = error (k_thread s t)"
proof -
  have "\<forall>p. h \<noteq> Ready p" using assms(4) by auto
  from subseq_setD [OF calmD(15) [OF assms(1) this] assms(3)] show "t \<in> set (k_tlist s h)" .
  have "thr_stat s' t = RT_THREAD_SUSPEND" using sched_invD(4) [OF kinvD(1) [OF assms(2)] assms(3)] assms(4) by simp
  then show "error (k_thread s' t) = error (k_thread s t)" by (rule calmD(17) [OF assms(1)])
qed

lemma set_wait_insert:
  "flag \<in> {RT_IPC_FLAG_FIFO, RT_IPC_FLAG_PRIO} \<Longrightarrow> set (wait_insert flag prio t q) = insert t (set q)"
  by (auto simp: wait_insert_def)

section \<open>Classes of IPC objects\<close>

text \<open>
  Semaphores, mutexes, events and message queues are taken out of service in the same way: all
  waiting threads are woken with an error, then the object is detached or deleted.
\<close>

definition set_obj_flag :: "obj_ref \<Rightarrow> rt_uint8_t \<Rightarrow> kstate \<Rightarrow> kstate" where
  "set_obj_flag ob flag = upd_object ob (\<lambda>x. x\<lparr>obj_flag := flag\<rparr>)"

text \<open>What the waiting threads see when the object goes away.\<close>

definition all_woken :: "lhead \<Rightarrow> kstate \<Rightarrow> kstate \<Rightarrow> bool" where
  "all_woken h s s' \<longleftrightarrow> k_tlist s' h = [] \<and>
     (\<forall>t \<in> set (k_tlist s h). thr_stat s' t = RT_THREAD_READY \<and> error (k_thread s' t) = - RT_ERROR) \<and>
     (\<forall>t. t \<notin> set (k_tlist s h) \<longrightarrow> k_thread s' t = k_thread s t) \<and>
     (\<forall>h'. (\<forall>p. h' \<noteq> Ready p) \<and> h' \<noteq> h \<longrightarrow> k_tlist s' h' = k_tlist s h')"

lemma resume_all_woken:
  assumes "sys s" "head_stat h = RT_THREAD_SUSPEND"
  shows "ok (rt_ipc_list_resume_all h s) (\<lambda>s'. sys s' \<and> kept s s' \<and> k_current s' = k_current s \<and> all_woken h s s')"
  by (rule ok_mono [OF sys_wake_all [OF assms(1) refl assms(2)]]) (auto simp: all_woken_def)

text \<open>
  What a completed transfer does to the threads: the first of the threads that wait at \<open>h\<close>, if any, becomes ready, and nothing
  else of the threads changes.
\<close>

definition woke_first :: "lhead \<Rightarrow> kstate \<Rightarrow> kstate \<Rightarrow> bool" where
  "woke_first h s s' \<longleftrightarrow>
     (case k_tlist s h of
        [] \<Rightarrow> k_tlist s' = k_tlist s \<and> k_thread s' = k_thread s
      | t # ts \<Rightarrow> k_tlist s' = qs_push_back (Ready (thr_prio s t)) t ((k_tlist s)(h := ts)) \<and>
          k_thread s' = (k_thread s)(t := (k_thread s t)\<lparr>stat := RT_THREAD_READY\<rparr>) \<and>
          (k_lock_nest s = 0 \<longrightarrow> (\<exists>p. highest s' p \<and> k_current s' = hd (ready_q s' p))))"

lemma woke_firstD:
  assumes "woke_first h s s'"
  shows "(\<forall>p. h' \<noteq> Ready p) \<Longrightarrow> k_tlist s' h' = (if h' = h then tl (k_tlist s h) else k_tlist s h')"
    "error (k_thread s' t) = error (k_thread s t)"
    "k_tlist s h = t # ts \<Longrightarrow> thr_stat s' t = RT_THREAD_READY"
  using assms by (auto simp: woke_first_def qs_push_back_def split: list.splits if_splits)

lemma woke_first_cong:
  "k_tlist s1 = k_tlist s \<Longrightarrow> k_thread s1 = k_thread s \<Longrightarrow> k_lock_nest s1 = k_lock_nest s \<Longrightarrow> woke_first h s1 s' = woke_first h s s'"
  by (simp add: woke_first_def cong: list.case_cong)

lemma ipc_wake:
  assumes "sys s" "head_stat h = RT_THREAD_SUSPEND"
  shows "ok (if k_tlist s h \<noteq> [] then do { s \<leftarrow> rt_ipc_list_resume h s; rt_schedule s } else Some s)
    (\<lambda>s'. sys s' \<and> kept s s' \<and> woke_first h s s')"
proof (cases "k_tlist s h")
  case Nil
  then show ?thesis using assms(1) by (simp add: ok_Some woke_first_def kept_refl)
next
  case (Cons t ts)
  have n: "k_tlist s h \<noteq> []" using Cons by simp
  show ?thesis
    unfolding if_P [OF n]
    by (rule ok_mono [OF wake_ok [OF assms(1) Cons assms(2)]]) (unfold woke_first_def Cons list.case, blast)
qed

text \<open>What every call that has to wait does to the threads: the caller sleeps at \<open>h\<close>, and another thread runs.\<close>

definition waits_at :: "lhead \<Rightarrow> rt_uint8_t \<Rightarrow> kstate \<Rightarrow> kstate \<Rightarrow> bool" where
  "waits_at h flag s s' \<longleftrightarrow> thr_stat s' (k_current s) = RT_THREAD_SUSPEND \<and> k_current s' \<noteq> k_current s \<and>
     error (k_thread s' (k_current s)) = RT_EOK \<and>
     k_tlist s' h = wait_insert flag (\<lambda>x. current_priority (k_thread s x)) (k_current s) (k_tlist s h)"

lemma ipc_waits:
  assumes inv: "sys s" and t: "k_current s = t" "t \<noteq> idle" "k_lock_nest s = 0" and h: "head_stat h = RT_THREAD_SUSPEND"
    and f: "flag \<in> {RT_IPC_FLAG_FIFO, RT_IPC_FLAG_PRIO}" and time: "timeout \<noteq> 0x7fffffff"
  shows "ok (do { s \<leftarrow> ipc_wait h t flag timeout (s\<lparr>k_thread := (k_thread s)(t := (k_thread s t)\<lparr>error := RT_EOK\<rparr>)\<rparr>); rt_schedule s })
    (\<lambda>s'. sys s' \<and> kept s s' \<and> waits_at h flag s s' \<and>
      k_thread s' = (k_thread s)(t := (k_thread s t)\<lparr>error := RT_EOK, stat := RT_THREAD_SUSPEND\<rparr>) \<and>
      (\<forall>h'. (\<forall>p. h' \<noteq> Ready p) \<longrightarrow> k_tlist s' h' =
         (if h' = h then wait_insert flag (\<lambda>x. current_priority (k_thread s x)) t (k_tlist s h) else k_tlist s h')))"
proof -
  let ?s = "s\<lparr>k_thread := (k_thread s)(t := (k_thread s t)\<lparr>error := RT_EOK\<rparr>)\<rparr>"
  have S: "sys ?s" using inv by simp
  have pr: "(\<lambda>x. current_priority (k_thread ?s x)) = (\<lambda>x. current_priority (k_thread s x))" by auto
  obtain s' where s': "do { s \<leftarrow> ipc_wait h t flag timeout ?s; rt_schedule s } = Some s'" "sys s'" "kept ?s s'" "k_current s' \<noteq> t"
    "k_thread s' = (k_thread s)(t := (k_thread s t)\<lparr>error := RT_EOK, stat := RT_THREAD_SUSPEND\<rparr>)"
    "k_tlist s' = (qs_remove t (k_tlist ?s))(h := wait_insert flag (\<lambda>x. current_priority (k_thread ?s x)) t (k_tlist ?s h))"
    using block_ok [OF S _ t(2) h f time] t(1,3) by (auto elim!: okE)
  have k: "kept s s'" using s'(3) by (simp add: kept_def)
  have r: "t \<notin> set (k_tlist s h')" if "\<forall>p. h' \<noteq> Ready p" for h'
    using sched_invD(4) [OF kinvD(1) [OF sysD(1) [OF inv]], of t h'] sysD(5) [OF inv] t(1) that by (cases h') auto
  have q: "k_tlist s' h' = (if h' = h then wait_insert flag (\<lambda>x. current_priority (k_thread s x)) t (k_tlist s h) else k_tlist s h')"
    if "\<forall>p. h' \<noteq> Ready p" for h'
    using r [OF that] unfolding s'(6) pr by (simp add: qs_remove_def)
  have "\<forall>p. h \<noteq> Ready p" using h by auto
  then have "waits_at h flag s s'" using q [of h] s'(4,5) t(1) by (simp add: waits_at_def)
  then show ?thesis unfolding s'(1) ok_Some using s'(2,5) k q by blast
qed

locale ipc_class =
  fixes obj :: "nat \<Rightarrow> obj_ref"
    and detach delete :: "nat \<Rightarrow> kstate \<Rightarrow> kstate option"
    and frees :: "nat \<Rightarrow> kstate \<Rightarrow> kevent list"
  assumes detach_eq: "detach i s = do {
      RT_ASSERT (i \<noteq> RT_NULL);
      s \<leftarrow> rt_ipc_list_resume_all (Suspend (obj i)) s;
      Some (rt_object_detach (obj i) s)
    }"
    and delete_eq: "delete i s = do {
      RT_DEBUG_NOT_IN_INTERRUPT s;
      RT_ASSERT (i \<noteq> RT_NULL);
      s \<leftarrow> rt_ipc_list_resume_all (Suspend (obj i)) s;
      rt_object_delete (obj i) (s\<lparr>k_trace := frees i s @ k_trace s\<rparr>)
    }"
    and not_timer: "obj i \<noteq> Obj_timer m"
begin

lemma detach_wakes:
  assumes "sys s" "i \<noteq> RT_NULL"
  shows "ok (detach i s) (\<lambda>s'. sys s' \<and> all_woken (Suspend (obj i)) s s' \<and>
    k_container s' = qs_remove (obj i) (k_container s))"
  unfolding detach_eq
  using ok_mono [OF resume_all_woken [OF assms(1), of "Suspend (obj i)"]] assms(2)
  by (simp add: okr rt_object_detach_def all_woken_def kept_def)

lemma delete_wakes:
  assumes "sys s" "i \<noteq> RT_NULL" "k_interrupt_nest s = 0"
    "obj_type (k_object s (obj i)) AND RT_Object_Class_Static = 0"
  shows "ok (delete i s) (\<lambda>s'. sys s' \<and> all_woken (Suspend (obj i)) s s' \<and>
    k_container s' = qs_remove (obj i) (k_container s) \<and> Kernel_free (obj i) \<in> set (k_trace s'))"
  unfolding delete_eq RT_DEBUG_NOT_IN_INTERRUPT_def
  using ok_mono [OF resume_all_woken [OF assms(1), of "Suspend (obj i)"]] assms(2-4) not_timer
  by (simp add: okr rt_object_delete_def all_woken_def kept_def)

end

section \<open>An example\<close>

lemma reset_object [simp]: "obj_flag (k_object k_reset ob) = 0" "obj_type (k_object k_reset ob) = 0"
  by (simp_all add: k_reset_def)

lemma demo_sys: "sys demo"
  using demo_kinv demo_idle demo_window(1) by (simp add: sys_def cur_ready_def)

end
