(* ===== verification/Semaphore.thy ===== *)
theory Semaphore
  imports Ipc
begin

text \<open>
  Semaphores, \<^verbatim>\<open>rt_sem_*\<close> of \<^verbatim>\<open>src/ipc.c\<close>. The queue of a semaphore is \<open>k_tlist s (Suspend (Obj_sem i))\<close>, its
  counter, 16 bits wide, \<open>sem_value (k_sem s i)\<close>.
\<close>

section \<open>Operations\<close>

definition upd_sem :: "nat \<Rightarrow> (rt_uint16_t \<Rightarrow> rt_uint16_t) \<Rightarrow> kstate \<Rightarrow> kstate" where
  "upd_sem i f s = s\<lparr>k_sem := (k_sem s)(i := (k_sem s i)\<lparr>sem_value := f (sem_value (k_sem s i))\<rparr>)\<rparr>"

definition rt_sem_init :: "nat \<Rightarrow> cstr \<Rightarrow> rt_uint32_t \<Rightarrow> rt_uint8_t \<Rightarrow> kstate \<Rightarrow> kstate option" where
  "rt_sem_init i name value flag s = do {
     RT_ASSERT (i \<noteq> RT_NULL);
     let s = rt_object_init (Obj_sem i) RT_Object_Class_Semaphore name s;
     let s = rt_ipc_object_init (Suspend (Obj_sem i)) s;
     let s = upd_sem i (\<lambda>_. ucast value) s;
     Some (set_obj_flag (Obj_sem i) flag s)
   }"

definition rt_sem_detach :: "nat \<Rightarrow> kstate \<Rightarrow> kstate option" where
  "rt_sem_detach i s = do {
     RT_ASSERT (i \<noteq> RT_NULL);
     s \<leftarrow> rt_ipc_list_resume_all (Suspend (Obj_sem i)) s;
     Some (rt_object_detach (Obj_sem i) s)
   }"

definition rt_sem_create ::
  "nat option \<Rightarrow> cstr \<Rightarrow> rt_uint32_t \<Rightarrow> rt_uint8_t \<Rightarrow> kstate \<Rightarrow> (nat option \<times> kstate) option" where
  "rt_sem_create mem name value flag s = do {
     RT_DEBUG_NOT_IN_INTERRUPT s;
     (_, s) \<leftarrow> rt_object_allocate (map_option Obj_sem mem) RT_Object_Class_Semaphore name s;
     case mem of
       None \<Rightarrow> Some (None, s)
     | Some i \<Rightarrow>
         let s = rt_ipc_object_init (Suspend (Obj_sem i)) s;
             s = upd_sem i (\<lambda>_. ucast value) s
         in Some (Some i, set_obj_flag (Obj_sem i) flag s)
   }"

definition rt_sem_delete :: "nat \<Rightarrow> kstate \<Rightarrow> kstate option" where
  "rt_sem_delete i s = do {
     RT_DEBUG_NOT_IN_INTERRUPT s;
     RT_ASSERT (i \<noteq> RT_NULL);
     s \<leftarrow> rt_ipc_list_resume_all (Suspend (Obj_sem i)) s;
     rt_object_delete (Obj_sem i) s
   }"

definition rt_sem_take :: "nat \<Rightarrow> rt_int32_t \<Rightarrow> kstate \<Rightarrow> (outcome \<times> kstate) option" where
  "rt_sem_take i time s = do {
     RT_ASSERT (i \<noteq> RT_NULL);
     let s = emit (Hook_trytake (Obj_sem i)) s;
     if 0 < sem_value (k_sem s i)
     then Some (Returned RT_EOK, emit (Hook_take (Obj_sem i)) (upd_sem i (\<lambda>v. v - 1) s))
     else if time = 0 then Some (Returned (- RT_ETIMEOUT), s)
     else do {
       RT_DEBUG_IN_THREAD_CONTEXT s;
       let t = rt_thread_self s;
       let s = upd_thread t (error_update (\<lambda>_. RT_EOK)) s;
       s \<leftarrow> ipc_wait (Suspend (Obj_sem i)) t (obj_flag (k_object s (Obj_sem i))) time s;
       s \<leftarrow> rt_schedule s;
       Some (Waiting, s)
     }
   }"

definition rt_sem_take_resume :: "nat \<Rightarrow> tid \<Rightarrow> kstate \<Rightarrow> rt_err_t \<times> kstate" where
  "rt_sem_take_resume i t s =
     (if error (k_thread s t) \<noteq> RT_EOK then (error (k_thread s t), s)
      else (RT_EOK, emit (Hook_take (Obj_sem i)) s))"

definition rt_sem_trytake :: "nat \<Rightarrow> kstate \<Rightarrow> (outcome \<times> kstate) option" where
  "rt_sem_trytake i s = rt_sem_take i 0 s"

definition rt_sem_release :: "nat \<Rightarrow> kstate \<Rightarrow> kstate option" where
  "rt_sem_release i s =
     (let s = emit (Hook_put (Obj_sem i)) s
      in if k_tlist s (Suspend (Obj_sem i)) \<noteq> [] then do {
           s \<leftarrow> rt_ipc_list_resume (Suspend (Obj_sem i)) s;
           rt_schedule s
         }
         else Some (upd_sem i (\<lambda>v. v + 1) s))"

definition rt_sem_control :: "nat \<Rightarrow> rt_uint8_t \<Rightarrow> rt_uint32_t \<Rightarrow> kstate \<Rightarrow> (rt_err_t \<times> kstate) option" where
  "rt_sem_control i cmd arg s = do {
     RT_ASSERT (i \<noteq> RT_NULL);
     if cmd = RT_IPC_CMD_RESET then do {
       s \<leftarrow> rt_ipc_list_resume_all (Suspend (Obj_sem i)) s;
       let s = upd_sem i (\<lambda>_. ucast arg) s;
       s \<leftarrow> rt_schedule s;
       Some (RT_EOK, s)
     } else Some (- RT_ERROR, s)
   }"

section \<open>The abstract semaphore\<close>

text \<open>
  The contract: a counter and a queue of waiting threads, of which at most one is not zero or empty.
  A release serves the first waiting thread or counts up, modulo the width of the counter.
\<close>

type_synonym asem = "nat \<times> tid list"

definition sem_abs :: "nat \<Rightarrow> kstate \<Rightarrow> asem" where
  "sem_abs i s = (unat (sem_value (k_sem s i)), k_tlist s (Suspend (Obj_sem i)))"

fun asem_take :: "(tid list \<Rightarrow> tid list) \<Rightarrow> bool \<Rightarrow> asem \<Rightarrow> asem" where
  "asem_take enqueue wait (v, q) = (if 0 < v then (v - 1, q) else if wait then (v, enqueue q) else (v, q))"

fun asem_release :: "asem \<Rightarrow> asem" where
  "asem_release (v, []) = ((v + 1) mod 2 ^ 16, [])"
| "asem_release (v, t # q) = (v, q)"

definition sem_inv :: "nat \<Rightarrow> kstate \<Rightarrow> bool" where
  "sem_inv i s \<longleftrightarrow> i \<noteq> RT_NULL \<and> obj_flag (k_object s (Obj_sem i)) \<in> {RT_IPC_FLAG_FIFO, RT_IPC_FLAG_PRIO} \<and>
     (0 < sem_value (k_sem s i) \<longrightarrow> k_tlist s (Suspend (Obj_sem i)) = []) \<and>
     (\<forall>t \<in> set (k_tlist s (Suspend (Obj_sem i))). error (k_thread s t) = RT_EOK)"

lemma sem_invD:
  assumes "sem_inv i s"
  shows "i \<noteq> RT_NULL" "obj_flag (k_object s (Obj_sem i)) \<in> {RT_IPC_FLAG_FIFO, RT_IPC_FLAG_PRIO}"
    "0 < sem_value (k_sem s i) \<Longrightarrow> k_tlist s (Suspend (Obj_sem i)) = []"
    "t \<in> set (k_tlist s (Suspend (Obj_sem i))) \<Longrightarrow> error (k_thread s t) = RT_EOK"
  using assms by (simp_all add: sem_inv_def)

text \<open>Ticks, and whatever else only wakes threads, keep the invariant.\<close>

lemma sem_inv_calm:
  assumes "sem_inv i s" "calm s s'" "kinv s'"
  shows "sem_inv i s'"
proof -
  have "subseq (k_tlist s' (Suspend (Obj_sem i))) (k_tlist s (Suspend (Obj_sem i)))"
    by (rule calmD(15) [OF assms(2)]) simp
  moreover have "error (k_thread s' t) = RT_EOK" if "t \<in> set (k_tlist s' (Suspend (Obj_sem i)))" for t
    using calm_waiting [OF assms(2,3) that] sem_invD(4) [OF assms(1)] by simp
  ultimately show ?thesis
    using assms(1) by (auto simp: sem_inv_def calmD(1,13) [OF assms(2)])
qed

section \<open>Taking\<close>

lemma sem_take_available:
  assumes "i \<noteq> RT_NULL" "0 < sem_value (k_sem s i)"
  shows "\<exists>s'. rt_sem_take i time s = Some (Returned RT_EOK, s') \<and> (sys s \<longrightarrow> sys s') \<and> k_current s' = k_current s \<and>
    k_thread s' = k_thread s \<and> k_tlist s' = k_tlist s \<and> k_object s' = k_object s \<and>
    k_sem s' = (k_sem s)(i := (k_sem s i)\<lparr>sem_value := sem_value (k_sem s i) - 1\<rparr>)"
  using assms by (simp add: rt_sem_take_def upd_sem_def Let_def)

lemma sem_take_blocks:
  assumes inv: "sys s" "sem_inv i s" and t: "k_current s = t" "t \<noteq> idle" "k_lock_nest s = 0" "k_interrupt_nest s = 0"
    and v: "sem_value (k_sem s i) = 0" and time: "time \<noteq> 0" "time \<noteq> 0x7fffffff"
  shows "ok (rt_sem_take i time s) (\<lambda>(r, s'). r = Waiting \<and> sys s' \<and> kept s s' \<and> k_current s' \<noteq> t \<and>
    k_thread s' = (k_thread s)(t := (k_thread s t)\<lparr>error := RT_EOK, stat := RT_THREAD_SUSPEND\<rparr>) \<and>
    k_tlist s' = (qs_remove t (k_tlist s))(Suspend (Obj_sem i) :=
       wait_insert (obj_flag (k_object s (Obj_sem i))) (\<lambda>x. current_priority (k_thread s x)) t
         (k_tlist s (Suspend (Obj_sem i)))) \<and>
    (if 0 <s time then Thread_timer t \<in> set (k_timers s' Hard_list) \<and> left s' (Thread_timer t) = sint time
     else \<not> timer_on s' (Thread_timer t)))"
proof -
  let ?s = "s\<lparr>k_trace := Hook_trytake (Obj_sem i) # k_trace s, k_thread := (k_thread s)(t := (k_thread s t)\<lparr>error := RT_EOK\<rparr>)\<rparr>"
  let ?h = "Suspend (Obj_sem i)" and ?f = "obj_flag (k_object s (Obj_sem i))"
  have S: "sys ?s" using inv(1) by (subst sys_cong [of _ s]) (simp_all add: stack_ok_def)
  have pr: "current_priority (if x = t then (k_thread s t)\<lparr>error := RT_EOK\<rparr> else k_thread s x) = current_priority (k_thread s x)" for x
    by simp
  have eq: "rt_sem_take i time s = do { s \<leftarrow> do { s \<leftarrow> ipc_wait ?h t ?f time ?s; rt_schedule s }; Some (Waiting, s) }"
    using sem_invD(1) [OF inv(2)] v time(1) t sysD(6) [OF inv(1)]
    by (simp add: rt_sem_take_def Let_def RT_DEBUG_IN_THREAD_CONTEXT_def RT_DEBUG_NOT_IN_INTERRUPT_def rt_thread_self_def)
  have B: "ok (do { s \<leftarrow> ipc_wait ?h t ?f time ?s; rt_schedule s }) (\<lambda>s'. sys s' \<and> kept ?s s' \<and> k_current s' \<noteq> t \<and>
    k_thread s' = (k_thread ?s)(t := (k_thread ?s t)\<lparr>stat := RT_THREAD_SUSPEND\<rparr>) \<and>
    k_tlist s' = (qs_remove t (k_tlist ?s))(?h := wait_insert ?f (\<lambda>x. current_priority (k_thread ?s x)) t (k_tlist ?s ?h)) \<and>
    (\<exists>p. highest s' p \<and> k_current s' = hd (ready_q s' p)) \<and>
    (if 0 <s time then Thread_timer t \<in> set (k_timers s' Hard_list) \<and> left s' (Thread_timer t) = sint time
     else \<not> timer_on s' (Thread_timer t)))"
    by (rule block_ok [OF S]) (use t sem_invD(2) [OF inv(2)] time in auto)
  show ?thesis
    unfolding eq ok_bind [of "do { s \<leftarrow> ipc_wait ?h t ?f time ?s; rt_schedule s }"] ok_Some prod.case
    by (rule ok_mono [OF B]) (auto simp: kept_def pr)
qed

lemma sem_take_ok:
  assumes "sys s" "sem_inv i s" "k_current s \<noteq> idle" "k_lock_nest s = 0" "k_interrupt_nest s = 0" "time \<noteq> 0x7fffffff"
  shows "ok (rt_sem_take i time s) (\<lambda>(r, s'). sys s' \<and> sem_inv i s' \<and>
    sem_abs i s' = asem_take (wait_insert (obj_flag (k_object s (Obj_sem i))) (\<lambda>x. current_priority (k_thread s x)) (k_current s))
      (time \<noteq> 0) (sem_abs i s) \<and>
    r = (if 0 < fst (sem_abs i s) then Returned RT_EOK else if time = 0 then Returned (- RT_ETIMEOUT) else Waiting) \<and>
    thr_stat s' (k_current s) = (if r = Waiting then RT_THREAD_SUSPEND else RT_THREAD_READY))"
proof (cases "sem_value (k_sem s i) = 0 \<and> time \<noteq> 0")
  case True
  note v = conjunct1 [OF True] and ti = conjunct2 [OF True]
  obtain s' where a: "rt_sem_take i time s = Some (Waiting, s')" "sys s'" "kept s s'"
    "k_thread s' = (k_thread s)(k_current s := (k_thread s (k_current s))\<lparr>error := RT_EOK, stat := RT_THREAD_SUSPEND\<rparr>)"
    "k_tlist s' = (qs_remove (k_current s) (k_tlist s))(Suspend (Obj_sem i) :=
       wait_insert (obj_flag (k_object s (Obj_sem i))) (\<lambda>x. current_priority (k_thread s x)) (k_current s)
         (k_tlist s (Suspend (Obj_sem i))))"
    using sem_take_blocks [OF assms(1,2) refl assms(3-5) v ti assms(6)] by (auto elim!: okE)
  show ?thesis
    using a(2) v ti sem_invD [OF assms(2)] set_wait_insert [OF sem_invD(2) [OF assms(2)]]
    by (simp add: a(1) okr sem_abs_def sem_inv_def keptD [OF a(3)] a(4,5))
next
  case False
  then show ?thesis
    using assms(1) sem_invD [OF assms(2)] sysD(5) [OF assms(1)]
    by (cases "sem_value (k_sem s i) = 0")
      (auto simp: rt_sem_take_def Let_def okr upd_sem_def sem_abs_def sem_inv_def unat_minus_one word_gt_0 unat_gt_0)
qed

section \<open>Releasing\<close>

lemma sem_release_ok:
  assumes "sys s" "sem_inv i s"
  shows "ok (rt_sem_release i s) (\<lambda>s'. sys s' \<and> sem_inv i s' \<and> sem_abs i s' = asem_release (sem_abs i s) \<and>
    k_interrupt_nest s' = k_interrupt_nest s \<and>
    (\<forall>t q. snd (sem_abs i s) = t # q \<longrightarrow> thr_stat s' t = RT_THREAD_READY \<and> fst (rt_sem_take_resume i t s') = RT_EOK \<and>
       (k_lock_nest s = 0 \<longrightarrow> (\<exists>p. highest s' p \<and> k_current s' = hd (ready_q s' p)))))"
proof (cases "k_tlist s (Suspend (Obj_sem i))")
  case Nil
  then show ?thesis
    using assms
    by (simp add: rt_sem_release_def okr upd_sem_def sem_abs_def sem_inv_def unat_word_ariths)
next
  case (Cons t ts)
  let ?s = "s\<lparr>k_trace := Hook_put (Obj_sem i) # k_trace s\<rparr>"
  have S: "sys ?s" and q: "k_tlist ?s (Suspend (Obj_sem i)) = t # ts" using assms(1) Cons by simp_all
  note E = sem_invD(4) [OF assms(2), unfolded Cons]
  have v: "sem_value (k_sem s i) = 0" using sem_invD(3) [OF assms(2)] Cons by (auto simp: word_gt_0)
  show ?thesis
    unfolding rt_sem_release_def Let_def emit_def
    using Cons sem_invD(1,2) [OF assms(2)] E
    by (simp, intro ok_mono [OF wake_ok [OF S q]])
      (auto simp: sem_abs_def sem_inv_def v rt_sem_take_resume_def qs_push_back_def keptD split: if_splits)
qed

section \<open>Properties\<close>

interpretation sem: ipc_class Obj_sem rt_sem_detach rt_sem_delete "\<lambda>_ _. []"
  by unfold_locales (simp_all add: rt_sem_detach_def rt_sem_delete_def)

text \<open>
  C10. \<open>rt_sem_take\<close> implements the abstract semaphore. A thread that finds the counter at 0 and wants to wait
  is suspended in the queue of the semaphore, at the end or at its place by priority; otherwise the call returns at once.
  The counter is positive only when no thread is waiting.
\<close>

theorem rt_sem_take_refines:
  assumes "sys s" "sem_inv i s" "k_current s \<noteq> idle" "k_lock_nest s = 0" "k_interrupt_nest s = 0" "time \<noteq> 0x7fffffff"
  shows "ok (rt_sem_take i time s) (\<lambda>(r, s'). sys s' \<and> sem_inv i s' \<and>
    sem_abs i s' = asem_take (wait_insert (obj_flag (k_object s (Obj_sem i))) (\<lambda>x. current_priority (k_thread s x)) (k_current s))
      (time \<noteq> 0) (sem_abs i s) \<and>
    r = (if 0 < fst (sem_abs i s) then Returned RT_EOK else if time = 0 then Returned (- RT_ETIMEOUT) else Waiting) \<and>
    thr_stat s' (k_current s) = (if r = Waiting then RT_THREAD_SUSPEND else RT_THREAD_READY))"
  using assms by (rule sem_take_ok)

text \<open>
  C11. \<open>rt_sem_release\<close> implements the abstract semaphore. When threads are waiting, the first of them becomes
  ready and its pending \<open>rt_sem_take\<close> returns \<open>RT_EOK\<close>, and the scheduler selects the most urgent
  thread; otherwise the counter goes up by one, modulo its width.
\<close>

theorem rt_sem_release_refines:
  assumes "sys s" "sem_inv i s"
  shows "ok (rt_sem_release i s) (\<lambda>s'. sys s' \<and> sem_inv i s' \<and> sem_abs i s' = asem_release (sem_abs i s) \<and>
    (\<forall>t q. snd (sem_abs i s) = t # q \<longrightarrow> thr_stat s' t = RT_THREAD_READY \<and> fst (rt_sem_take_resume i t s') = RT_EOK \<and>
       (k_lock_nest s = 0 \<longrightarrow> (\<exists>p. highest s' p \<and> k_current s' = hd (ready_q s' p)))))"
  by (rule ok_mono [OF sem_release_ok [OF assms]]) auto


text \<open>
  The counter has 16 bits and \<open>rt_sem_release\<close> does not check it: a release of a semaphore that stands at 65535
  sets it to 0, and the next \<open>rt_sem_take\<close> without waiting fails.
\<close>

theorem rt_sem_release_wraps:
  assumes "i \<noteq> RT_NULL" "sem_value (k_sem s i) = 0xffff" "k_tlist s (Suspend (Obj_sem i)) = []"
  shows "\<exists>s' s''. rt_sem_release i s = Some s' \<and> sem_value (k_sem s' i) = 0 \<and>
    rt_sem_trytake i s' = Some (Returned (- RT_ETIMEOUT), s'')"
  using assms by (simp add: rt_sem_release_def upd_sem_def rt_sem_trytake_def rt_sem_take_def Let_def)

text \<open>
  C37. With the scheduler locked a call that has to wait does not wait: \<open>rt_schedule\<close> returns at once to the thread,
  which is marked as suspended and still in the queue, and \<open>rt_sem_take\<close> returns \<open>RT_EOK\<close> although the counter is 0.
\<close>

theorem rt_sem_take_locked:
  assumes "sys s" "sem_inv i s" "k_lock_nest s \<noteq> 0" "k_interrupt_nest s = 0" "sem_value (k_sem s i) = 0"
    "time \<noteq> 0" "time \<noteq> 0x7fffffff"
  shows "ok (rt_sem_take i time s) (\<lambda>(r, s'). r = Waiting \<and> k_current s' = k_current s \<and>
    thr_stat s' (k_current s) = RT_THREAD_SUSPEND \<and> k_current s \<in> set (k_tlist s' (Suspend (Obj_sem i))) \<and>
    sem_value (k_sem s' i) = 0 \<and> fst (rt_sem_take_resume i (k_current s) s') = RT_EOK)"
proof -
  let ?t = "k_current s" and ?h = "Suspend (Obj_sem i)" and ?f = "obj_flag (k_object s (Obj_sem i))"
  let ?s = "s\<lparr>k_trace := Hook_trytake (Obj_sem i) # k_trace s, k_thread := (k_thread s)(?t := (k_thread s ?t)\<lparr>error := RT_EOK\<rparr>)\<rparr>"
  have S: "sys ?s" using assms(1) by (subst sys_cong [of _ s]) (simp_all add: stack_ok_def)
  have st: "thr_stat ?s ?t = RT_THREAD_READY" using sysD(5) [OF assms(1)] by simp
  obtain s1 where s1: "ipc_wait ?h ?t ?f time ?s = Some s1" "kept ?s s1" "k_current s1 = ?t"
    "k_thread s1 = (k_thread ?s)(?t := (k_thread ?s ?t)\<lparr>stat := RT_THREAD_SUSPEND\<rparr>)"
    "k_tlist s1 = (qs_remove ?t (k_tlist ?s))(?h := wait_insert ?f (\<lambda>x. current_priority (k_thread ?s x)) ?t (k_tlist ?s ?h))"
    using ipc_wait_ok [OF sysD(1) [OF S] st _ sem_invD(2) [OF assms(2)] assms(7), of ?h] by (auto elim!: okE)
  have l: "rt_schedule s1 = Some s1"
    using rt_schedule_locked keptD(9) [OF s1(2)] assms(3) by simp
  have eq: "rt_sem_take i time s = Some (Waiting, s1)"
    using sem_invD(1) [OF assms(2)] assms(4-6) sysD(6) [OF assms(1)] s1(1) l
    by (simp add: rt_sem_take_def Let_def RT_DEBUG_IN_THREAD_CONTEXT_def RT_DEBUG_NOT_IN_INTERRUPT_def rt_thread_self_def)
  show ?thesis
    using s1 assms(5) set_wait_insert [OF sem_invD(2) [OF assms(2)]] by (simp add: eq okr keptD rt_sem_take_resume_def)
qed

text \<open>Examples: the system of \<open>demo\<close>, in which thread 5 waits for semaphore 1 and nobody for semaphore 2.\<close>

lemma reset_sem [simp]: "sem_value (k_sem k_reset i) = 0"
  by (simp add: k_reset_def)

lemma demo_sem_inv: "sem_inv 1 demo" "sem_inv 2 demo"
  by (simp_all add: sem_inv_def)

theorem rt_sem_take_refines_witness:
  "ok (rt_sem_take 1 5 demo) (\<lambda>(r, s'). sys s' \<and> sem_inv 1 s' \<and>
    sem_abs 1 s' = asem_take (wait_insert (obj_flag (k_object demo (Obj_sem 1))) (\<lambda>x. current_priority (k_thread demo x)) (k_current demo))
      ((5 :: rt_int32_t) \<noteq> 0) (sem_abs 1 demo) \<and>
    r = (if 0 < fst (sem_abs 1 demo) then Returned RT_EOK else if (5 :: rt_int32_t) = 0 then Returned (- RT_ETIMEOUT) else Waiting) \<and>
    thr_stat s' (k_current demo) = (if r = Waiting then RT_THREAD_SUSPEND else RT_THREAD_READY))"
  by (rule rt_sem_take_refines [OF demo_sys demo_sem_inv(1)]) (simp_all add: idle_def)

theorem rt_sem_release_refines_witness:
  "ok (rt_sem_release 1 demo) (\<lambda>s'. sys s' \<and> sem_inv 1 s' \<and> sem_abs 1 s' = asem_release (sem_abs 1 demo) \<and>
    (\<forall>t q. snd (sem_abs 1 demo) = t # q \<longrightarrow> thr_stat s' t = RT_THREAD_READY \<and> fst (rt_sem_take_resume 1 t s') = RT_EOK \<and>
       (k_lock_nest demo = 0 \<longrightarrow> (\<exists>p. highest s' p \<and> k_current s' = hd (ready_q s' p)))))"
  by (rule rt_sem_release_refines [OF demo_sys demo_sem_inv(1)])


theorem rt_sem_release_wraps_witness:
  "\<exists>s' s''. rt_sem_release 2 (upd_sem 2 (\<lambda>_. 0xffff) demo) = Some s' \<and> sem_value (k_sem s' 2) = 0 \<and>
    rt_sem_trytake 2 s' = Some (Returned (- RT_ETIMEOUT), s'')"
  by (rule rt_sem_release_wraps) (simp_all add: upd_sem_def)

theorem rt_sem_take_locked_witness:
  "ok (rt_sem_take 2 5 (demo\<lparr>k_lock_nest := 1\<rparr>)) (\<lambda>(r, s'). r = Waiting \<and> k_current s' = k_current (demo\<lparr>k_lock_nest := 1\<rparr>) \<and>
    thr_stat s' (k_current (demo\<lparr>k_lock_nest := 1\<rparr>)) = RT_THREAD_SUSPEND \<and>
    k_current (demo\<lparr>k_lock_nest := 1\<rparr>) \<in> set (k_tlist s' (Suspend (Obj_sem 2))) \<and>
    sem_value (k_sem s' 2) = 0 \<and> fst (rt_sem_take_resume 2 (k_current (demo\<lparr>k_lock_nest := 1\<rparr>)) s') = RT_EOK)"
  by (rule rt_sem_take_locked) (simp_all add: demo_sys sem_inv_def)

end
