(* ===== verification/Mutex.thy ===== *)
theory Mutex
  imports Ipc
begin

text \<open>
  Mutexes, \<^verbatim>\<open>rt_mutex_*\<close> of \<^verbatim>\<open>src/ipc.c\<close>: recursive locks with an owner, whose priority is raised to that of
  the most urgent thread that waits (priority inheritance).
\<close>

section \<open>Operations\<close>

definition upd_mutex :: "nat \<Rightarrow> (rt_mutex \<Rightarrow> rt_mutex) \<Rightarrow> kstate \<Rightarrow> kstate" where
  "upd_mutex i f s = s\<lparr>k_mutex := (k_mutex s)(i := f (k_mutex s i))\<rparr>"

definition new_mutex :: rt_mutex where
  "new_mutex = \<lparr>mx_value = 1, original_priority = 0xff, hold = 0, owner = RT_NULL\<rparr>"

definition rt_mutex_init :: "nat \<Rightarrow> cstr \<Rightarrow> rt_uint8_t \<Rightarrow> kstate \<Rightarrow> kstate option" where
  "rt_mutex_init i name flag s = do {
     RT_ASSERT (i \<noteq> RT_NULL);
     let s = rt_object_init (Obj_mutex i) RT_Object_Class_Mutex name s;
     let s = rt_ipc_object_init (Suspend (Obj_mutex i)) s;
     let s = upd_mutex i (\<lambda>_. new_mutex) s;
     Some (set_obj_flag (Obj_mutex i) flag s)
   }"

definition rt_mutex_detach :: "nat \<Rightarrow> kstate \<Rightarrow> kstate option" where
  "rt_mutex_detach i s = do {
     RT_ASSERT (i \<noteq> RT_NULL);
     s \<leftarrow> rt_ipc_list_resume_all (Suspend (Obj_mutex i)) s;
     Some (rt_object_detach (Obj_mutex i) s)
   }"

definition rt_mutex_create :: "nat option \<Rightarrow> cstr \<Rightarrow> rt_uint8_t \<Rightarrow> kstate \<Rightarrow> (nat option \<times> kstate) option" where
  "rt_mutex_create mem name flag s = do {
     RT_DEBUG_NOT_IN_INTERRUPT s;
     (_, s) \<leftarrow> rt_object_allocate (map_option Obj_mutex mem) RT_Object_Class_Mutex name s;
     case mem of
       None \<Rightarrow> Some (None, s)
     | Some i \<Rightarrow>
         let s = rt_ipc_object_init (Suspend (Obj_mutex i)) s;
             s = upd_mutex i (\<lambda>_. new_mutex) s
         in Some (Some i, set_obj_flag (Obj_mutex i) flag s)
   }"

definition rt_mutex_delete :: "nat \<Rightarrow> kstate \<Rightarrow> kstate option" where
  "rt_mutex_delete i s = do {
     RT_DEBUG_NOT_IN_INTERRUPT s;
     RT_ASSERT (i \<noteq> RT_NULL);
     s \<leftarrow> rt_ipc_list_resume_all (Suspend (Obj_mutex i)) s;
     rt_object_delete (Obj_mutex i) s
   }"

definition rt_mutex_take :: "nat \<Rightarrow> rt_int32_t \<Rightarrow> kstate \<Rightarrow> (outcome \<times> kstate) option" where
  "rt_mutex_take i time s = do {
     RT_DEBUG_IN_THREAD_CONTEXT s;
     RT_ASSERT (i \<noteq> RT_NULL);
     let t = rt_thread_self s;
     let s = emit (Hook_trytake (Obj_mutex i)) s;
     let s = upd_thread t (error_update (\<lambda>_. RT_EOK)) s;
     if owner (k_mutex s i) = t
     then Some (Returned RT_EOK, emit (Hook_take (Obj_mutex i)) (upd_mutex i (\<lambda>m. m\<lparr>hold := hold m + 1\<rparr>) s))
     else if 0 < mx_value (k_mutex s i)
     then Some (Returned RT_EOK, emit (Hook_take (Obj_mutex i))
       (upd_mutex i (\<lambda>m. m\<lparr>mx_value := mx_value m - 1, owner := t,
          original_priority := current_priority (k_thread s t), hold := hold m + 1\<rparr>) s))
     else if time = 0
     then Some (Returned (- RT_ETIMEOUT), upd_thread t (error_update (\<lambda>_. - RT_ETIMEOUT)) s)
     else do {
       let own = owner (k_mutex s i);
       s \<leftarrow> (if current_priority (k_thread s t) < current_priority (k_thread s own)
              then rt_thread_control own 2 (current_priority (k_thread s t)) s else Some s);
       s \<leftarrow> ipc_wait (Suspend (Obj_mutex i)) t (obj_flag (k_object s (Obj_mutex i))) time s;
       s \<leftarrow> rt_schedule s;
       Some (Waiting, s)
     }
   }"

definition rt_mutex_take_resume :: "nat \<Rightarrow> tid \<Rightarrow> kstate \<Rightarrow> rt_err_t \<times> kstate" where
  "rt_mutex_take_resume i t s =
     (if error (k_thread s t) \<noteq> RT_EOK then (error (k_thread s t), s)
      else (RT_EOK, emit (Hook_take (Obj_mutex i)) s))"

definition rt_mutex_release :: "nat \<Rightarrow> kstate \<Rightarrow> (rt_err_t \<times> kstate) option" where
  "rt_mutex_release i s = do {
     RT_DEBUG_IN_THREAD_CONTEXT s;
     let t = rt_thread_self s;
     let s = emit (Hook_put (Obj_mutex i)) s;
     if t \<noteq> owner (k_mutex s i) then Some (- RT_ERROR, upd_thread t (error_update (\<lambda>_. - RT_ERROR)) s)
     else do {
       let s = upd_mutex i (\<lambda>m. m\<lparr>hold := hold m - 1\<rparr>) s;
       if hold (k_mutex s i) = 0 then do {
         let own = owner (k_mutex s i);
         let orig = original_priority (k_mutex s i);
         s \<leftarrow> (if orig \<noteq> current_priority (k_thread s own) then rt_thread_control own 2 orig s else Some s);
         case k_tlist s (Suspend (Obj_mutex i)) of
           [] \<Rightarrow> Some (RT_EOK, upd_mutex i (\<lambda>m. m\<lparr>mx_value := mx_value m + 1, owner := RT_NULL,
                   original_priority := 0xff\<rparr>) s)
         | x # _ \<Rightarrow> do {
             let s = upd_mutex i (\<lambda>m. m\<lparr>owner := x, original_priority := current_priority (k_thread s x),
                       hold := hold m + 1\<rparr>) s;
             s \<leftarrow> rt_ipc_list_resume (Suspend (Obj_mutex i)) s;
             s \<leftarrow> rt_schedule s;
             Some (RT_EOK, s)
           }
       } else Some (RT_EOK, s)
     }
   }"

definition rt_mutex_control :: "nat \<Rightarrow> rt_uint8_t \<Rightarrow> rt_err_t" where
  "rt_mutex_control i cmd = - RT_ERROR"

section \<open>Changing a priority\<close>

lemma sys_change_priority:
  assumes inv: "sys s" and t: "t \<noteq> RT_NULL" and p: "unat p < RT_THREAD_PRIORITY_MAX"
  shows "ok (rt_thread_control t 2 p s) (\<lambda>s'. sys s' \<and> kept s s' \<and> k_current s' = k_current s \<and>
     k_thread s' = (k_thread s)(t := (k_thread s t)\<lparr>current_priority := p, number_mask := push_bit (unat p) 1\<rparr>) \<and>
     (\<forall>h. (\<forall>q. h \<noteq> Ready q) \<longrightarrow> k_tlist s' h = k_tlist s h) \<and> k_timers s' = k_timers s \<and> k_timer s' = k_timer s)"
    (is "ok _ ?Q")
proof -
  note D = sysD [OF inv]
  have "?Q s'" if a: "kinv s'" "frame s s'"
    "k_thread s' = (k_thread s)(t := (k_thread s t)\<lparr>current_priority := p, number_mask := push_bit (unat p) 1\<rparr>)"
    "k_tlist s' = (if thr_stat s t = RT_THREAD_READY
       then qs_push_back (Ready (unat p)) t (qs_remove t (k_tlist s)) else k_tlist s)"
    "k_timers s' = k_timers s" "k_object s' = k_object s" for s'
  proof -
    have "window 0 s'" by (rule window_cong [OF D(4)]) (simp_all add: a(5,6) frameD [OF a(2)])
    moreover have "k_tlist s' h = k_tlist s h" if "\<forall>q. h \<noteq> Ready q" for h
    proof (cases "thr_stat s t = RT_THREAD_READY")
      case True
      have "t \<notin> set (k_tlist s h)"
        using sched_invD(1) [OF kinvD(1) [OF D(1)]] sched_invD(6) [OF kinvD(1) [OF D(1)] True] that qs_wfD(2) by metis
      then show ?thesis using that True by (simp add: a(4) qs_push_back_def qs_remove_def)
    qed (simp add: a(4))
    moreover have "thr_stat s' x = thr_stat s x" for x by (simp add: a(3))
    ultimately show ?thesis
      using a(1,3,5,6) D by (simp add: sys_def idle_ready_def cur_ready_def kept_def frameD [OF a(2)])
  qed
  then show ?thesis using change_priority_ok [OF D(1) t p] by (auto elim!: ok_mono)
qed

section \<open>The invariant\<close>

text \<open>
  A mutex is free, without owner and waiting threads, or held by an owner that does not wait for
  it. No thread waits for a free mutex. A waiting thread has no pending error.
\<close>

definition mutex_free :: "rt_mutex \<Rightarrow> bool" where
  "mutex_free m \<longleftrightarrow> mx_value m = 1 \<and> owner m = RT_NULL \<and> hold m = 0"

definition mutex_held :: "rt_mutex \<Rightarrow> bool" where
  "mutex_held m \<longleftrightarrow> mx_value m = 0 \<and> owner m \<noteq> RT_NULL \<and> 0 < hold m \<and>
     unat (original_priority m) < RT_THREAD_PRIORITY_MAX"

definition mutex_inv :: "nat \<Rightarrow> kstate \<Rightarrow> bool" where
  "mutex_inv i s \<longleftrightarrow> i \<noteq> RT_NULL \<and> obj_flag (k_object s (Obj_mutex i)) \<in> {RT_IPC_FLAG_FIFO, RT_IPC_FLAG_PRIO} \<and>
     (mutex_free (k_mutex s i) \<and> k_tlist s (Suspend (Obj_mutex i)) = [] \<or>
      mutex_held (k_mutex s i) \<and> owner (k_mutex s i) \<notin> set (k_tlist s (Suspend (Obj_mutex i)))) \<and>
     (\<forall>t \<in> set (k_tlist s (Suspend (Obj_mutex i))). error (k_thread s t) = RT_EOK)"

text \<open>
  Priority inheritance: with a queue in the order of priority, the owner is at least as urgent as
  every thread that waits.
\<close>

definition inherits :: "nat \<Rightarrow> kstate \<Rightarrow> bool" where
  "inherits i s \<longleftrightarrow> sorted_wrt (\<lambda>a b. thr_prio s a \<le> thr_prio s b) (k_tlist s (Suspend (Obj_mutex i))) \<and>
     (\<forall>t \<in> set (k_tlist s (Suspend (Obj_mutex i))). thr_prio s (owner (k_mutex s i)) \<le> thr_prio s t)"

lemma inherits_cong:
  assumes "\<And>x. current_priority (k_thread s' x) = current_priority (k_thread s x)"
    "k_tlist s' (Suspend (Obj_mutex i)) = k_tlist s (Suspend (Obj_mutex i))" "owner (k_mutex s' i) = owner (k_mutex s i)"
  shows "inherits i s' = inherits i s"
  by (simp add: inherits_def assms)

lemma inherits_simps [simp]:
  "inherits i (s\<lparr>k_trace := tr\<rparr>) = inherits i s"
  "k_thread s' = k_thread s \<Longrightarrow>
     inherits i (s'\<lparr>k_thread := (k_thread s)(t := (k_thread s t)\<lparr>error := e\<rparr>)\<rparr>) = inherits i s'"
  "k_mutex s' = k_mutex s \<Longrightarrow>
     inherits i (s'\<lparr>k_mutex := (k_mutex s)(i := (k_mutex s i)\<lparr>hold := h\<rparr>)\<rparr>) = inherits i s'"
  by (rule inherits_cong; simp)+

lemma mutex_invD:
  assumes "mutex_inv i s"
  shows "i \<noteq> RT_NULL" "obj_flag (k_object s (Obj_mutex i)) \<in> {RT_IPC_FLAG_FIFO, RT_IPC_FLAG_PRIO}"
    "t \<in> set (k_tlist s (Suspend (Obj_mutex i))) \<Longrightarrow> error (k_thread s t) = RT_EOK"
    "mutex_free (k_mutex s i) \<or> mutex_held (k_mutex s i)"
    "mutex_free (k_mutex s i) \<Longrightarrow> k_tlist s (Suspend (Obj_mutex i)) = []"
    "mutex_held (k_mutex s i) \<Longrightarrow> owner (k_mutex s i) \<notin> set (k_tlist s (Suspend (Obj_mutex i)))"
  using assms by (auto simp: mutex_inv_def mutex_free_def mutex_held_def)

lemma sorted_prio_insert:
  assumes "sorted_wrt (\<lambda>a b. prio a \<le> (prio b :: rt_uint8_t)) xs"
  shows "sorted_wrt (\<lambda>a b. prio a \<le> prio b) (prio_insert prio t xs)"
  using assms by (induction xs) (auto simp: not_less)

section \<open>Taking\<close>

lemma mutex_take_blocks:
  assumes inv: "sys s" "mutex_inv i s" "mutex_held (k_mutex s i)"
    and t: "k_current s = t" "t \<noteq> idle" "k_lock_nest s = 0" "k_interrupt_nest s = 0"
      "owner (k_mutex s i) = own" "own \<noteq> t"
    and time: "time \<noteq> 0" "time \<noteq> 0x7fffffff"
  shows "ok (rt_mutex_take i time s) (\<lambda>(r, s'). r = Waiting \<and> sys s' \<and> kept s s' \<and> k_current s' \<noteq> t \<and>
    (\<forall>x. current_priority (k_thread s' x) = (if x = own then min (current_priority (k_thread s own)) (current_priority (k_thread s t))
       else current_priority (k_thread s x)) \<and>
      thr_stat s' x = (if x = t then RT_THREAD_SUSPEND else thr_stat s x) \<and>
      error (k_thread s' x) = (if x = t then RT_EOK else error (k_thread s x))) \<and>
    k_tlist s' (Suspend (Obj_mutex i)) = wait_insert (obj_flag (k_object s (Obj_mutex i)))
       (\<lambda>x. current_priority (k_thread s' x)) t (k_tlist s (Suspend (Obj_mutex i))) \<and>
    (if 0 <s time then Thread_timer t \<in> set (k_timers s' Hard_list) \<and> left s' (Thread_timer t) = sint time
     else \<not> timer_on s' (Thread_timer t)))"
proof -
  let ?s = "s\<lparr>k_trace := Hook_trytake (Obj_mutex i) # k_trace s, k_thread := (k_thread s)(t := (k_thread s t)\<lparr>error := RT_EOK\<rparr>)\<rparr>"
  let ?h = "Suspend (Obj_mutex i)" and ?f = "obj_flag (k_object s (Obj_mutex i))" and ?p = "current_priority (k_thread s t)"
  note D = sysD [OF inv(1)]
  have S: "sys ?s" using inv(1) by (subst sys_cong [of _ s]) (simp_all add: stack_ok_def)
  have nz: "own \<noteq> RT_NULL" using inv(3) t(5) by (simp add: mutex_held_def)
  have p: "unat ?p < 32" using sched_invD(7) [OF kinvD(1) [OF D(1)], of t] D(5) t(1) by (simp add: thread_ok_def)
  obtain s1 where s1: "(if ?p < current_priority (k_thread s own) then rt_thread_control own 2 ?p ?s else Some ?s) = Some s1"
    "sys s1" "kept ?s s1" "k_current s1 = t" "\<forall>h. (\<forall>q. h \<noteq> Ready q) \<longrightarrow> k_tlist s1 h = k_tlist s h"
    "\<forall>x. current_priority (k_thread s1 x) = (if x = own then min (current_priority (k_thread s own)) ?p
       else current_priority (k_thread s x)) \<and> thr_stat s1 x = thr_stat s x \<and>
       error (k_thread s1 x) = (if x = t then RT_EOK else error (k_thread s x))"
  proof (cases "?p < current_priority (k_thread s own)")
    case True
    obtain x where x: "rt_thread_control own 2 ?p ?s = Some x" "sys x" "kept ?s x" "k_current x = t"
      "k_thread x = (k_thread ?s)(own := (k_thread ?s own)\<lparr>current_priority := ?p, number_mask := push_bit (unat ?p) 1\<rparr>)"
      "\<forall>h. (\<forall>q. h \<noteq> Ready q) \<longrightarrow> k_tlist x h = k_tlist s h"
      using sys_change_priority [OF S nz p] t(1) by (auto elim!: okE)
    have "min (current_priority (k_thread s own)) ?p = ?p" using True by (intro min_absorb2) simp
    then show thesis by (intro that [of x]) (use x True t(6) in auto)
  next
    case False
    then have "min (current_priority (k_thread s own)) ?p = current_priority (k_thread s own)" by (intro min_absorb1) simp
    then show thesis by (intro that [of ?s]) (use S False t(1,6) in auto)
  qed
  note k1 = keptD [OF s1(3)]
  have f: "obj_flag (k_object s1 (Obj_mutex i)) = ?f" by (simp add: k1(14))
  have eq: "rt_mutex_take i time s = do { s \<leftarrow> do { s \<leftarrow> ipc_wait ?h t ?f time s1; rt_schedule s }; Some (Waiting, s) }"
    using mutex_invD(1) [OF inv(2)] inv(3) time(1) t D(6) s1(1)
    by (cases "?p < current_priority (k_thread s own)")
      (auto simp: rt_mutex_take_def Let_def RT_DEBUG_IN_THREAD_CONTEXT_def RT_DEBUG_NOT_IN_INTERRUPT_def
        rt_thread_self_def mutex_held_def f)
  obtain s' where s': "do { s \<leftarrow> ipc_wait ?h t ?f time s1; rt_schedule s } = Some s'" "sys s'" "kept s1 s'" "k_current s' \<noteq> t"
    "k_thread s' = (k_thread s1)(t := (k_thread s1 t)\<lparr>stat := RT_THREAD_SUSPEND\<rparr>)"
    "k_tlist s' ?h = wait_insert ?f (\<lambda>x. current_priority (k_thread s1 x)) t (k_tlist s ?h)"
    "if 0 <s time then Thread_timer t \<in> set (k_timers s' Hard_list) \<and> left s' (Thread_timer t) = sint time
     else \<not> timer_on s' (Thread_timer t)"
    using block_ok [OF s1(2,4) t(2), of ?h ?f time] mutex_invD(2) [OF inv(2)] time(2) k1(9) t(3) s1(5)
    by (auto elim!: okE)
  have "(\<lambda>x. current_priority (k_thread s' x)) = (\<lambda>x. current_priority (k_thread s1 x))" by (simp add: s'(5) fun_eq_iff)
  with s'(6) have q: "k_tlist s' ?h = wait_insert ?f (\<lambda>x. current_priority (k_thread s' x)) t (k_tlist s ?h)" by simp
  have th: "\<forall>x. current_priority (k_thread s' x) = (if x = own then min (current_priority (k_thread s own)) ?p
       else current_priority (k_thread s x)) \<and> thr_stat s' x = (if x = t then RT_THREAD_SUSPEND else thr_stat s x) \<and>
       error (k_thread s' x) = (if x = t then RT_EOK else error (k_thread s x))"
    using s1(6) by (simp add: s'(5))
  have "kept s s'" using kept_trans [OF s1(3) s'(3)] by (simp add: kept_def)
  with s'(2,4,7) q th show ?thesis
    unfolding eq s'(1) bind.bind_lunit ok_Some prod.case by blast
qed

lemma byte_incr: "(x :: rt_uint8_t) \<noteq> 0xff \<Longrightarrow> 0 < x + 1"
proof -
  assume "x \<noteq> 0xff"
  moreover have "x = - 1" if "x + 1 = 0" using that by (simp add: eq_neg_iff_add_eq_0)
  ultimately show ?thesis by (auto simp: word_gt_0)
qed

lemma mutex_take_ok:
  assumes inv: "sys s" "mutex_inv i s" and t: "k_current s \<noteq> idle" "k_lock_nest s = 0" "k_interrupt_nest s = 0"
    and time: "time \<noteq> 0x7fffffff" and hold: "owner (k_mutex s i) = k_current s \<longrightarrow> hold (k_mutex s i) \<noteq> 0xff"
  shows "ok (rt_mutex_take i time s) (\<lambda>(r, s'). sys s' \<and> mutex_inv i s' \<and>
    (obj_flag (k_object s (Obj_mutex i)) = RT_IPC_FLAG_PRIO \<and> inherits i s \<longrightarrow> inherits i s') \<and>
    (if mutex_free (k_mutex s i) then r = Returned RT_EOK \<and>
       k_mutex s' i = \<lparr>mx_value = 0, original_priority = current_priority (k_thread s (k_current s)), hold = 1, owner = k_current s\<rparr>
     else if owner (k_mutex s i) = k_current s then r = Returned RT_EOK \<and>
       k_mutex s' i = (k_mutex s i)\<lparr>hold := hold (k_mutex s i) + 1\<rparr>
     else k_mutex s' i = k_mutex s i \<and> r = (if time = 0 then Returned (- RT_ETIMEOUT) else Waiting) \<and>
       (time \<noteq> 0 \<longrightarrow> thr_stat s' (k_current s) = RT_THREAD_SUSPEND \<and>
          set (k_tlist s' (Suspend (Obj_mutex i))) = insert (k_current s) (set (k_tlist s (Suspend (Obj_mutex i)))))))"
proof -
  let ?t = "k_current s" and ?h = "Suspend (Obj_mutex i)"
  note D = sysD [OF inv(1)]
  have p: "unat (current_priority (k_thread s ?t)) < 32"
    using sched_invD(7) [OF kinvD(1) [OF D(1)], of ?t] D(5) by (simp add: thread_ok_def)
  have tq: "?t \<notin> set (k_tlist s ?h)" using sched_invD(4) [OF kinvD(1) [OF D(1)], of ?t ?h] D(5) by auto
  note defs = rt_mutex_take_def Let_def RT_DEBUG_IN_THREAD_CONTEXT_def RT_DEBUG_NOT_IN_INTERRUPT_def rt_thread_self_def upd_mutex_def
  note I = mutex_invD [OF inv(2)]
  consider "mutex_free (k_mutex s i)" | "mutex_held (k_mutex s i)" "owner (k_mutex s i) = ?t"
    | "mutex_held (k_mutex s i)" "owner (k_mutex s i) \<noteq> ?t" "time = 0"
    | "mutex_held (k_mutex s i)" "owner (k_mutex s i) \<noteq> ?t" "time \<noteq> 0"
    using I(4) by blast
  then show ?thesis
  proof cases
    case 1
    with I inv(1) D(6) t(3) p show ?thesis
      by (cases "k_mutex s i") (simp add: defs okr mutex_free_def mutex_held_def mutex_inv_def inherits_def)
  next
    case 2
    with hold have "0 < hold (k_mutex s i) + 1" by (simp add: byte_incr)
    with 2 I inv(1) D(6) t(3) tq show ?thesis
      by (auto simp: defs okr mutex_free_def mutex_held_def mutex_inv_def)
  next
    case 3
    with I D(6) t(3) inv(1) tq show ?thesis
      by (auto simp: defs okr mutex_free_def mutex_held_def mutex_inv_def)
  next
    case 4
    let ?own = "owner (k_mutex s i)"
    obtain s' where s': "rt_mutex_take i time s = Some (Waiting, s')" "sys s'" "kept s s'"
      "\<forall>x. current_priority (k_thread s' x) = (if x = ?own then min (current_priority (k_thread s ?own)) (current_priority (k_thread s ?t))
         else current_priority (k_thread s x)) \<and> thr_stat s' x = (if x = ?t then RT_THREAD_SUSPEND else thr_stat s x) \<and>
        error (k_thread s' x) = (if x = ?t then RT_EOK else error (k_thread s x))"
      "k_tlist s' ?h = wait_insert (obj_flag (k_object s (Obj_mutex i)))
         (\<lambda>x. current_priority (k_thread s' x)) ?t (k_tlist s ?h)"
      using mutex_take_blocks [OF inv 4(1) refl t refl 4(2,3) time] by (elim okE) blast
    have q: "set (k_tlist s' ?h) = insert ?t (set (k_tlist s ?h))" using s'(5) set_wait_insert [OF I(2)] by simp
    have "mutex_inv i s'"
      using I(1-3) I(6) [OF 4(1)] 4(1,2) q s'(4) by (auto simp: mutex_inv_def keptD [OF s'(3)])
    moreover have "inherits i s'" if a: "obj_flag (k_object s (Obj_mutex i)) = RT_IPC_FLAG_PRIO" "inherits i s"
    proof -
      have pr: "thr_prio s' x = thr_prio s x" if "x \<noteq> ?own" for x using s'(4) that by simp
      have po: "thr_prio s' ?own \<le> thr_prio s ?own" "thr_prio s' ?own \<le> thr_prio s' ?t"
        using s'(4) 4(2) by (simp_all add: min_def word_le_nat_alt)
      have oq: "x \<noteq> ?own" if "x \<in> set (k_tlist s ?h)" for x using I(6) [OF 4(1)] that by auto
      have "sorted_wrt (\<lambda>a b. current_priority (k_thread s' a) \<le> current_priority (k_thread s' b)) (k_tlist s ?h)"
        using a(2) oq s'(4) by (auto simp: inherits_def word_le_nat_alt elim!: sorted_wrt_mono_rel [rotated])
      then have "sorted_wrt (\<lambda>a b. current_priority (k_thread s' a) \<le> current_priority (k_thread s' b)) (k_tlist s' ?h)"
        using sorted_prio_insert [of "\<lambda>x. current_priority (k_thread s' x)"] s'(5) a(1) by (simp add: wait_insert_def)
      moreover have "thr_prio s' ?own \<le> thr_prio s' x" if "x \<in> set (k_tlist s' ?h)" for x
        using that a(2) pr [OF oq, of x] po by (auto simp: q inherits_def intro: le_trans)
      ultimately show ?thesis by (simp add: inherits_def keptD [OF s'(3)] word_le_nat_alt)
    qed
    ultimately show ?thesis using s'(2,4) q 4 by (simp add: s'(1) okr keptD [OF s'(3)] mutex_free_def mutex_held_def)
  qed
qed

section \<open>Releasing\<close>

lemma mutex_release_ok:
  assumes inv: "sys s" "mutex_inv i s" and t: "k_interrupt_nest s = 0"
  shows "ok (rt_mutex_release i s) (\<lambda>(r, s'). sys s' \<and> mutex_inv i s' \<and> (inherits i s \<longrightarrow> inherits i s') \<and>
    (if owner (k_mutex s i) \<noteq> k_current s then r = - RT_ERROR \<and> k_mutex s' i = k_mutex s i
     else r = RT_EOK \<and>
       (if hold (k_mutex s i) \<noteq> 1 then k_mutex s' i = (k_mutex s i)\<lparr>hold := hold (k_mutex s i) - 1\<rparr>
        else current_priority (k_thread s' (k_current s)) = original_priority (k_mutex s i) \<and>
          (case k_tlist s (Suspend (Obj_mutex i)) of
             [] \<Rightarrow> mutex_free (k_mutex s' i)
           | x # q \<Rightarrow> k_mutex s' i = \<lparr>mx_value = 0, original_priority = current_priority (k_thread s x), hold = 1, owner = x\<rparr> \<and>
               k_tlist s' (Suspend (Obj_mutex i)) = q \<and> thr_stat s' x = RT_THREAD_READY \<and>
               fst (rt_mutex_take_resume i x s') = RT_EOK))))"
proof -
  let ?t = "k_current s" and ?h = "Suspend (Obj_mutex i)" and ?m = "k_mutex s i"
  note D = sysD [OF inv(1)] and I = mutex_invD [OF inv(2)]
  note defs = rt_mutex_release_def Let_def RT_DEBUG_IN_THREAD_CONTEXT_def RT_DEBUG_NOT_IN_INTERRUPT_def rt_thread_self_def upd_mutex_def
  consider "owner ?m \<noteq> ?t" | "owner ?m = ?t" "hold ?m \<noteq> 1" | "owner ?m = ?t" "hold ?m = 1" by blast
  then show ?thesis
  proof cases
    case 1
    have "?t \<notin> set (k_tlist s ?h)" using sched_invD(4) [OF kinvD(1) [OF D(1)], of ?t ?h] D(5) by auto
    with 1 I(1-3) inv D(6) t show ?thesis by (auto simp: defs okr mutex_inv_def)
  next
    case 2
    then have H: "mutex_held ?m" using I(4) D(6) by (auto simp: mutex_free_def)
    have "0 < hold ?m - 1" using 2(2) by (simp add: word_gt_0)
    with 2 H I(1-3) I(6) [OF H] inv(1) D(6) t show ?thesis
      by (auto simp: defs okr mutex_inv_def mutex_held_def)
  next
    case 3
    then have H: "mutex_held ?m" using I(4) D(6) by (auto simp: mutex_free_def)
    then have p: "unat (original_priority ?m) < 32" by (simp add: mutex_held_def)
    let ?s = "s\<lparr>k_trace := Hook_put (Obj_mutex i) # k_trace s, k_mutex := (k_mutex s)(i := ?m\<lparr>hold := 0\<rparr>)\<rparr>"
    have S: "sys ?s" using inv(1) by simp
    obtain s1 where s1: "(if original_priority ?m \<noteq> current_priority (k_thread s ?t)
         then rt_thread_control ?t 2 (original_priority ?m) ?s else Some ?s) = Some s1"
      "sys s1" "kept ?s s1" "k_current s1 = ?t" "k_tlist s1 ?h = k_tlist s ?h"
      "\<forall>x. current_priority (k_thread s1 x) = (if x = ?t then original_priority ?m else current_priority (k_thread s x)) \<and>
         thr_stat s1 x = thr_stat s x \<and> error (k_thread s1 x) = error (k_thread s x)"
    proof (cases "original_priority ?m \<noteq> current_priority (k_thread s ?t)")
      case True
      obtain x where x: "rt_thread_control ?t 2 (original_priority ?m) ?s = Some x" "sys x" "kept ?s x" "k_current x = ?t"
        "k_thread x = (k_thread s)(?t := (k_thread s ?t)\<lparr>current_priority := original_priority ?m,
            number_mask := push_bit (unat (original_priority ?m)) 1\<rparr>)"
        "\<forall>h. (\<forall>q. h \<noteq> Ready q) \<longrightarrow> k_tlist x h = k_tlist s h"
        using sys_change_priority [OF S D(6) p] by (auto elim!: okE)
      show thesis by (rule that [of x]) (use x True in auto)
    next
      case False
      show thesis by (rule that [of ?s]) (use S False in auto)
    qed
    note k1 = keptD [OF s1(3)]
    have m1: "k_mutex s1 i = ?m\<lparr>hold := 0\<rparr>" by (simp add: k1)
    have eq: "rt_mutex_release i s = (case k_tlist s ?h of
           [] \<Rightarrow> Some (RT_EOK, upd_mutex i (\<lambda>m. m\<lparr>mx_value := mx_value m + 1, owner := RT_NULL, original_priority := 0xff\<rparr>) s1)
         | x # _ \<Rightarrow> do {
             s \<leftarrow> rt_ipc_list_resume ?h (upd_mutex i (\<lambda>m. m\<lparr>owner := x, original_priority := current_priority (k_thread s1 x), hold := hold m + 1\<rparr>) s1);
             s \<leftarrow> rt_schedule s;
             Some (RT_EOK, s) })"
      using 3 D(6) t s1(1,5) by (simp add: defs cong: if_cong list.case_cong split del: if_split)
    show ?thesis
    proof (cases "k_tlist s ?h")
      case Nil
      with 3 H I(1,2) s1 show ?thesis
        by (simp add: eq okr upd_mutex_def m1 mutex_free_def mutex_held_def mutex_inv_def inherits_def k1(14))
    next
      case (Cons x q)
      let ?s2 = "s1\<lparr>k_mutex := (k_mutex s1)(i := \<lparr>mx_value = 0, original_priority = current_priority (k_thread s x), hold = 1, owner = x\<rparr>)\<rparr>"
      have S2: "sys ?s2" using s1(2) by simp
      have q2: "k_tlist ?s2 ?h = x # q" using s1(5) Cons by simp
      have xt: "x \<noteq> ?t" using I(6) [OF H] 3(1) Cons by auto
      have px: "unat (current_priority (k_thread s x)) < 32"
        using sched_invD(8) [OF kinvD(1) [OF D(1)], of x] sched_invD(4) [OF kinvD(1) [OF D(1)], of x ?h] Cons
        by (simp add: thread_ok_def)
      have xq: "x \<notin> set q" "x \<noteq> RT_NULL"
        using qs_wfD(1) [OF sched_invD(1) [OF kinvD(1) [OF D(1)]], of ?h] sched_invD(3) [OF kinvD(1) [OF D(1)], of x ?h] Cons
        by simp_all
      have e2: "upd_mutex i (\<lambda>m. m\<lparr>owner := x, original_priority := current_priority (k_thread s1 x), hold := hold m + 1\<rparr>) s1 = ?s2"
        using H s1(6) xt m1 by (cases ?m) (auto simp: upd_mutex_def mutex_held_def)
      obtain s' where s': "do { s \<leftarrow> rt_ipc_list_resume ?h ?s2; rt_schedule s } = Some s'" "sys s'" "kept ?s2 s'"
        "k_thread s' = (k_thread s1)(x := (k_thread s1 x)\<lparr>stat := RT_THREAD_READY\<rparr>)" "k_tlist s' ?h = q"
        using wake_ok [OF S2 q2] by (auto simp: qs_push_back_def elim!: okE)
      have eq': "rt_mutex_release i s = Some (RT_EOK, s')"
        using arg_cong [OF s'(1), of "\<lambda>m. Option.bind m (\<lambda>s. Some (RT_EOK, s))"]
        unfolding eq Cons list.case e2 by simp
      have k': "k_mutex s' i = \<lparr>mx_value = 0, original_priority = current_priority (k_thread s x), hold = 1, owner = x\<rparr>"
        "obj_flag (k_object s' (Obj_mutex i)) = obj_flag (k_object s (Obj_mutex i))"
        using keptD [OF s'(3)] k1(14) by simp_all
      have e': "error (k_thread s' y) = RT_EOK" if "y \<in> set (x # q)" for y
        using I(3) [of y] that s1(6) by (auto simp: s'(4) Cons)
      have "mutex_inv i s'"
        using I(1,2) k' px xq e' by (auto simp: mutex_inv_def mutex_held_def s'(5))
      moreover have "current_priority (k_thread s' ?t) = original_priority ?m" "thr_stat s' x = RT_THREAD_READY"
        using s1(6) xt by (simp_all add: s'(4))
      moreover have "fst (rt_mutex_take_resume i x s') = RT_EOK" using e' [of x] by (simp add: rt_mutex_take_resume_def)
      moreover have "inherits i s'" if a: "inherits i s"
      proof -
        have tq: "y \<noteq> ?t" if "y \<in> set (x # q)" for y using I(6) [OF H] 3(1) Cons that by auto
        have "thr_prio s' y = thr_prio s y" if "y \<in> set (x # q)" for y using s1(6) tq [OF that] by (auto simp: s'(4))
        then show ?thesis
          using a by (auto simp: inherits_def s'(5) k'(1) Cons elim!: sorted_wrt_mono_rel [rotated])
      qed
      ultimately show ?thesis
        using s'(2,5) k'(1) 3 by (simp add: eq' ok_Some Cons)
    qed
  qed
qed

text \<open>Ticks keep the invariants.\<close>

lemma mutex_inv_calm:
  assumes "mutex_inv i s" "calm s s'" "kinv s'"
  shows "mutex_inv i s'" "inherits i s \<Longrightarrow> inherits i s'"
proof -
  let ?h = "Suspend (Obj_mutex i)"
  note I = mutex_invD [OF assms(1)]
  have q: "subseq (k_tlist s' ?h) (k_tlist s ?h)" by (rule calmD(15) [OF assms(2)]) simp
  note w = calm_waiting [OF assms(2,3), of _ ?h]
  have "k_tlist s' ?h = []" if "k_tlist s ?h = []" using q that by simp
  moreover have "owner (k_mutex s i) \<notin> set (k_tlist s' ?h)" if "owner (k_mutex s i) \<notin> set (k_tlist s ?h)"
    using w that by auto
  ultimately show "mutex_inv i s'"
    using assms(1) w by (auto simp: mutex_inv_def calmD(2,13) [OF assms(2)])
  have p: "thr_prio s' t = thr_prio s t" for t using calmD(14) [OF assms(2), of t] by auto
  show "inherits i s'" if "inherits i s"
    using that sorted_wrt_subseq [OF q] w by (auto simp: inherits_def p calmD(2) [OF assms(2)])
qed

text \<open>The last release of a mutex nobody waits for.\<close>

lemma mutex_release_unwanted:
  assumes inv: "sys s" and t: "k_interrupt_nest s = 0" "owner (k_mutex s i) = k_current s" "hold (k_mutex s i) = 1"
    "k_tlist s (Suspend (Obj_mutex i)) = []" "unat (original_priority (k_mutex s i)) < RT_THREAD_PRIORITY_MAX"
  shows "\<exists>s'. rt_mutex_release i s = Some (RT_EOK, s') \<and> sys s' \<and> k_current s' = k_current s \<and> k_interrupt_nest s' = 0 \<and>
    k_mutex s' = (k_mutex s)(i := \<lparr>mx_value = mx_value (k_mutex s i) + 1, original_priority = 0xff, hold = 0, owner = RT_NULL\<rparr>) \<and>
    (\<forall>j. k_tlist s' (Suspend j) = k_tlist s (Suspend j)) \<and>
    current_priority (k_thread s' (k_current s)) = original_priority (k_mutex s i)"
proof -
  let ?t = "k_current s" and ?m = "k_mutex s i"
  note D = sysD [OF inv]
  let ?s = "s\<lparr>k_trace := Hook_put (Obj_mutex i) # k_trace s, k_mutex := (k_mutex s)(i := ?m\<lparr>hold := 0\<rparr>)\<rparr>"
  have S: "sys ?s" using inv by simp
  note defs = rt_mutex_release_def Let_def RT_DEBUG_IN_THREAD_CONTEXT_def RT_DEBUG_NOT_IN_INTERRUPT_def rt_thread_self_def upd_mutex_def
  show ?thesis
  proof (cases "original_priority ?m = current_priority (k_thread s ?t)")
    case True
    with S t D(6) show ?thesis by (cases ?m) (simp add: defs)
  next
    case False
    obtain x where x: "rt_thread_control ?t 2 (original_priority ?m) ?s = Some x" "sys x" "kept ?s x" "k_current x = ?t"
      "k_thread x = (k_thread s)(?t := (k_thread s ?t)\<lparr>current_priority := original_priority ?m,
          number_mask := push_bit (unat (original_priority ?m)) 1\<rparr>)"
      "\<forall>h. (\<forall>q. h \<noteq> Ready q) \<longrightarrow> k_tlist x h = k_tlist s h"
      using sys_change_priority [OF S D(6) t(5)] by (auto elim!: okE)
    note k = keptD [OF x(3)]
    show ?thesis
      using False t D(6) x by (cases ?m) (simp add: defs k)
  qed
qed

section \<open>An example\<close>

text \<open>
  An example: mutex 1, with a queue by priority, is held by the idle thread 1; mutex 2 is held by the running thread 3, whose
  priority was raised from 20 to 5; mutex 3 is free; mutex 4 is held 255 times by thread 3.
\<close>

definition demo_mutex :: kstate where
  "demo_mutex = demo\<lparr>
     k_mutex := (\<lambda>_. new_mutex)(1 := \<lparr>mx_value = 0, original_priority = 31, hold = 1, owner = 1\<rparr>,
       2 := \<lparr>mx_value = 0, original_priority = 20, hold = 1, owner = 3\<rparr>,
       4 := \<lparr>mx_value = 0, original_priority = 5, hold = 0xff, owner = 3\<rparr>),
     k_object := (k_object demo)(Obj_mutex 1 := (k_object demo (Obj_mutex 1))\<lparr>obj_flag := RT_IPC_FLAG_PRIO\<rparr>)\<rparr>"

lemma demo_mutex_sel [simp]:
  "sys demo_mutex" "k_current demo_mutex = 3" "k_lock_nest demo_mutex = 0" "k_interrupt_nest demo_mutex = 0"
  "k_thread demo_mutex = k_thread demo" "k_tlist demo_mutex = k_tlist demo" "k_timers demo_mutex = k_timers demo"
  "k_mutex demo_mutex = (\<lambda>_. new_mutex)(1 := \<lparr>mx_value = 0, original_priority = 31, hold = 1, owner = 1\<rparr>,
       2 := \<lparr>mx_value = 0, original_priority = 20, hold = 1, owner = 3\<rparr>,
       4 := \<lparr>mx_value = 0, original_priority = 5, hold = 0xff, owner = 3\<rparr>)"
  "obj_flag (k_object demo_mutex (Obj_mutex i)) = (if i = 1 then RT_IPC_FLAG_PRIO else RT_IPC_FLAG_FIFO)"
proof -
  show "sys demo_mutex" using demo_sys by (simp add: demo_mutex_def)
qed (simp_all add: demo_mutex_def)

lemma demo_mutex_inv: "mutex_inv 1 demo_mutex" "mutex_inv 2 demo_mutex" "inherits 1 demo_mutex" "mutex_free (k_mutex demo_mutex 3)"
  by (simp_all add: mutex_inv_def mutex_held_def inherits_def mutex_free_def new_mutex_def)

section \<open>Properties\<close>

interpretation mutex: ipc_class Obj_mutex rt_mutex_detach rt_mutex_delete "\<lambda>_ _. []"
  by unfold_locales (simp_all add: rt_mutex_detach_def rt_mutex_delete_def)



text \<open>
  C9. \<open>rt_mutex_release\<close> fails for a thread that is not the owner. The last release of the owner restores the priority it had
  when it took the mutex and hands the mutex to the first waiting thread, whose pending call returns \<open>RT_EOK\<close>, or frees it.
\<close>

theorem rt_mutex_release_correct:
  assumes "sys s" "mutex_inv i s" "k_interrupt_nest s = 0"
  shows "ok (rt_mutex_release i s) (\<lambda>(r, s'). sys s' \<and> mutex_inv i s' \<and>
    (if owner (k_mutex s i) \<noteq> k_current s then r = - RT_ERROR \<and> k_mutex s' i = k_mutex s i
     else r = RT_EOK \<and>
       (if hold (k_mutex s i) \<noteq> 1 then k_mutex s' i = (k_mutex s i)\<lparr>hold := hold (k_mutex s i) - 1\<rparr>
        else current_priority (k_thread s' (k_current s)) = original_priority (k_mutex s i) \<and>
          (case k_tlist s (Suspend (Obj_mutex i)) of
             [] \<Rightarrow> mutex_free (k_mutex s' i)
           | x # q \<Rightarrow> k_mutex s' i = \<lparr>mx_value = 0, original_priority = current_priority (k_thread s x), hold = 1, owner = x\<rparr> \<and>
               k_tlist s' (Suspend (Obj_mutex i)) = q \<and> thr_stat s' x = RT_THREAD_READY \<and>
               fst (rt_mutex_take_resume i x s') = RT_EOK))))"
  by (rule ok_mono [OF mutex_release_ok [OF assms]]) blast

theorem rt_mutex_release_correct_witness:
  "ok (rt_mutex_release 2 demo_mutex) (\<lambda>(r, s'). sys s' \<and> mutex_inv 2 s' \<and> r = RT_EOK \<and>
    current_priority (k_thread s' 3) = 20 \<and> mutex_free (k_mutex s' 2))"
  using rt_mutex_release_correct [of demo_mutex 2] demo_mutex_inv by simp





text \<open>
  C36. A thread that gives up waiting for a mutex leaves the owner with the priority it had lent it: after the timeout nobody waits
  any more, and the owner still runs with the raised priority.
\<close>

theorem rt_mutex_timeout_keeps_boost:
  assumes "cb_quiet cb" "sys s" "mutex_inv i s" "mutex_held (k_mutex s i)" "k_current s \<noteq> idle" "k_lock_nest s = 0"
    "k_interrupt_nest s = 0" "owner (k_mutex s i) = own" "own \<noteq> k_current s" "k_tlist s (Suspend (Obj_mutex i)) = []"
    "current_priority (k_thread s (k_current s)) < current_priority (k_thread s own)" "0 < n" "n < 2 ^ 31 - 1"
  shows "ok (do { (r, s) \<leftarrow> rt_mutex_take i (of_nat n) s; s \<leftarrow> run_ticks cb n s; Some (r, s) }) (\<lambda>(r, s').
    r = Waiting \<and> fst (rt_mutex_take_resume i (k_current s) s') = - RT_ETIMEOUT \<and>
    k_tlist s' (Suspend (Obj_mutex i)) = [] \<and> owner (k_mutex s' i) = own \<and>
    current_priority (k_thread s' own) = current_priority (k_thread s (k_current s)))"
proof -
  let ?t = "k_current s" and ?n = "of_nat n :: rt_int32_t" and ?h = "Suspend (Obj_mutex i)"
  have u: "sint ?n = int n" using assms(13) by (simp add: sint_of_nat)
  have n: "?n \<noteq> 0" "?n \<noteq> 0x7fffffff" "0 <s ?n" using u assms(12,13) by (auto simp: word_sless_alt)
  obtain s1 where s1: "rt_mutex_take i ?n s = Some (Waiting, s1)" "sys s1" "kept s s1"
    "\<forall>x. current_priority (k_thread s1 x) = (if x = own then min (current_priority (k_thread s own)) (current_priority (k_thread s ?t))
       else current_priority (k_thread s x)) \<and> thr_stat s1 x = (if x = ?t then RT_THREAD_SUSPEND else thr_stat s x) \<and>
      error (k_thread s1 x) = (if x = ?t then RT_EOK else error (k_thread s x))"
    "k_tlist s1 ?h = wait_insert (obj_flag (k_object s (Obj_mutex i))) (\<lambda>x. current_priority (k_thread s1 x)) ?t (k_tlist s ?h)"
    "Thread_timer ?t \<in> set (k_timers s1 Hard_list)" "left s1 (Thread_timer ?t) = int n"
    using mutex_take_blocks [OF assms(2-4) refl assms(5-9) n(1,2), unfolded if_P [OF n(3)] u] by (elim okE) blast
  have q1: "set (k_tlist s1 ?h) = {?t}"
    using s1(5) set_wait_insert [OF mutex_invD(2) [OF assms(3)]] assms(10) by simp
  note D = sysD [OF s1(2)]
  obtain s2 where s2: "run_ticks cb n s1 = Some s2" "kinv s2" "calm s1 s2" "timed_out s2 ?t"
    using run_ticks_ok [OF assms(1) D(1-4) s1(6,7) assms(12) le_refl] by (auto elim!: okE)
  have "?t \<notin> set (k_tlist s2 ?h)"
    using sched_invD(4) [OF kinvD(1) [OF s2(2)], of ?t ?h] s2(4) by (auto simp: timed_out_def)
  then have "k_tlist s2 ?h = []" using calm_waiting(1) [OF s2(3,2), of _ ?h] q1 by (cases "k_tlist s2 ?h") auto
  moreover have "current_priority (k_thread s2 own) = current_priority (k_thread s ?t)"
    using calmD(14) [OF s2(3), of own] s1(4) assms(11) by (auto simp: min_absorb2)
  moreover have "owner (k_mutex s2 i) = own" using assms(8) by (simp add: calmD(2) [OF s2(3)] keptD(2) [OF s1(3)])
  ultimately show ?thesis
    using s2(4) by (simp add: s1(1) s2(1) ok_Some rt_mutex_take_resume_def timed_out_def)
qed

theorem rt_mutex_timeout_keeps_boost_witness:
  "ok (do { (r, s) \<leftarrow> rt_mutex_take 1 (of_nat 10) demo_mutex; s \<leftarrow> run_ticks (\<lambda>f p. Some) 10 s; Some (r, s) }) (\<lambda>(r, s').
    r = Waiting \<and> fst (rt_mutex_take_resume 1 (k_current demo_mutex) s') = - RT_ETIMEOUT \<and>
    k_tlist s' (Suspend (Obj_mutex 1)) = [] \<and> owner (k_mutex s' 1) = 1 \<and>
    current_priority (k_thread s' 1) = current_priority (k_thread demo_mutex (k_current demo_mutex)))"
  by (rule rt_mutex_timeout_keeps_boost [OF quiet_none demo_mutex_sel(1) demo_mutex_inv(1)]) (simp_all add: idle_def mutex_held_def)

text \<open>
  The counter of nested takes has eight bits and is not checked. An owner that holds the mutex 255 times and takes it
  twice more loses it with the next release, although 256 of its takes are not yet matched by a release.
\<close>

theorem rt_mutex_hold_wraps:
  assumes "sys s" "i \<noteq> RT_NULL" "k_interrupt_nest s = 0" "owner (k_mutex s i) = k_current s" "hold (k_mutex s i) = 0xff"
    "k_tlist s (Suspend (Obj_mutex i)) = []" "unat (original_priority (k_mutex s i)) < RT_THREAD_PRIORITY_MAX"
  shows "ok (do { (r, s) \<leftarrow> rt_mutex_take i time s; (r', s) \<leftarrow> rt_mutex_take i time s; (r'', s) \<leftarrow> rt_mutex_release i s; Some (r, r', r'', s) })
    (\<lambda>(r, r', r'', s'). r = Returned RT_EOK \<and> r' = Returned RT_EOK \<and> r'' = RT_EOK \<and> owner (k_mutex s' i) = RT_NULL)"
proof -
  note D = sysD [OF assms(1)]
  have take: "rt_mutex_take i time s' = Some (Returned RT_EOK, s'\<lparr>k_trace := Hook_take (Obj_mutex i) # Hook_trytake (Obj_mutex i) # k_trace s',
      k_thread := (k_thread s')(k_current s := (k_thread s' (k_current s))\<lparr>error := RT_EOK\<rparr>),
      k_mutex := (k_mutex s')(i := (k_mutex s' i)\<lparr>hold := hold (k_mutex s' i) + 1\<rparr>)\<rparr>)"
    if "k_current s' = k_current s" "owner (k_mutex s' i) = k_current s" "k_interrupt_nest s' = 0" for s'
    using that D(6) assms(2)
    by (simp add: rt_mutex_take_def Let_def RT_DEBUG_IN_THREAD_CONTEXT_def RT_DEBUG_NOT_IN_INTERRUPT_def rt_thread_self_def upd_mutex_def)
  let ?f = "\<lambda>s'. s'\<lparr>k_trace := Hook_take (Obj_mutex i) # Hook_trytake (Obj_mutex i) # k_trace s',
      k_thread := (k_thread s')(k_current s := (k_thread s' (k_current s))\<lparr>error := RT_EOK\<rparr>),
      k_mutex := (k_mutex s')(i := (k_mutex s' i)\<lparr>hold := hold (k_mutex s' i) + 1\<rparr>)\<rparr>"
  have t: "rt_mutex_take i time s = Some (Returned RT_EOK, ?f s)" "rt_mutex_take i time (?f s) = Some (Returned RT_EOK, ?f (?f s))"
    using take [of s] take [of "?f s"] assms(3,4) by simp_all
  have "sys (?f s)" using assms(1) by simp
  then have S: "sys (?f (?f s))" by (subst sys_cong [of _ "?f s"]) (simp_all add: stack_ok_def)
  obtain s2 where "rt_mutex_release i (?f (?f s)) = Some (RT_EOK, s2)" "owner (k_mutex s2 i) = RT_NULL"
    using mutex_release_unwanted [OF S, of i] assms(3-7) by auto
  then show ?thesis unfolding t bind.bind_lunit prod.case by (simp add: t ok_Some)
qed

theorem rt_mutex_hold_wraps_witness:
  "ok (do { (r, s) \<leftarrow> rt_mutex_take 4 0 demo_mutex; (r', s) \<leftarrow> rt_mutex_take 4 0 s; (r'', s) \<leftarrow> rt_mutex_release 4 s; Some (r, r', r'', s) })
    (\<lambda>(r, r', r'', s'). r = Returned RT_EOK \<and> r' = Returned RT_EOK \<and> r'' = RT_EOK \<and> owner (k_mutex s' 4) = RT_NULL)"
  by (rule rt_mutex_hold_wraps) simp_all

end
