(* ===== verification/Event.thy ===== *)
theory Event
  imports Ipc
begin

text \<open>
  Events, \<^verbatim>\<open>rt_event_*\<close> of \<^verbatim>\<open>src/ipc.c\<close>: a set of 32 flags on which threads wait for all or for any of some
  flags. The set and the options a thread waits with are in its fields \<open>event_set\<close> and \<open>event_info\<close>.
\<close>

section \<open>Operations\<close>

abbreviation (input) RT_EVENT_FLAG_AND :: rt_uint8_t where "RT_EVENT_FLAG_AND \<equiv> 1"
abbreviation (input) RT_EVENT_FLAG_OR :: rt_uint8_t where "RT_EVENT_FLAG_OR \<equiv> 2"
abbreviation (input) RT_EVENT_FLAG_CLEAR :: rt_uint8_t where "RT_EVENT_FLAG_CLEAR \<equiv> 4"

definition upd_event :: "nat \<Rightarrow> (rt_uint32_t \<Rightarrow> rt_uint32_t) \<Rightarrow> kstate \<Rightarrow> kstate" where
  "upd_event i f s = s\<lparr>k_event := (k_event s)(i := (k_event s i)\<lparr>ev_set := f (ev_set (k_event s i))\<rparr>)\<rparr>"

definition rt_event_init :: "nat \<Rightarrow> cstr \<Rightarrow> rt_uint8_t \<Rightarrow> kstate \<Rightarrow> kstate option" where
  "rt_event_init i name flag s = do {
     RT_ASSERT (i \<noteq> RT_NULL);
     let s = rt_object_init (Obj_event i) RT_Object_Class_Event name s;
     let s = set_obj_flag (Obj_event i) flag s;
     let s = rt_ipc_object_init (Suspend (Obj_event i)) s;
     Some (upd_event i (\<lambda>_. 0) s)
   }"

definition rt_event_detach :: "nat \<Rightarrow> kstate \<Rightarrow> kstate option" where
  "rt_event_detach i s = do {
     RT_ASSERT (i \<noteq> RT_NULL);
     s \<leftarrow> rt_ipc_list_resume_all (Suspend (Obj_event i)) s;
     Some (rt_object_detach (Obj_event i) s)
   }"

definition rt_event_create :: "nat option \<Rightarrow> cstr \<Rightarrow> rt_uint8_t \<Rightarrow> kstate \<Rightarrow> (nat option \<times> kstate) option" where
  "rt_event_create mem name flag s = do {
     RT_DEBUG_NOT_IN_INTERRUPT s;
     (_, s) \<leftarrow> rt_object_allocate (map_option Obj_event mem) RT_Object_Class_Event name s;
     case mem of
       None \<Rightarrow> Some (None, s)
     | Some i \<Rightarrow>
         let s = set_obj_flag (Obj_event i) flag s;
             s = rt_ipc_object_init (Suspend (Obj_event i)) s
         in Some (Some i, upd_event i (\<lambda>_. 0) s)
   }"

definition rt_event_delete :: "nat \<Rightarrow> kstate \<Rightarrow> kstate option" where
  "rt_event_delete i s = do {
     RT_ASSERT (i \<noteq> RT_NULL);
     RT_DEBUG_NOT_IN_INTERRUPT s;
     s \<leftarrow> rt_ipc_list_resume_all (Suspend (Obj_event i)) s;
     rt_object_delete (Obj_event i) s
   }"

text \<open>Whether a set of flags satisfies a thread that waits for \<open>want\<close> with the options \<open>info\<close>.\<close>

definition event_check :: "rt_uint8_t \<Rightarrow> rt_uint32_t \<Rightarrow> rt_uint32_t \<Rightarrow> bool" where
  "event_check info want flags \<longleftrightarrow>
     (if info AND RT_EVENT_FLAG_AND \<noteq> 0 then want AND flags = want
      else if info AND RT_EVENT_FLAG_OR \<noteq> 0 then want AND flags \<noteq> 0
      else False)"

text \<open>
  The loop of \<^verbatim>\<open>rt_event_send\<close> over the waiting threads. It reads the link to the next node before it
  takes a thread out of the queue, so it visits the threads that were there at the start. The first
  result is \<^verbatim>\<open>need_schedule\<close>.
\<close>

fun event_scan :: "nat \<Rightarrow> tid list \<Rightarrow> kstate \<Rightarrow> (bool \<times> kstate) option" where
  "event_scan i [] s = Some (False, s)"
| "event_scan i (t # ts) s =
     (if event_check (event_info (k_thread s t)) (event_set (k_thread s t)) (ev_set (k_event s i)) then do {
        let s = (if event_info (k_thread s t) AND RT_EVENT_FLAG_AND = 0
                 then upd_thread t (\<lambda>th. th\<lparr>event_set := event_set th AND ev_set (k_event s i)\<rparr>) s else s);
        let s = (if event_info (k_thread s t) AND RT_EVENT_FLAG_CLEAR \<noteq> 0
                 then upd_event i (\<lambda>e. e AND NOT (event_set (k_thread s t))) s else s);
        (_, s) \<leftarrow> rt_thread_resume t s;
        (_, s) \<leftarrow> event_scan i ts s;
        Some (True, s)
      }
      else event_scan i ts s)"

definition rt_event_send :: "nat \<Rightarrow> rt_uint32_t \<Rightarrow> kstate \<Rightarrow> (rt_err_t \<times> kstate) option" where
  "rt_event_send i flags s = do {
     RT_ASSERT (i \<noteq> RT_NULL);
     if flags = 0 then Some (- RT_ERROR, s)
     else do {
       let s = emit (Hook_put (Obj_event i)) s;
       let s = upd_event i (\<lambda>e. e OR flags) s;
       (need_schedule, s) \<leftarrow> event_scan i (k_tlist s (Suspend (Obj_event i))) s;
       s \<leftarrow> (if need_schedule then rt_schedule s else Some s);
       Some (RT_EOK, s)
     }
   }"

text \<open>The second component of the result is what is written to \<^verbatim>\<open>*recved\<close>, if anything.\<close>

definition rt_event_recv ::
  "nat \<Rightarrow> rt_uint32_t \<Rightarrow> rt_uint8_t \<Rightarrow> rt_int32_t \<Rightarrow> kstate \<Rightarrow> (outcome \<times> rt_uint32_t option \<times> kstate) option" where
  "rt_event_recv i flags opt timeout s = do {
     RT_DEBUG_IN_THREAD_CONTEXT s;
     RT_ASSERT (i \<noteq> RT_NULL);
     if flags = 0 then Some (Returned (- RT_ERROR), None, s)
     else do {
       let t = rt_thread_self s;
       let s = upd_thread t (error_update (\<lambda>_. RT_EOK)) s;
       let s = emit (Hook_trytake (Obj_event i)) s;
       RT_ASSERT (opt AND RT_EVENT_FLAG_AND \<noteq> 0 \<or> opt AND RT_EVENT_FLAG_OR \<noteq> 0);
       let e = ev_set (k_event s i);
       if event_check opt flags e then
         let s = (if opt AND RT_EVENT_FLAG_CLEAR \<noteq> 0 then upd_event i (\<lambda>e. e AND NOT flags) s else s)
         in Some (Returned (error (k_thread s t)), Some (e AND flags), emit (Hook_take (Obj_event i)) s)
       else if timeout = 0 then
         let s = upd_thread t (error_update (\<lambda>_. - RT_ETIMEOUT)) s
         in Some (Returned (error (k_thread s t)), None, emit (Hook_take (Obj_event i)) s)
       else do {
         let s = upd_thread t (\<lambda>th. th\<lparr>event_set := flags, event_info := opt\<rparr>) s;
         s \<leftarrow> ipc_wait (Suspend (Obj_event i)) t (obj_flag (k_object s (Obj_event i))) timeout s;
         s \<leftarrow> rt_schedule s;
         Some (Waiting, None, s)
       }
     }
   }"

definition rt_event_recv_resume :: "nat \<Rightarrow> tid \<Rightarrow> kstate \<Rightarrow> rt_err_t \<times> rt_uint32_t option \<times> kstate" where
  "rt_event_recv_resume i t s =
     (if error (k_thread s t) \<noteq> RT_EOK then (error (k_thread s t), None, s)
      else (error (k_thread s t), Some (event_set (k_thread s t)), emit (Hook_take (Obj_event i)) s))"

definition rt_event_control :: "nat \<Rightarrow> rt_uint8_t \<Rightarrow> kstate \<Rightarrow> (rt_err_t \<times> kstate) option" where
  "rt_event_control i cmd s = do {
     RT_ASSERT (i \<noteq> RT_NULL);
     if cmd = RT_IPC_CMD_RESET then do {
       s \<leftarrow> rt_ipc_list_resume_all (Suspend (Obj_event i)) s;
       let s = upd_event i (\<lambda>_. 0) s;
       s \<leftarrow> rt_schedule s;
       Some (RT_EOK, s)
     } else Some (- RT_ERROR, s)
   }"

section \<open>The invariant\<close>

text \<open>No thread waits for flags that are already there.\<close>

definition event_waits :: "rt_uint32_t \<Rightarrow> rt_thread \<Rightarrow> bool" where
  "event_waits flags th \<longleftrightarrow> error th = RT_EOK \<and> \<not> event_check (event_info th) (event_set th) flags"

definition event_inv :: "nat \<Rightarrow> kstate \<Rightarrow> bool" where
  "event_inv i s \<longleftrightarrow> i \<noteq> RT_NULL \<and> obj_flag (k_object s (Obj_event i)) \<in> {RT_IPC_FLAG_FIFO, RT_IPC_FLAG_PRIO} \<and>
     (\<forall>t \<in> set (k_tlist s (Suspend (Obj_event i))). event_waits (ev_set (k_event s i)) (k_thread s t))"

lemma event_invD:
  assumes "event_inv i s"
  shows "i \<noteq> RT_NULL" "obj_flag (k_object s (Obj_event i)) \<in> {RT_IPC_FLAG_FIFO, RT_IPC_FLAG_PRIO}"
    "t \<in> set (k_tlist s (Suspend (Obj_event i))) \<Longrightarrow> event_waits (ev_set (k_event s i)) (k_thread s t)"
  using assms by (simp_all add: event_inv_def)

lemma event_check_mono:
  assumes "event_check info want (flags AND m)"
  shows "event_check info want flags"
proof -
  have "want AND flags = want" if "want AND (flags AND m) = want"
  proof (rule bit_word_eqI)
    fix n assume "n < LENGTH(32)"
    have "bit (want AND (flags AND m)) n = bit want n" using that by simp
    then show "bit (want AND flags) n = bit want n" by (auto simp: bit_simps)
  qed
  moreover have "want AND flags \<noteq> 0" if "want AND (flags AND m) \<noteq> 0"
    using that by (metis and.assoc zero_and_eq)
  ultimately show ?thesis using assms by (auto simp: event_check_def split: if_splits)
qed

lemma event_waits_mono: "event_waits flags th \<Longrightarrow> event_waits (flags AND m) th"
  using event_check_mono by (auto simp: event_waits_def)


section \<open>Sending\<close>

text \<open>What the loop of \<open>rt_event_send\<close> does to one waiting thread.\<close>

definition event_result :: "nat \<Rightarrow> kstate \<Rightarrow> kstate \<Rightarrow> tid \<Rightarrow> bool" where
  "event_result i s s' t \<longleftrightarrow>
     (let th = k_thread s t in
      if thr_stat s' t = RT_THREAD_SUSPEND then k_thread s' t = th \<and> \<not> event_check (event_info th) (event_set th) (ev_set (k_event s' i))
      else \<exists>m. event_check (event_info th) (event_set th) (ev_set (k_event s i) AND m) \<and>
        k_thread s' t = th\<lparr>event_set := event_set th AND ev_set (k_event s i) AND m, stat := RT_THREAD_READY\<rparr>)"

definition event_frame :: "nat \<Rightarrow> kstate \<Rightarrow> kstate \<Rightarrow> bool" where
  "event_frame i s s' \<longleftrightarrow> k_current s' = k_current s \<and> k_lock_nest s' = k_lock_nest s \<and> k_interrupt_nest s' = k_interrupt_nest s \<and>
     (\<forall>ob. (\<forall>m. ob \<noteq> Obj_timer m) \<longrightarrow> k_object s' ob = k_object s ob) \<and>
     (\<forall>j. j \<noteq> i \<longrightarrow> k_event s' j = k_event s j) \<and> (\<exists>m. ev_set (k_event s' i) = ev_set (k_event s i) AND m)"

lemma event_scan_ok:
  assumes "sys s" "k_tlist s (Suspend (Obj_event i)) = ds @ ts"
  shows "ok (event_scan i ts s) (\<lambda>(n, s'). sys s' \<and> event_frame i s s' \<and>
    n = (\<exists>t \<in> set ts. thr_stat s' t = RT_THREAD_READY) \<and>
    k_tlist s' (Suspend (Obj_event i)) = ds @ filter (\<lambda>t. thr_stat s' t = RT_THREAD_SUSPEND) ts \<and>
    (\<forall>t \<in> set ts. event_result i s s' t) \<and> (\<forall>t. t \<notin> set ts \<longrightarrow> k_thread s' t = k_thread s t) \<and>
    ((\<forall>t \<in> set ts. event_info (k_thread s t) AND RT_EVENT_FLAG_CLEAR = 0) \<longrightarrow> ev_set (k_event s' i) = ev_set (k_event s i)))"
  using assms
proof (induction ts arbitrary: ds s)
  case Nil
  have "\<exists>m. ev_set (k_event s i) = ev_set (k_event s i) AND m" by (rule exI [of _ "- 1"]) simp
  then show ?case using Nil by (simp add: ok_Some event_frame_def)
next
  case (Cons t ts)
  let ?h = "Suspend (Obj_event i)" and ?th = "k_thread s t" and ?e = "ev_set (k_event s i)"
  have st: "thr_stat s t = RT_THREAD_SUSPEND"
    using sched_invD(4) [OF kinvD(1) [OF sysD(1) [OF Cons.prems(1)]], of t ?h] Cons.prems(2) by simp
  have d: "t \<notin> set ts" "t \<notin> set ds"
    using qs_wfD(1) [OF sched_invD(1) [OF kinvD(1) [OF sysD(1) [OF Cons.prems(1)]]], of ?h] Cons.prems(2) by auto
  show ?case
  proof (cases "event_check (event_info ?th) (event_set ?th) ?e")
    case False
    have q: "k_tlist s ?h = (ds @ [t]) @ ts" using Cons.prems(2) by simp
    have n: "\<not> event_check (event_info ?th) (event_set ?th) (?e AND m)" for m using False event_check_mono by blast
    obtain b s' where s': "event_scan i ts s = Some (b, s')" "sys s'" "event_frame i s s'"
      "b = (\<exists>t \<in> set ts. thr_stat s' t = RT_THREAD_READY)"
      "k_tlist s' ?h = (ds @ [t]) @ filter (\<lambda>t. thr_stat s' t = RT_THREAD_SUSPEND) ts"
      "\<forall>t \<in> set ts. event_result i s s' t" "\<forall>t. t \<notin> set ts \<longrightarrow> k_thread s' t = k_thread s t"
      "(\<forall>t \<in> set ts. event_info (k_thread s t) AND RT_EVENT_FLAG_CLEAR = 0) \<longrightarrow> ev_set (k_event s' i) = ?e"
      using Cons.IH [OF Cons.prems(1) q] by (elim okE) blast
    have th: "k_thread s' t = ?th" using s'(7) d by blast
    have "event_result i s s' t" using s'(3) st n by (auto simp: event_result_def event_frame_def th)
    then show ?thesis
      unfolding event_scan.simps if_not_P [OF False] s'(1)
      using s'(2-8) st by (simp add: ok_Some th)
  next
    case True
    let ?w = "event_set ?th AND ?e"
    let ?e1 = "if event_info ?th AND RT_EVENT_FLAG_CLEAR \<noteq> 0 then ?e AND NOT ?w else ?e"
    let ?s1 = "s\<lparr>k_thread := (k_thread s)(t := ?th\<lparr>event_set := ?w\<rparr>), k_event := (k_event s)(i := (k_event s i)\<lparr>ev_set := ?e1\<rparr>)\<rparr>"
    have w: "?th\<lparr>event_set := ?w\<rparr> = ?th" if "event_info ?th AND 1 \<noteq> 0"
      using True that by (cases ?th) (simp add: event_check_def)
    have e: "(k_event s)(i := k_event s i\<lparr>ev_set := ?e\<rparr>) = k_event s" by (cases "k_event s i") auto
    have a: "(if event_info ?th AND 1 = 0 then upd_thread t (\<lambda>th. th\<lparr>event_set := event_set th AND ?e\<rparr>) s else s) =
        s\<lparr>k_thread := (k_thread s)(t := ?th\<lparr>event_set := ?w\<rparr>)\<rparr>" (is "_ = ?sa")
      using w by simp
    have b: "(if event_info (k_thread ?sa t) AND 4 \<noteq> 0 then upd_event i (\<lambda>e. e AND NOT (event_set (k_thread ?sa t))) ?sa else ?sa) = ?s1"
      using e by (simp add: upd_event_def)
    have eq: "event_scan i (t # ts) s = do { (_, s) \<leftarrow> rt_thread_resume t ?s1; (_, s) \<leftarrow> event_scan i ts s; Some (True, s) }"
      unfolding event_scan.simps if_P [OF True] Let_def a b ..
    have S1: "sys ?s1" using Cons.prems(1) by simp
    have t1: "t \<in> set (k_tlist ?s1 ?h)" using Cons.prems(2) by simp
    obtain s2 where s2: "rt_thread_resume t ?s1 = Some (RT_EOK, s2)" "sys s2" "kept ?s1 s2" "k_current s2 = k_current ?s1"
      "k_thread s2 = (k_thread s)(t := ?th\<lparr>event_set := ?w, stat := RT_THREAD_READY\<rparr>)" "k_tlist s2 ?h = remove1 t (k_tlist s ?h)"
      using sys_resume [OF S1 t1] by (auto elim!: okE)
    have q: "k_tlist s2 ?h = ds @ ts" using s2(6) Cons.prems(2) d by (simp add: remove1_append)
    obtain m1 where m1: "ev_set (k_event s2 i) = ?e AND m1"
    proof
      show "ev_set (k_event s2 i) = ?e AND (if event_info ?th AND RT_EVENT_FLAG_CLEAR \<noteq> 0 then NOT ?w else - 1)"
        by (simp add: keptD(3) [OF s2(3)])
    qed
    obtain b s' where s': "event_scan i ts s2 = Some (b, s')" "sys s'" "event_frame i s2 s'"
      "k_tlist s' ?h = ds @ filter (\<lambda>t. thr_stat s' t = RT_THREAD_SUSPEND) ts"
      "\<forall>t \<in> set ts. event_result i s2 s' t" "\<forall>t. t \<notin> set ts \<longrightarrow> k_thread s' t = k_thread s2 t"
      "(\<forall>t \<in> set ts. event_info (k_thread s2 t) AND RT_EVENT_FLAG_CLEAR = 0) \<longrightarrow> ev_set (k_event s' i) = ev_set (k_event s2 i)"
      using Cons.IH [OF s2(2) q] by (elim okE) blast
    have th: "k_thread s' t = ?th\<lparr>event_set := ?w, stat := RT_THREAD_READY\<rparr>" using s'(6) d s2(5) by simp
    have f: "event_frame i s s'"
      using s'(3) s2(4) keptD(3,9,10,14) [OF s2(3)] m1 by (auto simp: event_frame_def and.assoc)
    have rt: "event_result i s s' t"
      unfolding event_result_def Let_def th using True by (simp, intro exI [of _ "- 1"]) simp
    have rx: "event_result i s s' x" if x: "x \<in> set ts" for x
    proof -
      have "k_thread s2 x = k_thread s x" using x d(1) s2(5) by auto
      with s'(5) x show ?thesis
        unfolding event_result_def Let_def m1 by (metis and.assoc)
    qed
    have c: "ev_set (k_event s' i) = ?e" if "\<forall>t \<in> set (t # ts). event_info (k_thread s t) AND RT_EVENT_FLAG_CLEAR = 0"
      using s'(7) that d(1) by (auto simp: s2(5) keptD(3) [OF s2(3)])
    show ?thesis
      unfolding eq s2(1) s'(1) bind.bind_lunit prod.case ok_Some
      using s'(2) f rt rx c th s'(4,6) s2(5) by simp
  qed
qed

lemma event_send_ok:
  assumes inv: "sys s" "event_inv i s" and f: "flags \<noteq> 0"
  defines "q \<equiv> k_tlist s (Suspend (Obj_event i))" and "e \<equiv> ev_set (k_event s i) OR flags"
  shows "ok (rt_event_send i flags s) (\<lambda>(r, s'). r = RT_EOK \<and> sys s' \<and>
    obj_flag (k_object s' (Obj_event i)) = obj_flag (k_object s (Obj_event i)) \<and>
    k_tlist s' (Suspend (Obj_event i)) = filter (\<lambda>t. thr_stat s' t = RT_THREAD_SUSPEND) q \<and>
    (\<forall>t \<in> set q. event_result i (upd_event i (\<lambda>_. e) s) s' t) \<and>
    ((\<forall>t \<in> set q. event_info (k_thread s t) AND RT_EVENT_FLAG_CLEAR = 0) \<longrightarrow> ev_set (k_event s' i) = e) \<and>
    (k_lock_nest s = 0 \<and> (\<exists>t \<in> set q. thr_stat s' t = RT_THREAD_READY) \<longrightarrow>
       (\<exists>p. highest s' p \<and> k_current s' = hd (ready_q s' p))))"
proof -
  let ?h = "Suspend (Obj_event i)"
  let ?s = "s\<lparr>k_trace := Hook_put (Obj_event i) # k_trace s, k_event := (k_event s)(i := (k_event s i)\<lparr>ev_set := e\<rparr>)\<rparr>"
  have S: "sys ?s" using inv(1) by simp
  obtain n s1 where s1: "event_scan i q ?s = Some (n, s1)" "sys s1" "event_frame i ?s s1"
      "n = (\<exists>t \<in> set q. thr_stat s1 t = RT_THREAD_READY)"
      "k_tlist s1 ?h = filter (\<lambda>t. thr_stat s1 t = RT_THREAD_SUSPEND) q" "\<forall>t \<in> set q. event_result i ?s s1 t"
      "(\<forall>t \<in> set q. event_info (k_thread s t) AND RT_EVENT_FLAG_CLEAR = 0) \<longrightarrow> ev_set (k_event s1 i) = e"
    using event_scan_ok [OF S, of i "[]" q] by (auto simp: q_def elim!: okE)
  have l: "k_lock_nest s1 = k_lock_nest s" "k_object s1 (Obj_event i) = k_object s (Obj_event i)"
    using s1(3) by (simp_all add: event_frame_def)
  have eq: "rt_event_send i flags s = do { s \<leftarrow> (if n then rt_schedule s1 else Some s1); Some (RT_EOK, s) }"
    using event_invD(1) [OF inv(2)] f s1(1) by (simp add: rt_event_send_def Let_def upd_event_def q_def e_def)
  have R: "event_result i (upd_event i (\<lambda>_. e) s) s' t"
    if "event_result i ?s s1 t" "k_thread s' = k_thread s1" "k_event s' = k_event s1" for s' t
    using that by (cases "thr_stat s1 t = RT_THREAD_SUSPEND") (simp_all add: event_result_def upd_event_def Let_def)
  show ?thesis
  proof (cases n)
    case False
    have "\<forall>t \<in> set q. event_result i (upd_event i (\<lambda>_. e) s) s1 t" using s1(6) R by blast
    with False show ?thesis
      unfolding eq if_not_P [OF False] bind.bind_lunit ok_Some prod.case using s1(2,4,5,7) l(2) by simp
  next
    case True
    obtain s2 where s2: "rt_schedule s1 = Some s2" "sys s2" "only_switched s1 s2"
      "k_lock_nest s1 = 0 \<longrightarrow> (\<exists>p. highest s2 p \<and> k_current s2 = hd (ready_q s2 p))"
      using sys_resched [OF sysD(1,2,4) [OF s1(2)]] sysD(3) [OF s1(2)] by (auto elim!: okE)
    note k = only_switchedD [OF s2(3)]
    have q2: "k_tlist s2 ?h = filter (\<lambda>t. thr_stat s2 t = RT_THREAD_SUSPEND) q" using s1(5) by (simp add: k)
    have r2: "\<forall>t \<in> set q. event_result i (upd_event i (\<lambda>_. e) s) s2 t" using s1(6) R k by blast
    show ?thesis
      unfolding eq if_P [OF True] s2(1) bind.bind_lunit ok_Some prod.case
      using s2(2,4) q2 r2 s1(7) l k by simp
  qed
qed

section \<open>Receiving\<close>

lemma event_recv_waits:
  assumes inv: "sys s" "event_inv i s" and t: "k_current s = t" "t \<noteq> idle" "k_lock_nest s = 0" "k_interrupt_nest s = 0"
    and opt: "opt AND RT_EVENT_FLAG_AND \<noteq> 0 \<or> opt AND RT_EVENT_FLAG_OR \<noteq> 0" "flags \<noteq> 0"
    and no: "\<not> event_check opt flags (ev_set (k_event s i))" and time: "time \<noteq> 0" "time \<noteq> 0x7fffffff"
  shows "ok (rt_event_recv i flags opt time s) (\<lambda>(r, v, s'). r = Waiting \<and> v = None \<and> sys s' \<and> kept s s' \<and>
    k_thread s' = (k_thread s)(t := (k_thread s t)\<lparr>error := RT_EOK, event_set := flags, event_info := opt, stat := RT_THREAD_SUSPEND\<rparr>) \<and>
    k_tlist s' (Suspend (Obj_event i)) = wait_insert (obj_flag (k_object s (Obj_event i))) (\<lambda>x. current_priority (k_thread s x)) t
         (k_tlist s (Suspend (Obj_event i))))"
proof -
  let ?s = "s\<lparr>k_trace := Hook_trytake (Obj_event i) # k_trace s,
    k_thread := (k_thread s)(t := (k_thread s t)\<lparr>error := RT_EOK, event_set := flags, event_info := opt\<rparr>)\<rparr>"
  let ?h = "Suspend (Obj_event i)" and ?f = "obj_flag (k_object s (Obj_event i))"
  have S: "sys ?s" using inv(1) by (subst sys_cong [of _ s]) (simp_all add: stack_ok_def)
  have eq: "rt_event_recv i flags opt time s = do { s \<leftarrow> do { s \<leftarrow> ipc_wait ?h t ?f time ?s; rt_schedule s }; Some (Waiting, None, s) }"
    using event_invD(1) [OF inv(2)] opt no time(1) t sysD(6) [OF inv(1)]
    by (simp add: rt_event_recv_def Let_def RT_DEBUG_IN_THREAD_CONTEXT_def RT_DEBUG_NOT_IN_INTERRUPT_def rt_thread_self_def
      RT_ASSERT_def)
  have pr: "(\<lambda>x. current_priority (k_thread ?s x)) = (\<lambda>x. current_priority (k_thread s x))" by auto
  obtain s' where s': "do { s \<leftarrow> ipc_wait ?h t ?f time ?s; rt_schedule s } = Some s'" "sys s'" "kept ?s s'"
    "k_thread s' = (k_thread ?s)(t := (k_thread ?s t)\<lparr>stat := RT_THREAD_SUSPEND\<rparr>)"
    "k_tlist s' = (qs_remove t (k_tlist ?s))(?h := wait_insert ?f (\<lambda>x. current_priority (k_thread ?s x)) t (k_tlist ?s ?h))"
    using block_ok [OF S _ t(2) _ event_invD(2) [OF inv(2)] time(2), of ?h] t(1,3) by (auto elim!: okE)
  have "kept s s'" using s'(3) by (simp add: kept_def)
  then show ?thesis unfolding eq s'(1) bind.bind_lunit ok_Some prod.case s'(5) pr using s'(2,4) by simp
qed

lemma event_inv_waiter:
  assumes "event_inv i s" "kept s s'" "\<not> event_check opt flags (ev_set (k_event s i))"
    "k_thread s' = (k_thread s)(t := (k_thread s t)\<lparr>error := RT_EOK, event_set := flags, event_info := opt, stat := RT_THREAD_SUSPEND\<rparr>)"
    "k_tlist s' (Suspend (Obj_event i)) = wait_insert (obj_flag (k_object s (Obj_event i))) p t (k_tlist s (Suspend (Obj_event i)))"
  shows "event_inv i s'"
  using assms(3) event_invD [OF assms(1)] set_wait_insert [OF event_invD(2) [OF assms(1)]]
  by (simp add: event_inv_def assms(4,5) keptD(3,14) [OF assms(2)] event_waits_def)

lemma event_recv_returns:
  assumes inv: "sys s" "event_inv i s" and t: "k_interrupt_nest s = 0"
    and opt: "opt AND RT_EVENT_FLAG_AND \<noteq> 0 \<or> opt AND RT_EVENT_FLAG_OR \<noteq> 0" "flags \<noteq> 0"
    and c: "event_check opt flags (ev_set (k_event s i)) \<or> time = 0"
  shows "ok (rt_event_recv i flags opt time s) (\<lambda>(r, v, s'). sys s' \<and> event_inv i s' \<and> k_tlist s' = k_tlist s \<and>
    (if event_check opt flags (ev_set (k_event s i)) then r = Returned RT_EOK \<and> v = Some (ev_set (k_event s i) AND flags) \<and>
       ev_set (k_event s' i) = (if opt AND RT_EVENT_FLAG_CLEAR \<noteq> 0 then ev_set (k_event s i) AND NOT flags else ev_set (k_event s i))
     else r = Returned (- RT_ETIMEOUT) \<and> v = None \<and> k_event s' = k_event s))"
proof -
  let ?t = "k_current s" and ?e = "ev_set (k_event s i)"
  have q: "?t \<notin> set (k_tlist s (Suspend (Obj_event i)))"
    using sched_invD(4) [OF kinvD(1) [OF sysD(1) [OF inv(1)]], of ?t "Suspend (Obj_event i)"] sysD(5) [OF inv(1)] by auto
  have W: "event_waits (if b then ?e AND NOT flags else ?e) (if x = ?t then a else k_thread s x)"
    if "x \<in> set (k_tlist s (Suspend (Obj_event i)))" for x a b
    using event_invD(3) [OF inv(2) that] event_waits_mono q that by auto
  have eq: "rt_event_recv i flags opt time s =
      (let s1 = s\<lparr>k_trace := Hook_take (Obj_event i) # Hook_trytake (Obj_event i) # k_trace s\<rparr> in
       if event_check opt flags ?e then
         Some (Returned RT_EOK, Some (?e AND flags), s1\<lparr>k_thread := (k_thread s)(?t := (k_thread s ?t)\<lparr>error := RT_EOK\<rparr>),
           k_event := (k_event s)(i := (k_event s i)\<lparr>ev_set := if opt AND RT_EVENT_FLAG_CLEAR \<noteq> 0 then ?e AND NOT flags else ?e\<rparr>)\<rparr>)
       else Some (Returned (- RT_ETIMEOUT), None, s1\<lparr>k_thread := (k_thread s)(?t := (k_thread s ?t)\<lparr>error := - RT_ETIMEOUT\<rparr>)\<rparr>))"
    using event_invD(1) [OF inv(2)] opt t sysD(6) [OF inv(1)] c
    by (cases "event_check opt flags ?e") (simp_all add: rt_event_recv_def Let_def RT_DEBUG_IN_THREAD_CONTEXT_def RT_DEBUG_NOT_IN_INTERRUPT_def rt_thread_self_def
      RT_ASSERT_def upd_event_def)
  show ?thesis
    using inv(1) event_invD(1,2) [OF inv(2)] W [where b = False] W [where b = True]
    unfolding eq Let_def by (simp add: ok_Some event_inv_def)
qed

section \<open>Properties\<close>

interpretation event: ipc_class Obj_event rt_event_detach rt_event_delete "\<lambda>_ _. []"
  by unfold_locales (simp_all add: rt_event_detach_def rt_event_delete_def RT_ASSERT_def RT_DEBUG_NOT_IN_INTERRUPT_def)


text \<open>
  C14. \<open>rt_event_recv\<close> on every branch. When the flags satisfy the condition the call returns those of them the caller asked for, and
  clears what it was told to; otherwise it fails at once or the thread is suspended with its condition recorded. Nothing of it makes a
  thread wait for flags that are there. Without one of the options AND and OR the assertion fails, and for no flags at all the call fails.
\<close>

theorem rt_event_recv_correct:
  assumes "sys s" "event_inv i s" "k_current s \<noteq> idle" "k_lock_nest s = 0" "k_interrupt_nest s = 0" "time \<noteq> 0x7fffffff"
    "e = ev_set (k_event s i)" "q = k_tlist s (Suspend (Obj_event i))"
  shows "if flags = 0 then rt_event_recv i flags opt time s = Some (Returned (- RT_ERROR), None, s)
    else if opt AND RT_EVENT_FLAG_AND = 0 \<and> opt AND RT_EVENT_FLAG_OR = 0 then rt_event_recv i flags opt time s = None
    else ok (rt_event_recv i flags opt time s) (\<lambda>(r, v, s'). sys s' \<and> event_inv i s' \<and>
      (if event_check opt flags e then r = Returned RT_EOK \<and> v = Some (e AND flags) \<and>
         ev_set (k_event s' i) = (if opt AND RT_EVENT_FLAG_CLEAR \<noteq> 0 then e AND NOT flags else e)
       else v = None \<and> ev_set (k_event s' i) = e \<and> r = (if time = 0 then Returned (- RT_ETIMEOUT) else Waiting)) \<and>
      (if r = Waiting then thr_stat s' (k_current s) = RT_THREAD_SUSPEND \<and>
         event_set (k_thread s' (k_current s)) = flags \<and> event_info (k_thread s' (k_current s)) = opt \<and>
         k_tlist s' (Suspend (Obj_event i)) =
           wait_insert (obj_flag (k_object s (Obj_event i))) (\<lambda>x. current_priority (k_thread s x)) (k_current s) q
       else k_tlist s' (Suspend (Obj_event i)) = q))"
proof -
  note P = event_invD(1) [OF assms(2)] assms(5) sysD(6) [OF assms(1)]
  have 1: "rt_event_recv i flags opt time s = Some (Returned (- RT_ERROR), None, s)" if "flags = 0"
    using that P by (simp add: rt_event_recv_def RT_DEBUG_IN_THREAD_CONTEXT_def RT_DEBUG_NOT_IN_INTERRUPT_def rt_thread_self_def)
  have 2: "rt_event_recv i flags opt time s = None" if "flags \<noteq> 0" "opt AND RT_EVENT_FLAG_AND = 0 \<and> opt AND RT_EVENT_FLAG_OR = 0"
    using that P by (simp add: rt_event_recv_def RT_DEBUG_IN_THREAD_CONTEXT_def RT_DEBUG_NOT_IN_INTERRUPT_def RT_ASSERT_def Let_def)
  show ?thesis
  proof (cases "flags = 0 \<or> opt AND RT_EVENT_FLAG_AND = 0 \<and> opt AND RT_EVENT_FLAG_OR = 0")
    case True
    then show ?thesis using 1 2 by auto
  next
    case False
    then have opt: "opt AND RT_EVENT_FLAG_AND \<noteq> 0 \<or> opt AND RT_EVENT_FLAG_OR \<noteq> 0" "flags \<noteq> 0" by auto
    show ?thesis
    proof (cases "event_check opt flags (ev_set (k_event s i)) \<or> time = 0")
      case True
      obtain r v s' where s': "rt_event_recv i flags opt time s = Some (r, v, s')" "sys s'" "event_inv i s'" "k_tlist s' = k_tlist s"
        "if event_check opt flags e then r = Returned RT_EOK \<and> v = Some (e AND flags) \<and>
           ev_set (k_event s' i) = (if opt AND RT_EVENT_FLAG_CLEAR \<noteq> 0 then e AND NOT flags else e)
         else r = Returned (- RT_ETIMEOUT) \<and> v = None \<and> k_event s' = k_event s"
        using event_recv_returns [OF assms(1,2,5) opt True] unfolding assms(7) by (elim okE) blast
      then show ?thesis
        using opt True by (cases "event_check opt flags e") (simp_all add: ok_Some assms(7,8))
    next
      case False
      then have no: "\<not> event_check opt flags (ev_set (k_event s i))" and ti: "time \<noteq> 0" by auto
      obtain s' where s': "rt_event_recv i flags opt time s = Some (Waiting, None, s')" "sys s'" "kept s s'"
        "k_thread s' = (k_thread s)(k_current s := (k_thread s (k_current s))\<lparr>error := RT_EOK, event_set := flags, event_info := opt, stat := RT_THREAD_SUSPEND\<rparr>)"
        "k_tlist s' (Suspend (Obj_event i)) = wait_insert (obj_flag (k_object s (Obj_event i))) (\<lambda>x. current_priority (k_thread s x)) (k_current s)
           (k_tlist s (Suspend (Obj_event i)))"
        using event_recv_waits [OF assms(1,2) refl assms(3-5) opt no ti assms(6)] by (elim okE) blast
      have "event_inv i s'" by (rule event_inv_waiter [OF assms(2) s'(3) _ s'(4,5)]) (use False in blast)
      then show ?thesis using opt False s'(2) by (simp add: s'(1,4,5) ok_Some keptD(3) [OF s'(3)] assms(7,8))
    qed
  qed
qed

lemma reset_event [simp]: "ev_set (k_event k_reset i) = 0"
  by (simp add: k_reset_def)

lemma demo_event_inv: "event_inv 2 demo"
  by (simp add: event_inv_def)

theorem rt_event_recv_correct_witness:
  "rt_event_recv 2 0 1 10 demo = Some (Returned (- RT_ERROR), None, demo) \<and> rt_event_recv 2 6 RT_EVENT_FLAG_CLEAR 10 demo = None \<and>
   ok (rt_event_recv 2 6 RT_EVENT_FLAG_OR 10 demo) (\<lambda>(r, v, s'). sys s' \<and> event_inv 2 s' \<and> r = Waiting \<and> v = None \<and>
     k_tlist s' (Suspend (Obj_event 2)) = [k_current demo])"
proof (intro conjI)
  show "rt_event_recv 2 0 1 10 demo = Some (Returned (- RT_ERROR), None, demo)"
    using rt_event_recv_correct [OF demo_sys demo_event_inv, of 10 0 "[]" 0 1] by (simp add: idle_def)
  show "rt_event_recv 2 6 RT_EVENT_FLAG_CLEAR 10 demo = None"
    using rt_event_recv_correct [OF demo_sys demo_event_inv, of 10 0 "[]" 6 4] by (simp add: idle_def)
  have "ok (rt_event_recv 2 6 2 10 demo) (\<lambda>(r, v, s'). sys s' \<and> event_inv 2 s' \<and>
      (v = None \<and> ev_set (k_event s' 2) = 0 \<and> r = Waiting) \<and>
      (if r = Waiting then thr_stat s' (k_current demo) = RT_THREAD_SUSPEND \<and> event_set (k_thread s' (k_current demo)) = 6 \<and>
         event_info (k_thread s' (k_current demo)) = 2 \<and>
         k_tlist s' (Suspend (Obj_event 2)) =
           wait_insert (obj_flag (k_object demo (Obj_event 2))) (\<lambda>x. current_priority (k_thread demo x)) (k_current demo) []
       else k_tlist s' (Suspend (Obj_event 2)) = []))"
    using rt_event_recv_correct [OF demo_sys demo_event_inv, of 10 0 "[]" 6 2] by (simp add: idle_def event_check_def split del: if_split)
  then show "ok (rt_event_recv 2 6 RT_EVENT_FLAG_OR 10 demo) (\<lambda>(r, v, s'). sys s' \<and> event_inv 2 s' \<and> r = Waiting \<and> v = None \<and>
     k_tlist s' (Suspend (Obj_event 2)) = [k_current demo])"
    by (rule ok_mono) (auto simp: wait_insert_def)
qed


end
