(* ===== verification/Fifo.thy ===== *)
theory Fifo
  imports Prelude
begin

text \<open>
  Bounded first-in-first-out buffers: what the mailbox, the message queue and the ring buffer promise to
  their users. The locale states the contract of one \<open>put\<close> and one \<open>get\<close>; what follows for sequences of them
  is proved once.
\<close>

datatype 'a fifo_op = Put 'a | Get

fun fifo_run :: "('a \<Rightarrow> 'q \<Rightarrow> 'q option) \<Rightarrow> ('q \<Rightarrow> ('a \<times> 'q) option) \<Rightarrow> 'a fifo_op list \<Rightarrow> 'q \<Rightarrow> ('a list \<times> 'q) option" where
  "fifo_run put get [] q = Some ([], q)"
| "fifo_run put get (Put x # ops) q = do { q \<leftarrow> put x q; fifo_run put get ops q }"
| "fifo_run put get (Get # ops) q = do { (x, q) \<leftarrow> get q; (xs, q) \<leftarrow> fifo_run put get ops q; Some (x # xs, q) }"

text \<open>The values put by a sequence, and whether it keeps within a capacity.\<close>

fun puts :: "'a fifo_op list \<Rightarrow> 'a list" where
  "puts [] = []"
| "puts (Put x # ops) = x # puts ops"
| "puts (Get # ops) = puts ops"

fun fits :: "nat \<Rightarrow> nat \<Rightarrow> 'a fifo_op list \<Rightarrow> bool" where
  "fits c n [] \<longleftrightarrow> True"
| "fits c n (Put x # ops) \<longleftrightarrow> n < c \<and> fits c (Suc n) ops"
| "fits c n (Get # ops) \<longleftrightarrow> 0 < n \<and> fits c (n - 1) ops"

locale bounded_fifo =
  fixes put :: "'a \<Rightarrow> 'q \<Rightarrow> 'q option" and get :: "'q \<Rightarrow> ('a \<times> 'q) option"
    and good :: "'q \<Rightarrow> bool" and contents :: "'q \<Rightarrow> 'a list" and capacity :: "'q \<Rightarrow> nat" and valid :: "'a \<Rightarrow> bool"
  assumes put_ok: "good q \<Longrightarrow> valid x \<Longrightarrow> length (contents q) < capacity q \<Longrightarrow>
      ok (put x q) (\<lambda>q'. good q' \<and> contents q' = contents q @ [x] \<and> capacity q' = capacity q)"
    and get_ok: "good q \<Longrightarrow> contents q = x # xs \<Longrightarrow>
      ok (get q) (\<lambda>(y, q'). y = x \<and> good q' \<and> contents q' = xs \<and> capacity q' = capacity q)"
    and bounded: "good q \<Longrightarrow> length (contents q) \<le> capacity q"
begin

text \<open>Every sequence that keeps within the capacity runs, and the values come out in the order they went in.\<close>

lemma run_ok:
  assumes "good q" "fits (capacity q) (length (contents q)) ops" "\<forall>x \<in> set (puts ops). valid x"
  shows "ok (fifo_run put get ops q) (\<lambda>(out, q'). good q' \<and> out @ contents q' = contents q @ puts ops \<and> capacity q' = capacity q)"
  using assms
proof (induction ops arbitrary: q rule: puts.induct)
  case 1
  then show ?case by (simp add: ok_Some)
next
  case (2 x ops)
  obtain q1 where q1: "put x q = Some q1" "good q1" "contents q1 = contents q @ [x]" "capacity q1 = capacity q"
    using put_ok [OF 2(2), of x] 2(3,4) by (auto elim!: okE)
  show ?case using 2(1) [OF q1(2)] 2(3,4) q1(3,4) by (simp add: q1(1) ok_Some)
next
  case (3 ops)
  then obtain x xs where c: "contents q = x # xs" by (cases "contents q") auto
  obtain q1 where q1: "get q = Some (x, q1)" "good q1" "contents q1 = xs" "capacity q1 = capacity q"
    using get_ok [OF 3(2) c] by (auto elim!: okE)
  obtain out q2 where "fifo_run put get ops q1 = Some (out, q2)" "good q2" "out @ contents q2 = xs @ puts ops" "capacity q2 = capacity q"
    using 3(1) [OF q1(2)] 3(3,4) q1(3,4) c by (auto elim!: okE)
  then show ?case by (simp add: q1(1) c ok_Some)
qed

text \<open>In particular, a value put into a buffer with room comes out after everything that was there before.\<close>

lemma put_then_get:
  assumes "good q" "valid x" "length (contents q) < capacity q"
  shows "ok (fifo_run put get (Put x # replicate (Suc (length (contents q))) Get) q)
    (\<lambda>(out, q'). good q' \<and> out = contents q @ [x] \<and> contents q' = [])"
proof -
  let ?ops = "Put x # replicate (Suc (length (contents q))) Get"
  have f: "fits c n (replicate k Get)" if "k \<le> n" for c n k :: nat
    using that by (induction k arbitrary: n) auto
  have p: "puts (replicate k Get) = []" for k by (induction k) auto
  have "fits (capacity q) (length (contents q)) ?ops"
    unfolding fits.simps by (intro conjI f) (use assms(3) in auto)
  then obtain out q' where r: "fifo_run put get ?ops q = Some (out, q')" "good q'" "out @ contents q' = contents q @ [x]"
    using run_ok [OF assms(1), of ?ops] assms(2) by (auto simp: p simp del: replicate_Suc fifo_run.simps fits.simps elim!: okE)
  have l: "length out = k" if "fifo_run put get (replicate k Get) a = Some (out, b)" for k out a b
    using that by (induction k arbitrary: a out) (auto split: Option.bind_splits)
  obtain q1 where "fifo_run put get (replicate (Suc (length (contents q))) Get) q1 = Some (out, q')"
    using r(1) by (auto simp del: replicate_Suc split: Option.bind_splits)
  then have "length out = length (contents q @ [x])" using l by fastforce
  then have "out = contents q @ [x] \<and> contents q' = []" using r(3) by (metis append_eq_append_conv append_self_conv)
  then show ?thesis using r(1,2) by (simp add: ok_Some del: replicate_Suc fifo_run.simps)
qed

end

end
