(* ===== verification/Mailbox.thy ===== *)
theory Mailbox
  imports Ipc Fifo
begin

text \<open>
  Mailboxes, \<^verbatim>\<open>rt_mb_*\<close> of \<^verbatim>\<open>src/ipc.c\<close>: a ring of words, with a queue of threads that wait for mail and one of
  threads that wait for room. A blocking call is a loop; each of its passes ends with a result or with the call of
  \<^verbatim>\<open>rt_schedule\<close>, after which the thread continues with the next pass.
\<close>

section \<open>The ring\<close>

definition next_offset :: "rt_uint16_t \<Rightarrow> rt_uint16_t \<Rightarrow> rt_uint16_t" where
  "next_offset sz off = (if sz \<le> off + 1 then 0 else off + 1)"

definition mb_put :: "rt_uint32_t \<Rightarrow> rt_mailbox \<Rightarrow> rt_mailbox option" where
  "mb_put value m =
     (if unat (in_offset m) < length (msg_pool m)
      then Some (m\<lparr>msg_pool := (msg_pool m)[unat (in_offset m) := value],
        in_offset := next_offset (mb_size m) (in_offset m), mb_entry := mb_entry m + 1\<rparr>)
      else None)"

definition mb_get :: "rt_mailbox \<Rightarrow> (rt_uint32_t \<times> rt_mailbox) option" where
  "mb_get m =
     (if unat (out_offset m) < length (msg_pool m)
      then Some (msg_pool m ! unat (out_offset m),
        m\<lparr>out_offset := next_offset (mb_size m) (out_offset m), mb_entry := mb_entry m - 1\<rparr>)
      else None)"

section \<open>Operations\<close>

abbreviation upd_mb :: "nat \<Rightarrow> (rt_mailbox \<Rightarrow> rt_mailbox) \<Rightarrow> kstate \<Rightarrow> kstate" where
  "upd_mb i f s \<equiv> s\<lparr>k_mb := (k_mb s)(i := f (k_mb s i))\<rparr>"

definition new_mb :: "nat \<Rightarrow> rt_uint32_t list \<Rightarrow> rt_uint16_t \<Rightarrow> rt_mailbox" where
  "new_mb addr pool sz = \<lparr>mb_pool = addr, msg_pool = pool, mb_size = sz, mb_entry = 0, in_offset = 0, out_offset = 0\<rparr>"

text \<open>The buffer of the caller is given by its address and the words in it.\<close>

definition rt_mb_init :: "nat \<Rightarrow> cstr \<Rightarrow> nat \<times> rt_uint32_t list \<Rightarrow> rt_uint32_t \<Rightarrow> rt_uint8_t \<Rightarrow> kstate \<Rightarrow> kstate option" where
  "rt_mb_init i name msgpool sz flag s = do {
     RT_ASSERT (i \<noteq> RT_NULL);
     let s = rt_object_init (Obj_mb i) RT_Object_Class_MailBox name s;
     let s = set_obj_flag (Obj_mb i) flag s;
     let s = rt_ipc_object_init (Suspend (Obj_mb i)) s;
     let s = upd_mb i (\<lambda>_. new_mb (fst msgpool) (snd msgpool) (ucast sz)) s;
     Some (s\<lparr>k_tlist := qs_init (Suspend_sender i) (k_tlist s)\<rparr>)
   }"

definition rt_mb_detach :: "nat \<Rightarrow> kstate \<Rightarrow> kstate option" where
  "rt_mb_detach i s = do {
     RT_ASSERT (i \<noteq> RT_NULL);
     s \<leftarrow> rt_ipc_list_resume_all (Suspend (Obj_mb i)) s;
     s \<leftarrow> rt_ipc_list_resume_all (Suspend_sender i) s;
     Some (rt_object_detach (Obj_mb i) s)
   }"

text \<open>\<open>mem\<close> and \<open>pool\<close> are the results of the two allocations, of the object and of the words.\<close>

definition rt_mb_create ::
  "nat option \<Rightarrow> (nat \<times> rt_uint32_t list) option \<Rightarrow> cstr \<Rightarrow> rt_uint32_t \<Rightarrow> rt_uint8_t \<Rightarrow> kstate \<Rightarrow> (nat option \<times> kstate) option" where
  "rt_mb_create mem pool name sz flag s = do {
     RT_DEBUG_NOT_IN_INTERRUPT s;
     (_, s) \<leftarrow> rt_object_allocate (map_option Obj_mb mem) RT_Object_Class_MailBox name s;
     case mem of
       None \<Rightarrow> Some (None, s)
     | Some i \<Rightarrow>
         let s = set_obj_flag (Obj_mb i) flag s;
             s = rt_ipc_object_init (Suspend (Obj_mb i)) s;
             s = upd_mb i (\<lambda>m. m\<lparr>mb_size := ucast sz\<rparr>) s
         in (case pool of
               None \<Rightarrow> do {
                 s \<leftarrow> rt_object_delete (Obj_mb i) (upd_mb i (\<lambda>m. m\<lparr>mb_pool := RT_NULL\<rparr>) s);
                 Some (None, s)
               }
             | Some (addr, words) \<Rightarrow>
                 let s = upd_mb i (\<lambda>m. new_mb addr words (mb_size m)) s
                 in Some (Some i, s\<lparr>k_tlist := qs_init (Suspend_sender i) (k_tlist s)\<rparr>))
   }"

definition rt_mb_delete :: "nat \<Rightarrow> kstate \<Rightarrow> kstate option" where
  "rt_mb_delete i s = do {
     RT_DEBUG_NOT_IN_INTERRUPT s;
     RT_ASSERT (i \<noteq> RT_NULL);
     s \<leftarrow> rt_ipc_list_resume_all (Suspend (Obj_mb i)) s;
     s \<leftarrow> rt_ipc_list_resume_all (Suspend_sender i) s;
     let s = emit (Heap_free (mb_pool (k_mb s i))) s;
     rt_object_delete (Obj_mb i) s
   }"

text \<open>
  One pass of the loop of \<^verbatim>\<open>rt_mb_send_wait\<close>, from the test of the loop. With \<open>Waiting\<close> the second component
  is the tick at which the waiting began.
\<close>

definition mb_send_loop :: "nat \<Rightarrow> tid \<Rightarrow> rt_uint32_t \<Rightarrow> rt_int32_t \<Rightarrow> kstate \<Rightarrow> (outcome \<times> rt_tick_t \<times> kstate) option" where
  "mb_send_loop i t value timeout s =
     (if mb_entry (k_mb s i) = mb_size (k_mb s i) then
        let s = upd_thread t (error_update (\<lambda>_. RT_EOK)) s
        in if timeout = 0 then Some (Returned (- RT_EFULL), 0, s)
           else do {
             RT_DEBUG_IN_THREAD_CONTEXT s;
             let tick_delta = (if 0 <s timeout then rt_tick_get s else 0);
             s \<leftarrow> ipc_wait (Suspend_sender i) t (obj_flag (k_object s (Obj_mb i))) timeout s;
             s \<leftarrow> rt_schedule s;
             Some (Waiting, tick_delta, s)
           }
      else do {
        m \<leftarrow> mb_put value (k_mb s i);
        let s = upd_mb i (\<lambda>_. m) s;
        if k_tlist s (Suspend (Obj_mb i)) \<noteq> [] then do {
          s \<leftarrow> rt_ipc_list_resume (Suspend (Obj_mb i)) s;
          s \<leftarrow> rt_schedule s;
          Some (Returned RT_EOK, 0, s)
        } else Some (Returned RT_EOK, 0, s)
      })"

definition rt_mb_send_wait :: "nat \<Rightarrow> rt_uint32_t \<Rightarrow> rt_int32_t \<Rightarrow> kstate \<Rightarrow> (outcome \<times> rt_tick_t \<times> kstate) option" where
  "rt_mb_send_wait i value timeout s = do {
     RT_ASSERT (i \<noteq> RT_NULL);
     let t = rt_thread_self s;
     let s = emit (Hook_put (Obj_mb i)) s;
     if mb_entry (k_mb s i) = mb_size (k_mb s i) \<and> timeout = 0 then Some (Returned (- RT_EFULL), 0, s)
     else mb_send_loop i t value timeout s
   }"

definition rt_mb_send_wait_resume ::
  "nat \<Rightarrow> tid \<Rightarrow> rt_uint32_t \<Rightarrow> rt_int32_t \<Rightarrow> rt_tick_t \<Rightarrow> kstate \<Rightarrow> (outcome \<times> rt_tick_t \<times> kstate) option" where
  "rt_mb_send_wait_resume i t value timeout tick_delta s =
     (if error (k_thread s t) \<noteq> RT_EOK then Some (Returned (error (k_thread s t)), 0, s)
      else mb_send_loop i t value (time_left timeout tick_delta (rt_tick_get s)) s)"

definition rt_mb_send :: "nat \<Rightarrow> rt_uint32_t \<Rightarrow> kstate \<Rightarrow> (outcome \<times> rt_tick_t \<times> kstate) option" where
  "rt_mb_send i value s = rt_mb_send_wait i value 0 s"

text \<open>The same for \<^verbatim>\<open>rt_mb_recv\<close>; the second component of the result is what is written to \<^verbatim>\<open>*value\<close>.\<close>

definition mb_recv_loop :: "nat \<Rightarrow> tid \<Rightarrow> rt_int32_t \<Rightarrow> kstate \<Rightarrow> (outcome \<times> rt_uint32_t option \<times> rt_tick_t \<times> kstate) option" where
  "mb_recv_loop i t timeout s =
     (if mb_entry (k_mb s i) = 0 then
        let s = upd_thread t (error_update (\<lambda>_. RT_EOK)) s
        in if timeout = 0 then Some (Returned (- RT_ETIMEOUT), None, 0, upd_thread t (error_update (\<lambda>_. - RT_ETIMEOUT)) s)
           else do {
             RT_DEBUG_IN_THREAD_CONTEXT s;
             let tick_delta = (if 0 <s timeout then rt_tick_get s else 0);
             s \<leftarrow> ipc_wait (Suspend (Obj_mb i)) t (obj_flag (k_object s (Obj_mb i))) timeout s;
             s \<leftarrow> rt_schedule s;
             Some (Waiting, None, tick_delta, s)
           }
      else do {
        (value, m) \<leftarrow> mb_get (k_mb s i);
        let s = upd_mb i (\<lambda>_. m) s;
        if k_tlist s (Suspend_sender i) \<noteq> [] then do {
          s \<leftarrow> rt_ipc_list_resume (Suspend_sender i) s;
          s \<leftarrow> rt_schedule (emit (Hook_take (Obj_mb i)) s);
          Some (Returned RT_EOK, Some value, 0, s)
        } else Some (Returned RT_EOK, Some value, 0, emit (Hook_take (Obj_mb i)) s)
      })"

definition rt_mb_recv :: "nat \<Rightarrow> rt_int32_t \<Rightarrow> kstate \<Rightarrow> (outcome \<times> rt_uint32_t option \<times> rt_tick_t \<times> kstate) option" where
  "rt_mb_recv i timeout s = do {
     RT_ASSERT (i \<noteq> RT_NULL);
     let t = rt_thread_self s;
     let s = emit (Hook_trytake (Obj_mb i)) s;
     if mb_entry (k_mb s i) = 0 \<and> timeout = 0 then Some (Returned (- RT_ETIMEOUT), None, 0, s)
     else mb_recv_loop i t timeout s
   }"

definition rt_mb_recv_resume ::
  "nat \<Rightarrow> tid \<Rightarrow> rt_int32_t \<Rightarrow> rt_tick_t \<Rightarrow> kstate \<Rightarrow> (outcome \<times> rt_uint32_t option \<times> rt_tick_t \<times> kstate) option" where
  "rt_mb_recv_resume i t timeout tick_delta s =
     (if error (k_thread s t) \<noteq> RT_EOK then Some (Returned (error (k_thread s t)), None, 0, s)
      else mb_recv_loop i t (time_left timeout tick_delta (rt_tick_get s)) s)"

definition rt_mb_control :: "nat \<Rightarrow> rt_uint8_t \<Rightarrow> kstate \<Rightarrow> (rt_err_t \<times> kstate) option" where
  "rt_mb_control i cmd s = do {
     RT_ASSERT (i \<noteq> RT_NULL);
     if cmd = RT_IPC_CMD_RESET then do {
       s \<leftarrow> rt_ipc_list_resume_all (Suspend (Obj_mb i)) s;
       s \<leftarrow> rt_ipc_list_resume_all (Suspend_sender i) s;
       let s = upd_mb i (\<lambda>m. m\<lparr>mb_entry := 0, in_offset := 0, out_offset := 0\<rparr>) s;
       s \<leftarrow> rt_schedule s;
       Some (RT_EOK, s)
     } else Some (- RT_ERROR, s)
   }"

section \<open>The ring as a queue\<close>

definition mb_list :: "rt_mailbox \<Rightarrow> rt_uint32_t list" where
  "mb_list m = map (\<lambda>k. msg_pool m ! ((unat (out_offset m) + k) mod unat (mb_size m))) [0..<unat (mb_entry m)]"

definition mb_ok :: "rt_mailbox \<Rightarrow> bool" where
  "mb_ok m \<longleftrightarrow> 0 < mb_size m \<and> unat (mb_size m) \<le> length (msg_pool m) \<and> mb_entry m \<le> mb_size m \<and>
     out_offset m < mb_size m \<and> unat (in_offset m) = (unat (out_offset m) + unat (mb_entry m)) mod unat (mb_size m)"

lemma length_mb_list [simp]: "length (mb_list m) = unat (mb_entry m)"
  by (simp add: mb_list_def)

lemma new_mb_ok: "0 < sz \<Longrightarrow> unat sz \<le> length pool \<Longrightarrow> mb_ok (new_mb addr pool sz) \<and> mb_list (new_mb addr pool sz) = []"
  by (simp add: new_mb_def mb_ok_def mb_list_def)

lemma unat_next_offset:
  assumes "off < sz"
  shows "unat (next_offset sz off) = (unat off + 1) mod unat sz"
proof -
  have o: "unat off < unat sz" using assms by (simp add: word_less_nat_alt)
  have "unat sz < 2 ^ 16" using unsigned_less [of sz] by simp
  then have u: "unat (off + 1) = unat off + 1" using o by (subst unat_word_ariths) simp
  show ?thesis
  proof (cases "unat off + 1 = unat sz")
    case True
    then show ?thesis by (simp add: next_offset_def word_le_nat_alt u)
  next
    case False
    then have "unat off + 1 < unat sz" using o by simp
    then show ?thesis by (simp add: next_offset_def word_le_nat_alt u)
  qed
qed

lemma mod_shift_neq:
  assumes "k < n" "n < (N :: nat)"
  shows "(a + k) mod N \<noteq> (a + n) mod N"
proof
  assume "(a + k) mod N = (a + n) mod N"
  then have "N dvd (a + n) - (a + k)" using assms(1) by (metis add_le_cancel_left less_imp_le_nat mod_eq_dvd_iff_nat)
  then show False using assms by (auto dest: dvd_imp_le)
qed

lemma mb_put_ok:
  assumes "mb_ok m" "length (mb_list m) < unat (mb_size m)"
  shows "ok (mb_put v m) (\<lambda>m'. mb_ok m' \<and> mb_list m' = mb_list m @ [v] \<and> mb_size m' = mb_size m)"
proof -
  let ?N = "unat (mb_size m)" and ?n = "unat (mb_entry m)" and ?o = "unat (out_offset m)"
  have N: "?N \<le> length (msg_pool m)" "0 < ?N" "?n < ?N" and i: "unat (in_offset m) = (?o + ?n) mod ?N" and o: "?o < ?N"
    using assms by (auto simp: mb_ok_def word_gt_0 unat_gt_0 word_less_nat_alt)
  have il: "unat (in_offset m) < ?N" using i N(2) by simp
  have u: "unat (mb_entry m + 1) = ?n + 1"
    using N(3) unsigned_less [of "mb_size m", where 'a = nat] by (subst unat_word_ariths) simp
  have iN: "unat (next_offset (mb_size m) (in_offset m)) = (?o + (?n + 1)) mod ?N"
    using il by (subst unat_next_offset) (simp_all add: word_less_nat_alt i mod_Suc_eq)
  have l: "map (\<lambda>k. (msg_pool m)[unat (in_offset m) := v] ! ((?o + k) mod ?N)) [0..<?n + 1] = mb_list m @ [v]"
  proof -
    have "(msg_pool m)[unat (in_offset m) := v] ! ((?o + k) mod ?N) = msg_pool m ! ((?o + k) mod ?N)" if "k < ?n" for k
      using mod_shift_neq [OF that N(3), of ?o] i by (metis nth_list_update_neq)
    moreover have "(msg_pool m)[unat (in_offset m) := v] ! ((?o + ?n) mod ?N) = v"
      using il N(1) i by simp
    ultimately show ?thesis by (simp add: mb_list_def)
  qed
  have il': "unat (in_offset m) < length (msg_pool m)" using il N(1) by simp
  show ?thesis
    unfolding mb_put_def if_P [OF il']
    using assms(1) N il o iN u l by (simp add: ok_Some mb_ok_def mb_list_def word_le_nat_alt word_less_nat_alt)
qed

lemma mb_get_ok:
  assumes "mb_ok m" "mb_list m = x # xs"
  shows "ok (mb_get m) (\<lambda>(y, m'). y = x \<and> mb_ok m' \<and> mb_list m' = xs \<and> mb_size m' = mb_size m)"
proof -
  let ?N = "unat (mb_size m)" and ?n = "unat (mb_entry m)" and ?o = "unat (out_offset m)"
  have N: "?N \<le> length (msg_pool m)" "0 < ?N" "?n \<le> ?N" and i: "unat (in_offset m) = (?o + ?n) mod ?N" and o: "?o < ?N"
    using assms(1) by (auto simp: mb_ok_def word_gt_0 unat_gt_0 word_less_nat_alt word_le_nat_alt)
  have n: "?n = Suc (length xs)" using arg_cong [OF assms(2), of length] by simp
  have u: "unat (mb_entry m - 1) = length xs"
    using n by (simp add: unat_minus_one unat_gt_0 flip: unat_eq_zero)
  have oN: "unat (next_offset (mb_size m) (out_offset m)) = (?o + 1) mod ?N"
    using o by (simp add: unat_next_offset word_less_nat_alt)
  have xs: "map (\<lambda>k. msg_pool m ! (((?o + 1) mod ?N + k) mod ?N)) [0..<length xs] = xs" and x: "msg_pool m ! ?o = x"
  proof -
    have "mb_list m = msg_pool m ! ?o # map (\<lambda>k. msg_pool m ! ((?o + Suc k) mod ?N)) [0..<length xs]"
      using o unfolding mb_list_def n upt_conv_Cons [OF zero_less_Suc] by (simp add: map_Suc_upt [symmetric] comp_def del: upt_Suc)
    then show "map (\<lambda>k. msg_pool m ! (((?o + 1) mod ?N + k) mod ?N)) [0..<length xs] = xs" "msg_pool m ! ?o = x"
      using assms(2) by (simp_all add: mod_simps)
  qed
  have i': "(?o + ?n) mod ?N = ((?o + 1) mod ?N + length xs) mod ?N" by (simp add: n mod_simps)
  have p: "(?o + 1) mod ?N < ?N" using N(2) by simp
  show ?thesis
    using assms(1) N i o oN u x xs i' p
    by (simp add: mb_get_def ok_Some mb_ok_def mb_list_def word_le_nat_alt word_less_nat_alt n)
qed

section \<open>Sending and receiving\<close>

definition mb_inv :: "nat \<Rightarrow> kstate \<Rightarrow> bool" where
  "mb_inv i s \<longleftrightarrow> i \<noteq> RT_NULL \<and> obj_flag (k_object s (Obj_mb i)) \<in> {RT_IPC_FLAG_FIFO, RT_IPC_FLAG_PRIO} \<and> mb_ok (k_mb s i) \<and>
     (\<forall>h \<in> {Suspend (Obj_mb i), Suspend_sender i}. \<forall>t \<in> set (k_tlist s h). error (k_thread s t) = RT_EOK)"

lemma mb_invD:
  assumes "mb_inv i s"
  shows "i \<noteq> RT_NULL" "obj_flag (k_object s (Obj_mb i)) \<in> {RT_IPC_FLAG_FIFO, RT_IPC_FLAG_PRIO}" "mb_ok (k_mb s i)"
    "t \<in> set (k_tlist s (Suspend (Obj_mb i))) \<Longrightarrow> error (k_thread s t) = RT_EOK"
    "t \<in> set (k_tlist s (Suspend_sender i)) \<Longrightarrow> error (k_thread s t) = RT_EOK"
  using assms by (auto simp: mb_inv_def)

lemma mb_ok_full: "mb_ok m \<Longrightarrow> mb_entry m \<noteq> mb_size m \<longleftrightarrow> length (mb_list m) < unat (mb_size m)"
  by (auto simp: mb_ok_def word_le_nat_alt le_less word_unat_eq_iff)

lemma mb_ok_empty: "mb_entry m = 0 \<longleftrightarrow> mb_list m = []"
  by (metis length_0_conv length_mb_list unat_eq_zero)

lemma mb_inv_woke:
  assumes "mb_inv i s" "mb_ok (k_mb s' i)" "k_object s' (Obj_mb i) = k_object s (Obj_mb i)" "woke_first h s s'"
    "h = Suspend (Obj_mb i) \<or> h = Suspend_sender i"
  shows "mb_inv i s'"
proof -
  have "set (k_tlist s' h') \<subseteq> set (k_tlist s h')" if "h' = Suspend (Obj_mb i) \<or> h' = Suspend_sender i" for h'
    using woke_firstD(1) [OF assms(4), of h'] that list.set_sel(2) [of "k_tlist s h"] by (cases "k_tlist s h") (auto split: if_splits)
  from this [of "Suspend (Obj_mb i)"] this [of "Suspend_sender i"] show ?thesis
    using assms(1-3) woke_firstD(2) [OF assms(4)] by (simp add: mb_inv_def) blast
qed

lemma mb_send_room:
  assumes inv: "sys s" "mb_inv i s" and room: "mb_entry (k_mb s i) \<noteq> mb_size (k_mb s i)"
  shows "ok (mb_send_loop i t v timeout s) (\<lambda>(r, d, s'). r = Returned RT_EOK \<and> sys s' \<and> mb_inv i s' \<and>
    mb_list (k_mb s' i) = mb_list (k_mb s i) @ [v] \<and> mb_size (k_mb s' i) = mb_size (k_mb s i) \<and> woke_first (Suspend (Obj_mb i)) s s')"
proof -
  obtain m where m: "mb_put v (k_mb s i) = Some m" "mb_ok m" "mb_list m = mb_list (k_mb s i) @ [v]" "mb_size m = mb_size (k_mb s i)"
    using mb_put_ok [OF mb_invD(3) [OF inv(2)], of v] room mb_ok_full [OF mb_invD(3) [OF inv(2)]] by (auto elim!: okE)
  let ?s = "s\<lparr>k_mb := (k_mb s)(i := m)\<rparr>"
  have S: "sys ?s" using inv(1) by simp
  obtain s' where s': "(if k_tlist ?s (Suspend (Obj_mb i)) \<noteq> [] then do { s \<leftarrow> rt_ipc_list_resume (Suspend (Obj_mb i)) ?s; rt_schedule s } else Some ?s) = Some s'"
     "sys s'" "kept ?s s'" "woke_first (Suspend (Obj_mb i)) ?s s'"
    using ipc_wake [OF S, of "Suspend (Obj_mb i)"] by (auto elim!: okE)
  have w: "woke_first (Suspend (Obj_mb i)) s s'" using s'(4) woke_first_cong [of ?s s] by simp
  have b: "k_mb s' i = m" "k_object s' (Obj_mb i) = k_object s (Obj_mb i)" using keptD(4,14) [OF s'(3)] by simp_all
  have eq: "mb_send_loop i t v timeout s = Some (Returned RT_EOK, 0, s')"
    using room s'(1) by (simp add: mb_send_loop_def m(1) split: if_splits Option.bind_split_asm)
  show ?thesis
    using s'(2) m w mb_inv_woke [OF inv(2) _ b(2) w] by (simp add: eq ok_Some b)
qed

lemma mb_recv_some:
  assumes inv: "sys s" "mb_inv i s" and some: "mb_list (k_mb s i) = x # xs"
  shows "ok (mb_recv_loop i t timeout s) (\<lambda>(r, v, d, s'). r = Returned RT_EOK \<and> v = Some x \<and> sys s' \<and> mb_inv i s' \<and>
    mb_list (k_mb s' i) = xs \<and> mb_size (k_mb s' i) = mb_size (k_mb s i) \<and> woke_first (Suspend_sender i) s s')"
proof -
  obtain m where m: "mb_get (k_mb s i) = Some (x, m)" "mb_ok m" "mb_list m = xs" "mb_size m = mb_size (k_mb s i)"
    using mb_get_ok [OF mb_invD(3) [OF inv(2)] some] by (auto elim!: okE)
  have e: "mb_entry (k_mb s i) \<noteq> 0" using some mb_ok_empty by simp
  let ?h = "Suspend_sender i"
  let ?s = "s\<lparr>k_mb := (k_mb s)(i := m)\<rparr>"
  have S: "sys ?s" using inv(1) by simp
  obtain s' where s': "(if k_tlist s ?h \<noteq> [] then do { s \<leftarrow> rt_ipc_list_resume ?h ?s; rt_schedule (s\<lparr>k_trace := Hook_take (Obj_mb i) # k_trace s\<rparr>) }
      else Some (?s\<lparr>k_trace := Hook_take (Obj_mb i) # k_trace s\<rparr>)) = Some s'"
     "sys s'" "k_mb s' = k_mb ?s" "k_object s' (Obj_mb i) = k_object s (Obj_mb i)" "woke_first ?h s s'"
  proof (cases "k_tlist s ?h")
    case Nil
    show ?thesis by (rule that [of "?s\<lparr>k_trace := Hook_take (Obj_mb i) # k_trace s\<rparr>"]) (use Nil inv(1) in \<open>simp_all add: woke_first_def\<close>)
  next
    case (Cons a as)
    have q: "k_tlist ?s ?h = a # as" using Cons by simp
    obtain s1 where s1: "rt_ipc_list_resume ?h ?s = Some s1" "sys s1" "kept ?s s1"
      "k_thread s1 = (k_thread s)(a := (k_thread s a)\<lparr>stat := RT_THREAD_READY\<rparr>)"
      "k_tlist s1 = qs_push_back (Ready (thr_prio s a)) a ((k_tlist s)(?h := as))"
      using sys_wake [OF S q] by (auto elim!: okE)
    let ?s1 = "s1\<lparr>k_trace := Hook_take (Obj_mb i) # k_trace s1\<rparr>"
    have S1: "sys ?s1" using s1(2) by simp
    obtain s' where s': "rt_schedule ?s1 = Some s'" "sys s'" "only_switched ?s1 s'"
      "k_lock_nest ?s1 = 0 \<longrightarrow> (\<exists>p. highest s' p \<and> k_current s' = hd (ready_q s' p))"
      using sys_resched [OF sysD(1,2,4) [OF S1]] sysD(3) [OF S1] by (auto elim!: okE)
    note k = only_switchedD [OF s'(3)] and k1 = keptD(4,9,14) [OF s1(3)]
    have "woke_first ?h s s'"
      using s'(4) k k1(2) s1(4,5) unfolding woke_first_def Cons list.case by simp
    then show ?thesis by (intro that [of s']) (use Cons s1(1) s'(1,2) k k1 in simp_all)
  qed
  have eq: "mb_recv_loop i t timeout s = Some (Returned RT_EOK, Some x, 0, s')"
    using e s'(1) by (simp add: mb_recv_loop_def m(1) split: if_splits Option.bind_split_asm)
  show ?thesis
    using s'(2) m s'(5) mb_inv_woke [OF inv(2) _ s'(4,5)] by (simp add: eq ok_Some s'(3))
qed

lemma mb_waits:
  assumes inv: "sys s" "mb_inv i s" and t: "k_current s = t" "t \<noteq> idle" "k_lock_nest s = 0"
    and h: "h = Suspend (Obj_mb i) \<or> h = Suspend_sender i" and time: "timeout \<noteq> 0x7fffffff"
  shows "ok (do { s \<leftarrow> ipc_wait h t (obj_flag (k_object s (Obj_mb i))) timeout
        (s\<lparr>k_thread := (k_thread s)(t := (k_thread s t)\<lparr>error := RT_EOK\<rparr>)\<rparr>); rt_schedule s })
    (\<lambda>s'. sys s' \<and> mb_inv i s' \<and> kept s s' \<and> waits_at h (obj_flag (k_object s (Obj_mb i))) s s')"
proof -
  let ?f = "obj_flag (k_object s (Obj_mb i))"
  have hs: "head_stat h = RT_THREAD_SUSPEND" using h by auto
  have "mb_inv i s'" if "kept s s'" "k_thread s' = (k_thread s)(t := (k_thread s t)\<lparr>error := RT_EOK, stat := RT_THREAD_SUSPEND\<rparr>)"
    "\<forall>h'. (\<forall>p. h' \<noteq> Ready p) \<longrightarrow> k_tlist s' h' = (if h' = h then wait_insert ?f (\<lambda>x. current_priority (k_thread s x)) t (k_tlist s h) else k_tlist s h')" for s'
    using mb_invD [OF inv(2)] h set_wait_insert [OF mb_invD(2) [OF inv(2)]]
    by (auto simp: mb_inv_def that(2,3) keptD(4,14) [OF that(1)])
  then show ?thesis
    by (intro ok_mono [OF ipc_waits [OF inv(1) t hs mb_invD(2) [OF inv(2)] time]]) blast
qed

lemma mb_inv_trace [simp]: "mb_inv i (s\<lparr>k_trace := tr\<rparr>) = mb_inv i s"
  by (simp add: mb_inv_def)

lemma mb_send_ok:
  assumes inv: "sys s" "mb_inv i s" and t: "k_current s \<noteq> idle" "k_lock_nest s = 0" "k_interrupt_nest s = 0" and time: "timeout \<noteq> 0x7fffffff"
  shows "ok (rt_mb_send_wait i v timeout s) (\<lambda>(r, d, s'). sys s' \<and> mb_inv i s' \<and> mb_size (k_mb s' i) = mb_size (k_mb s i) \<and>
    (if length (mb_list (k_mb s i)) < unat (mb_size (k_mb s i))
     then r = Returned RT_EOK \<and> mb_list (k_mb s' i) = mb_list (k_mb s i) @ [v] \<and> woke_first (Suspend (Obj_mb i)) s s'
     else mb_list (k_mb s' i) = mb_list (k_mb s i) \<and>
       (if timeout = 0 then r = Returned (- RT_EFULL)
        else r = Waiting \<and> waits_at (Suspend_sender i) (obj_flag (k_object s (Obj_mb i))) s s')))"
proof -
  let ?m = "k_mb s i" and ?t = "k_current s"
  let ?s = "s\<lparr>k_trace := Hook_put (Obj_mb i) # k_trace s\<rparr>"
  have I: "sys ?s" "mb_inv i ?s" using inv by simp_all
  note full = mb_ok_full [OF mb_invD(3) [OF inv(2)]]
  consider (room) "mb_entry ?m \<noteq> mb_size ?m" | (full) "mb_entry ?m = mb_size ?m" "timeout = 0" | (wait) "mb_entry ?m = mb_size ?m" "timeout \<noteq> 0"
    by blast
  then show ?thesis
  proof cases
    case room
    obtain d s' where s': "mb_send_loop i ?t v timeout ?s = Some (Returned RT_EOK, d, s')" "sys s'" "mb_inv i s'"
      "mb_list (k_mb s' i) = mb_list ?m @ [v]" "mb_size (k_mb s' i) = mb_size ?m" "woke_first (Suspend (Obj_mb i)) ?s s'"
      using mb_send_room [OF I, of ?t v timeout] room by (auto elim!: okE)
    have "woke_first (Suspend (Obj_mb i)) s s'" using s'(6) woke_first_cong [of ?s s] by simp
    then show ?thesis
      using room full mb_invD(1) [OF inv(2)] s'(2-5) by (simp add: rt_mb_send_wait_def rt_thread_self_def s'(1) ok_Some)
  next
    case full
    then show ?thesis using inv mb_invD(1) [OF inv(2)] by (simp add: rt_mb_send_wait_def ok_Some)
  next
    case wait
    obtain s' where s': "do { s \<leftarrow> ipc_wait (Suspend_sender i) ?t (obj_flag (k_object ?s (Obj_mb i))) timeout
        (?s\<lparr>k_thread := (k_thread ?s)(?t := (k_thread ?s ?t)\<lparr>error := RT_EOK\<rparr>)\<rparr>); rt_schedule s } = Some s'"
      "sys s'" "mb_inv i s'" "kept ?s s'" "waits_at (Suspend_sender i) (obj_flag (k_object s (Obj_mb i))) ?s s'"
      using mb_waits [OF I _ t(1) _ _ time, of "Suspend_sender i"] t(2) by (auto elim!: okE)
    have eq: "rt_mb_send_wait i v timeout s = Some (Waiting, (if 0 <s timeout then k_tick s else 0), s')"
      using wait mb_invD(1) [OF inv(2)] s'(1) t(3) sysD(6) [OF inv(1)]
      by (simp add: rt_mb_send_wait_def mb_send_loop_def rt_thread_self_def RT_DEBUG_IN_THREAD_CONTEXT_def
        RT_DEBUG_NOT_IN_INTERRUPT_def Let_def rt_tick_get_def split: Option.bind_split_asm)
    show ?thesis
      using wait full s'(2,3,5) by (simp add: eq ok_Some waits_at_def keptD(4) [OF s'(4)])
  qed
qed

lemma mb_recv_ok:
  assumes inv: "sys s" "mb_inv i s" and t: "k_current s \<noteq> idle" "k_lock_nest s = 0" "k_interrupt_nest s = 0" and time: "timeout \<noteq> 0x7fffffff"
  shows "ok (rt_mb_recv i timeout s) (\<lambda>(r, v, d, s'). sys s' \<and> mb_inv i s' \<and> mb_size (k_mb s' i) = mb_size (k_mb s i) \<and>
    (case mb_list (k_mb s i) of
       x # xs \<Rightarrow> r = Returned RT_EOK \<and> v = Some x \<and> mb_list (k_mb s' i) = xs \<and> woke_first (Suspend_sender i) s s'
     | [] \<Rightarrow> v = None \<and> mb_list (k_mb s' i) = [] \<and>
       (if timeout = 0 then r = Returned (- RT_ETIMEOUT)
        else r = Waiting \<and> waits_at (Suspend (Obj_mb i)) (obj_flag (k_object s (Obj_mb i))) s s')))"
proof -
  let ?m = "k_mb s i" and ?t = "k_current s"
  let ?s = "s\<lparr>k_trace := Hook_trytake (Obj_mb i) # k_trace s\<rparr>"
  have I: "sys ?s" "mb_inv i ?s" using inv by simp_all
  note e = mb_ok_empty [of ?m]
  consider (some) x xs where "mb_list ?m = x # xs" | (empty) "mb_list ?m = []" "timeout = 0" | (wait) "mb_list ?m = []" "timeout \<noteq> 0"
    by (cases "mb_list ?m") auto
  then show ?thesis
  proof cases
    case some
    obtain d s' where s': "mb_recv_loop i ?t timeout ?s = Some (Returned RT_EOK, Some x, d, s')" "sys s'" "mb_inv i s'"
      "mb_list (k_mb s' i) = xs" "mb_size (k_mb s' i) = mb_size ?m" "woke_first (Suspend_sender i) ?s s'"
      using mb_recv_some [OF I, of x xs ?t timeout] some by (auto elim!: okE)
    have "woke_first (Suspend_sender i) s s'" using s'(6) woke_first_cong [of ?s s] by simp
    then show ?thesis
      using some e mb_invD(1) [OF inv(2)] s'(2-5) by (simp add: rt_mb_recv_def rt_thread_self_def s'(1) ok_Some)
  next
    case empty
    then show ?thesis using inv e mb_invD(1) [OF inv(2)] by (simp add: rt_mb_recv_def ok_Some)
  next
    case wait
    obtain s' where s': "do { s \<leftarrow> ipc_wait (Suspend (Obj_mb i)) ?t (obj_flag (k_object ?s (Obj_mb i))) timeout
        (?s\<lparr>k_thread := (k_thread ?s)(?t := (k_thread ?s ?t)\<lparr>error := RT_EOK\<rparr>)\<rparr>); rt_schedule s } = Some s'"
      "sys s'" "mb_inv i s'" "kept ?s s'" "waits_at (Suspend (Obj_mb i)) (obj_flag (k_object s (Obj_mb i))) ?s s'"
      using mb_waits [OF I _ t(1) _ _ time, of "Suspend (Obj_mb i)"] t(2) by (auto elim!: okE)
    have eq: "rt_mb_recv i timeout s = Some (Waiting, None, (if 0 <s timeout then k_tick s else 0), s')"
      using wait e mb_invD(1) [OF inv(2)] s'(1) t(3) sysD(6) [OF inv(1)]
      by (simp add: rt_mb_recv_def mb_recv_loop_def rt_thread_self_def RT_DEBUG_IN_THREAD_CONTEXT_def
        RT_DEBUG_NOT_IN_INTERRUPT_def Let_def rt_tick_get_def split: Option.bind_split_asm)
    show ?thesis
      using wait s'(2,3,5) by (simp add: eq ok_Some waits_at_def keptD(4) [OF s'(4)])
  qed
qed

text \<open>Calls that do not wait, as operations of a buffer that is part of the kernel's state.\<close>

definition mb_send_now :: "nat \<Rightarrow> rt_uint32_t \<Rightarrow> kstate \<Rightarrow> kstate option" where
  "mb_send_now i v s = do { (r, _, s) \<leftarrow> rt_mb_send i v s; if r = Returned RT_EOK then Some s else None }"

definition mb_recv_now :: "nat \<Rightarrow> kstate \<Rightarrow> (rt_uint32_t \<times> kstate) option" where
  "mb_recv_now i s = do { (r, v, _, s) \<leftarrow> rt_mb_recv i 0 s; map_option (\<lambda>v. (v, s)) v }"

interpretation mbq: bounded_fifo "mb_send_now i" "mb_recv_now i" "\<lambda>s. sys s \<and> mb_inv i s" "\<lambda>s. mb_list (k_mb s i)"
  "\<lambda>s. unat (mb_size (k_mb s i))" "\<lambda>_. True" for i :: nat
proof
  show "ok (mb_send_now i v s) (\<lambda>s'. (sys s' \<and> mb_inv i s') \<and> mb_list (k_mb s' i) = mb_list (k_mb s i) @ [v] \<and>
      unat (mb_size (k_mb s' i)) = unat (mb_size (k_mb s i)))"
    if I: "sys s \<and> mb_inv i s" and l: "length (mb_list (k_mb s i)) < unat (mb_size (k_mb s i))" for s v
  proof -
    let ?s = "s\<lparr>k_trace := Hook_put (Obj_mb i) # k_trace s\<rparr>"
    have i: "sys ?s" "mb_inv i ?s" "mb_entry (k_mb ?s i) \<noteq> mb_size (k_mb ?s i)"
      using I l mb_ok_full [OF mb_invD(3)] by auto
    obtain d s' where s': "mb_send_loop i (k_current s) v 0 ?s = Some (Returned RT_EOK, d, s')" "sys s'" "mb_inv i s'"
      "mb_list (k_mb s' i) = mb_list (k_mb s i) @ [v]" "mb_size (k_mb s' i) = mb_size (k_mb s i)"
      using mb_send_room [OF i, of "k_current s" v 0] by (auto elim!: okE)
    show ?thesis
      using s' i(3) mb_invD(1) [OF i(2)]
      by (simp add: mb_send_now_def rt_mb_send_def rt_mb_send_wait_def rt_thread_self_def ok_Some)
  qed
  show "ok (mb_recv_now i s) (\<lambda>(y, s'). y = x \<and> (sys s' \<and> mb_inv i s') \<and> mb_list (k_mb s' i) = xs \<and>
      unat (mb_size (k_mb s' i)) = unat (mb_size (k_mb s i)))"
    if I: "sys s \<and> mb_inv i s" and l: "mb_list (k_mb s i) = x # xs" for s x xs
  proof -
    let ?s = "s\<lparr>k_trace := Hook_trytake (Obj_mb i) # k_trace s\<rparr>"
    have i: "sys ?s" "mb_inv i ?s" "mb_list (k_mb ?s i) = x # xs" using I l by simp_all
    have "mb_entry (k_mb s i) \<noteq> 0" using l mb_ok_empty by simp
    moreover obtain d s' where s': "mb_recv_loop i (k_current s) 0 ?s = Some (Returned RT_EOK, Some x, d, s')" "sys s'" "mb_inv i s'"
      "mb_list (k_mb s' i) = xs" "mb_size (k_mb s' i) = mb_size (k_mb s i)"
      using mb_recv_some [OF i, of "k_current s" 0] by (auto elim!: okE)
    ultimately show ?thesis
      using mb_invD(1) [OF i(2)] by (simp add: mb_recv_now_def rt_mb_recv_def rt_thread_self_def ok_Some)
  qed
  show "length (mb_list (k_mb s i)) \<le> unat (mb_size (k_mb s i))" if "sys s \<and> mb_inv i s" for s
    using mb_invD(3) that by (simp add: mb_ok_def word_le_nat_alt)
qed

section \<open>Properties\<close>

text \<open>
  C15. A mailbox is a bounded first-in-first-out queue: every sequence of non-blocking sends and receives that never sends to a full
  mailbox nor receives from an empty one succeeds, and the mail comes out exactly as it was sent, in the same order, across any number
  of wrap-arounds of the ring. The invariants of the kernel and of the mailbox hold at the end.
\<close>

theorem rt_mb_fifo:
  assumes "sys s" "mb_inv i s" "fits (unat (mb_size (k_mb s i))) (length (mb_list (k_mb s i))) ops"
  shows "ok (fifo_run (mb_send_now i) (mb_recv_now i) ops s)
    (\<lambda>(out, s'). sys s' \<and> mb_inv i s' \<and> out @ mb_list (k_mb s' i) = mb_list (k_mb s i) @ puts ops)"
  by (rule ok_mono [OF mbq.run_ok [of s i ops]]) (use assms in auto)

text \<open>
  C16. \<open>rt_mb_send_wait\<close> and \<open>rt_mb_recv\<close> on every branch. With room the mail is appended and the first thread that waits for mail
  becomes ready; a full mailbox makes the call fail with \<open>-RT_EFULL\<close> or suspends the caller among the senders. A receiver gets the
  oldest mail and lets the first waiting sender continue; an empty mailbox makes it fail with \<open>-RT_ETIMEOUT\<close> or wait.
\<close>

theorem rt_mb_send_recv_correct:
  assumes "sys s" "mb_inv i s" "k_current s \<noteq> idle" "k_lock_nest s = 0" "k_interrupt_nest s = 0" "timeout \<noteq> 0x7fffffff"
  shows "ok (rt_mb_send_wait i v timeout s) (\<lambda>(r, d, s'). sys s' \<and> mb_inv i s' \<and> mb_size (k_mb s' i) = mb_size (k_mb s i) \<and>
      (if length (mb_list (k_mb s i)) < unat (mb_size (k_mb s i))
       then r = Returned RT_EOK \<and> mb_list (k_mb s' i) = mb_list (k_mb s i) @ [v] \<and> woke_first (Suspend (Obj_mb i)) s s'
       else mb_list (k_mb s' i) = mb_list (k_mb s i) \<and>
         (if timeout = 0 then r = Returned (- RT_EFULL)
          else r = Waiting \<and> waits_at (Suspend_sender i) (obj_flag (k_object s (Obj_mb i))) s s'))) \<and>
    ok (rt_mb_recv i timeout s) (\<lambda>(r, v, d, s'). sys s' \<and> mb_inv i s' \<and> mb_size (k_mb s' i) = mb_size (k_mb s i) \<and>
      (case mb_list (k_mb s i) of
         x # xs \<Rightarrow> r = Returned RT_EOK \<and> v = Some x \<and> mb_list (k_mb s' i) = xs \<and> woke_first (Suspend_sender i) s s'
       | [] \<Rightarrow> v = None \<and> mb_list (k_mb s' i) = [] \<and>
         (if timeout = 0 then r = Returned (- RT_ETIMEOUT)
          else r = Waiting \<and> waits_at (Suspend (Obj_mb i)) (obj_flag (k_object s (Obj_mb i))) s s')))"
  using mb_send_ok [OF assms] mb_recv_ok [OF assms] by blast

text \<open>
  C17. A send that had to wait completes: the caller of \<open>rt_mb_send_wait\<close> on a full mailbox sleeps; when some other thread receives,
  that thread gets the oldest mail and the sender becomes ready, and when the sender runs again its call returns \<open>RT_EOK\<close> and its mail
  is the newest in the mailbox.
\<close>

theorem rt_mb_blocked_send_completes:
  assumes "sys s" "mb_inv i s" "k_current s = t" "t \<noteq> idle" "k_lock_nest s = 0" "k_interrupt_nest s = 0" "timeout \<noteq> 0x7fffffff" "timeout \<noteq> 0"
    "mb_list (k_mb s i) = x # xs" "Suc (length xs) = unat (mb_size (k_mb s i))" "k_tlist s (Suspend_sender i) = []"
  shows "ok (do {
      (r1, d, s) \<leftarrow> rt_mb_send_wait i v timeout s;
      (r2, w, _, s) \<leftarrow> rt_mb_recv i 0 s;
      let ready = thr_stat s t;
      (r3, _, s) \<leftarrow> rt_mb_send_wait_resume i t v timeout d s;
      Some (r1, r2, w, ready, r3, s)
    }) (\<lambda>(r1, r2, w, ready, r3, s'). r1 = Waiting \<and> r2 = Returned RT_EOK \<and> w = Some x \<and> ready = RT_THREAD_READY \<and>
      r3 = Returned RT_EOK \<and> mb_list (k_mb s' i) = xs @ [v] \<and> sys s' \<and> mb_inv i s')"
proof -
  let ?h = "Suspend_sender i"
  obtain d s1 where s1: "rt_mb_send_wait i v timeout s = Some (Waiting, d, s1)" "sys s1" "mb_inv i s1" "mb_list (k_mb s1 i) = x # xs"
    "mb_size (k_mb s1 i) = mb_size (k_mb s i)" "waits_at ?h (obj_flag (k_object s (Obj_mb i))) s s1"
    using mb_send_ok [OF assms(1,2) _ assms(5-7), of v] assms(3,4,8-10) by (auto elim!: okE)
  have q1: "k_tlist s1 ?h = [t]" "error (k_thread s1 t) = RT_EOK"
    using s1(6) assms(3,11) mb_invD(2) [OF assms(2)] by (auto simp: waits_at_def wait_insert_def)
  let ?s1 = "s1\<lparr>k_trace := Hook_trytake (Obj_mb i) # k_trace s1\<rparr>"
  have I1: "sys ?s1" "mb_inv i ?s1" "mb_list (k_mb ?s1 i) = x # xs" using s1(2-4) by simp_all
  obtain d' s2 where s2: "mb_recv_loop i (k_current s1) 0 ?s1 = Some (Returned RT_EOK, Some x, d', s2)" "sys s2" "mb_inv i s2"
    "mb_list (k_mb s2 i) = xs" "mb_size (k_mb s2 i) = mb_size (k_mb s i)" "woke_first ?h ?s1 s2"
    using mb_recv_some [OF I1, of "k_current s1" 0] s1(5) by (auto elim!: okE)
  have e1: "mb_entry (k_mb s1 i) \<noteq> 0" using s1(4) mb_ok_empty by simp
  have r: "rt_mb_recv i 0 s1 = Some (Returned RT_EOK, Some x, d', s2)"
    using e1 s2(1) mb_invD(1) [OF s1(3)] by (simp add: rt_mb_recv_def rt_thread_self_def)
  have t2: "thr_stat s2 t = RT_THREAD_READY" "error (k_thread s2 t) = RT_EOK"
    using woke_firstD(2,3) [OF s2(6)] q1 by simp_all
  have room: "mb_entry (k_mb s2 i) \<noteq> mb_size (k_mb s2 i)"
    using mb_ok_full [OF mb_invD(3) [OF s2(3)]] s2(4,5) assms(10) by simp
  obtain d'' s3 where s3: "mb_send_loop i t v (time_left timeout d (k_tick s2)) s2 = Some (Returned RT_EOK, d'', s3)" "sys s3" "mb_inv i s3"
    "mb_list (k_mb s3 i) = xs @ [v]"
    using mb_send_room [OF s2(2,3) room, of t v "time_left timeout d (k_tick s2)"] s2(4) by (auto elim!: okE)
  show ?thesis
    using t2 s3 by (simp add: s1(1) r rt_mb_send_wait_resume_def rt_tick_get_def ok_Some)
qed

text \<open>
  The size of a mailbox is kept in 16 bits, while \<open>rt_mb_init\<close> takes a 32-bit number: with 65536 words the mailbox has size 0. It is full
  and empty at the same time: nothing can be sent to it, although its buffer is free.
\<close>

theorem rt_mb_init_truncates:
  assumes "i \<noteq> RT_NULL" "length (snd pool) = 65536"
  shows "ok (rt_mb_init i name pool 65536 flag s) (\<lambda>s'. mb_size (k_mb s' i) = 0 \<and>
    (\<forall>v. ok (rt_mb_send i v s') (\<lambda>(r, d, s''). r = Returned (- RT_EFULL) \<and> k_mb s'' = k_mb s')) \<and>
    ok (rt_mb_recv i 0 s') (\<lambda>(r, v, d, s''). r = Returned (- RT_ETIMEOUT)))"
  using assms(1)
  by (simp add: rt_mb_init_def Let_def okr rt_mb_send_def rt_mb_send_wait_def rt_mb_recv_def new_mb_def)

text \<open>An example: the system of \<open>demo\<close> with mailbox 2, of two words, holding one or two mails.\<close>

definition demo_mb :: "rt_uint16_t \<Rightarrow> kstate" where
  "demo_mb n = demo\<lparr>k_mb := (k_mb demo)(2 := \<lparr>mb_pool = 64, msg_pool = [7, 8], mb_size = 2, mb_entry = n, in_offset = n AND 1, out_offset = 0\<rparr>)\<rparr>"

lemma demo_mb_inv: "sys (demo_mb 1)" "mb_inv 2 (demo_mb 1)" "sys (demo_mb 2)" "mb_inv 2 (demo_mb 2)"
  by (simp_all add: demo_mb_def demo_sys mb_inv_def mb_ok_def)

lemma demo_mb_list: "mb_list (k_mb (demo_mb 1) 2) = [7]" "mb_list (k_mb (demo_mb 2) 2) = [7, 8]"
  by (simp_all add: demo_mb_def mb_list_def upt_rec)

theorem rt_mb_fifo_witness:
  "ok (fifo_run (mb_send_now 2) (mb_recv_now 2) [Put 9, Get, Put 10, Get, Get] (demo_mb 1))
    (\<lambda>(out, s'). sys s' \<and> mb_inv 2 s' \<and> out @ mb_list (k_mb s' 2) = [7, 9, 10])"
  using rt_mb_fifo [OF demo_mb_inv(1,2), of "[Put 9, Get, Put 10, Get, Get]"] by (simp add: demo_mb_list) (simp add: demo_mb_def)

theorem rt_mb_send_recv_correct_witness:
  "ok (rt_mb_send_wait 2 9 0 (demo_mb 2)) (\<lambda>(r, d, s'). sys s' \<and> mb_list (k_mb s' 2) = [7, 8] \<and> r = Returned (- RT_EFULL)) \<and>
   ok (rt_mb_recv 2 0 (demo_mb 2)) (\<lambda>(r, v, d, s'). sys s' \<and> v = Some 7 \<and> mb_list (k_mb s' 2) = [8])"
proof -
  have s: "k_current (demo_mb 2) \<noteq> idle" "k_lock_nest (demo_mb 2) = 0" "k_interrupt_nest (demo_mb 2) = 0" "mb_size (k_mb (demo_mb 2) 2) = 2"
    by (simp_all add: demo_mb_def idle_def)
  show ?thesis
    using rt_mb_send_recv_correct [OF demo_mb_inv(3,4) s(1-3), of 0 9] unfolding demo_mb_list s(4)
    by (auto elim!: ok_mono)
qed

theorem rt_mb_blocked_send_completes_witness:
  "ok (do {
      (r1, d, s) \<leftarrow> rt_mb_send_wait 2 9 100 (demo_mb 2);
      (r2, w, _, s) \<leftarrow> rt_mb_recv 2 0 s;
      let ready = thr_stat s 3;
      (r3, _, s) \<leftarrow> rt_mb_send_wait_resume 2 3 9 100 d s;
      Some (r1, r2, w, ready, r3, s)
    }) (\<lambda>(r1, r2, w, ready, r3, s'). r1 = Waiting \<and> r2 = Returned RT_EOK \<and> w = Some 7 \<and> ready = RT_THREAD_READY \<and>
      r3 = Returned RT_EOK \<and> mb_list (k_mb s' 2) = [8] @ [9] \<and> sys s' \<and> mb_inv 2 s')"
  by (rule rt_mb_blocked_send_completes [OF demo_mb_inv(3,4)]) (simp_all add: demo_mb_list, simp_all add: demo_mb_def idle_def)

theorem rt_mb_init_truncates_witness:
  "ok (rt_mb_init 2 (\<lambda>_. 0) (64, replicate 65536 0) 65536 RT_IPC_FLAG_FIFO demo) (\<lambda>s'. mb_size (k_mb s' 2) = 0 \<and>
    (\<forall>v. ok (rt_mb_send 2 v s') (\<lambda>(r, d, s''). r = Returned (- RT_EFULL) \<and> k_mb s'' = k_mb s')) \<and>
    ok (rt_mb_recv 2 0 s') (\<lambda>(r, v, d, s''). r = Returned (- RT_ETIMEOUT)))"
  by (rule rt_mb_init_truncates) simp_all

end
