(* ===== verification/MessageQueue.thy ===== *)
theory MessageQueue
  imports Ipc Fifo
begin

text \<open>
  Message queues, \<^verbatim>\<open>rt_mq_*\<close> of \<^verbatim>\<open>src/ipc.c\<close>: blocks of a pool on two singly linked lists, the free blocks and the
  queued messages. Sending and receiving have two critical sections with the copying of the message between them, so
  that other calls can come in between; the sections are operations of their own here.
\<close>

section \<open>The critical sections\<close>

text \<open>The loop that links all blocks of the pool into the free list.\<close>

primrec mq_free_init :: "nat \<Rightarrow> rt_messagequeue \<Rightarrow> rt_messagequeue" where
  "mq_free_init 0 m = m"
| "mq_free_init (Suc n) m =
     (let m = mq_free_init n m
      in m\<lparr>mq_next := (mq_next m)(n := msg_queue_free m), msg_queue_free := Some n\<rparr>)"

text \<open>Taking a free block.\<close>

definition mq_alloc :: "rt_messagequeue \<Rightarrow> nat option \<times> rt_messagequeue" where
  "mq_alloc m =
     (case msg_queue_free m of
        None \<Rightarrow> (None, m)
      | Some msg \<Rightarrow> (Some msg, m\<lparr>msg_queue_free := mq_next m msg\<rparr>))"

text \<open>Copying a message into a block; \<^verbatim>\<open>rt_mq_send\<close> clears the link of the block before.\<close>

definition mq_fill :: "nat \<Rightarrow> rt_uint8_t list \<Rightarrow> rt_messagequeue \<Rightarrow> rt_messagequeue" where
  "mq_fill msg buffer m = m\<lparr>mq_data := (mq_data m)(msg := buffer @ drop (length buffer) (mq_data m msg))\<rparr>"

definition mq_clear_next :: "nat \<Rightarrow> rt_messagequeue \<Rightarrow> rt_messagequeue" where
  "mq_clear_next msg m = m\<lparr>mq_next := (mq_next m)(msg := None)\<rparr>"

text \<open>Linking a block as the last message, or as the first one.\<close>

definition mq_link :: "nat \<Rightarrow> rt_messagequeue \<Rightarrow> rt_messagequeue" where
  "mq_link msg m =
     (let m = (case msg_queue_tail m of None \<Rightarrow> m | Some l \<Rightarrow> m\<lparr>mq_next := (mq_next m)(l := Some msg)\<rparr>);
          m = m\<lparr>msg_queue_tail := Some msg\<rparr>;
          m = (if msg_queue_head m = None then m\<lparr>msg_queue_head := Some msg\<rparr> else m)
      in m\<lparr>mq_entry := mq_entry m + 1\<rparr>)"

definition mq_link_urgent :: "nat \<Rightarrow> rt_messagequeue \<Rightarrow> rt_messagequeue" where
  "mq_link_urgent msg m =
     (let m = m\<lparr>mq_next := (mq_next m)(msg := msg_queue_head m), msg_queue_head := Some msg\<rparr>;
          m = (if msg_queue_tail m = None then m\<lparr>msg_queue_tail := Some msg\<rparr> else m)
      in m\<lparr>mq_entry := mq_entry m + 1\<rparr>)"

text \<open>Taking the first message out, which reads through the head pointer, and giving its block back.\<close>

definition mq_unlink :: "rt_messagequeue \<Rightarrow> (nat \<times> rt_messagequeue) option" where
  "mq_unlink m =
     (case msg_queue_head m of
        None \<Rightarrow> None
      | Some msg \<Rightarrow>
          let m = m\<lparr>msg_queue_head := mq_next m msg\<rparr>;
              m = (if msg_queue_tail m = Some msg then m\<lparr>msg_queue_tail := None\<rparr> else m)
          in Some (msg, m\<lparr>mq_entry := mq_entry m - 1\<rparr>))"

definition mq_read :: "nat \<Rightarrow> rt_uint32_t \<Rightarrow> rt_messagequeue \<Rightarrow> rt_uint8_t list" where
  "mq_read msg sz m = take (if unat (msg_size m) < unat sz then unat (msg_size m) else unat sz) (mq_data m msg)"

definition mq_release :: "nat \<Rightarrow> rt_messagequeue \<Rightarrow> rt_messagequeue" where
  "mq_release msg m = m\<lparr>mq_next := (mq_next m)(msg := msg_queue_free m), msg_queue_free := Some msg\<rparr>"

text \<open>The loop of \<^verbatim>\<open>rt_mq_control\<close> that moves all messages back to the free list.\<close>

partial_function (option) mq_drain :: "rt_messagequeue \<Rightarrow> rt_messagequeue option" where
  "mq_drain m =
     (case msg_queue_head m of
        None \<Rightarrow> Some m
      | Some msg \<Rightarrow>
          let m = m\<lparr>msg_queue_head := mq_next m msg\<rparr>;
              m = (if msg_queue_tail m = Some msg then m\<lparr>msg_queue_tail := None\<rparr> else m)
          in mq_drain (mq_release msg m))"

section \<open>Operations\<close>

abbreviation upd_mq :: "nat \<Rightarrow> (rt_messagequeue \<Rightarrow> rt_messagequeue) \<Rightarrow> kstate \<Rightarrow> kstate" where
  "upd_mq i f s \<equiv> s\<lparr>k_mq := (k_mq s)(i := f (k_mq s i))\<rparr>"

text \<open>The bytes of block \<open>k\<close> in a pool of bytes: a block is a link of four bytes and the message.\<close>

definition mq_block :: "rt_uint16_t \<Rightarrow> rt_uint8_t list \<Rightarrow> nat \<Rightarrow> rt_uint8_t list" where
  "mq_block sz bytes k = take (unat sz) (drop (k * (unat sz + 4) + 4) bytes)"

definition new_mq :: "nat \<Rightarrow> rt_uint8_t list \<Rightarrow> rt_uint16_t \<Rightarrow> rt_uint16_t \<Rightarrow> rt_messagequeue \<Rightarrow> rt_messagequeue" where
  "new_mq addr bytes sz n m =
     mq_free_init (unat n) (m\<lparr>mq_pool := addr, msg_size := sz, max_msgs := n, msg_queue_head := None, msg_queue_tail := None,
       msg_queue_free := None, mq_data := mq_block sz bytes\<rparr>)\<lparr>mq_entry := 0\<rparr>"

definition rt_mq_init ::
  "nat \<Rightarrow> cstr \<Rightarrow> nat \<times> rt_uint8_t list \<Rightarrow> rt_uint32_t \<Rightarrow> rt_uint32_t \<Rightarrow> rt_uint8_t \<Rightarrow> kstate \<Rightarrow> kstate option" where
  "rt_mq_init i name msgpool sz pool_size flag s = do {
     RT_ASSERT (i \<noteq> RT_NULL);
     let s = rt_object_init (Obj_mq i) RT_Object_Class_MessageQueue name s;
     let s = set_obj_flag (Obj_mq i) flag s;
     let s = rt_ipc_object_init (Suspend (Obj_mq i)) s;
     let sz = ucast (RT_ALIGN sz 4);
     Some (upd_mq i (new_mq (fst msgpool) (snd msgpool) sz (ucast (pool_size div (ucast sz + 4)))) s)
   }"

definition rt_mq_detach :: "nat \<Rightarrow> kstate \<Rightarrow> kstate option" where
  "rt_mq_detach i s = do {
     RT_ASSERT (i \<noteq> RT_NULL);
     s \<leftarrow> rt_ipc_list_resume_all (Suspend (Obj_mq i)) s;
     Some (rt_object_detach (Obj_mq i) s)
   }"

definition rt_mq_delete :: "nat \<Rightarrow> kstate \<Rightarrow> kstate option" where
  "rt_mq_delete i s = do {
     RT_DEBUG_NOT_IN_INTERRUPT s;
     RT_ASSERT (i \<noteq> RT_NULL);
     s \<leftarrow> rt_ipc_list_resume_all (Suspend (Obj_mq i)) s;
     let s = emit (Heap_free (mq_pool (k_mq s i))) s;
     rt_object_delete (Obj_mq i) s
   }"

definition rt_mq_create ::
  "nat option \<Rightarrow> (nat \<times> rt_uint8_t list) option \<Rightarrow> cstr \<Rightarrow> rt_uint32_t \<Rightarrow> rt_uint32_t \<Rightarrow> rt_uint8_t \<Rightarrow> kstate \<Rightarrow> (nat option \<times> kstate) option" where
  "rt_mq_create mem pool name sz n flag s = do {
     RT_DEBUG_NOT_IN_INTERRUPT s;
     (_, s) \<leftarrow> rt_object_allocate (map_option Obj_mq mem) RT_Object_Class_MessageQueue name s;
     case mem of
       None \<Rightarrow> Some (None, s)
     | Some i \<Rightarrow>
         let s = set_obj_flag (Obj_mq i) flag s;
             s = rt_ipc_object_init (Suspend (Obj_mq i)) s;
             s = upd_mq i (\<lambda>m. m\<lparr>msg_size := ucast (RT_ALIGN sz 4), max_msgs := ucast n\<rparr>) s
         in (case pool of
               None \<Rightarrow> do {
                 s \<leftarrow> rt_mq_delete i (upd_mq i (\<lambda>m. m\<lparr>mq_pool := RT_NULL\<rparr>) s);
                 Some (None, s)
               }
             | Some (addr, bytes) \<Rightarrow> Some (Some i, upd_mq i (\<lambda>m. new_mq addr bytes (msg_size m) (max_msgs m) m) s))
   }"

text \<open>
  The last section of both sends wakes a receiver. \<open>buffer\<close> is the list of the bytes to send, so that \<^verbatim>\<open>size\<close> is its length.
\<close>

definition mq_wake :: "nat \<Rightarrow> kstate \<Rightarrow> kstate option" where
  "mq_wake i s =
     (if k_tlist s (Suspend (Obj_mq i)) \<noteq> [] then do {
        s \<leftarrow> rt_ipc_list_resume (Suspend (Obj_mq i)) s;
        rt_schedule s
      } else Some s)"

definition rt_mq_send :: "nat \<Rightarrow> rt_uint8_t list \<Rightarrow> kstate \<Rightarrow> (rt_err_t \<times> kstate) option" where
  "rt_mq_send i buffer s = do {
     RT_ASSERT (i \<noteq> RT_NULL);
     RT_ASSERT (buffer \<noteq> []);
     if unat (msg_size (k_mq s i)) < length buffer then Some (- RT_ERROR, s)
     else do {
       let s = emit (Hook_put (Obj_mq i)) s;
       case mq_alloc (k_mq s i) of
         (None, m) \<Rightarrow> Some (- RT_EFULL, upd_mq i (\<lambda>_. m) s)
       | (Some msg, m) \<Rightarrow> do {
           let s = upd_mq i (\<lambda>_. m) s;
           let s = upd_mq i (mq_fill msg buffer) (upd_mq i (mq_clear_next msg) s);
           s \<leftarrow> mq_wake i (upd_mq i (mq_link msg) s);
           Some (RT_EOK, s)
         }
     }
   }"

definition rt_mq_urgent :: "nat \<Rightarrow> rt_uint8_t list \<Rightarrow> kstate \<Rightarrow> (rt_err_t \<times> kstate) option" where
  "rt_mq_urgent i buffer s = do {
     RT_ASSERT (i \<noteq> RT_NULL);
     RT_ASSERT (buffer \<noteq> []);
     if unat (msg_size (k_mq s i)) < length buffer then Some (- RT_ERROR, s)
     else do {
       let s = emit (Hook_put (Obj_mq i)) s;
       case mq_alloc (k_mq s i) of
         (None, m) \<Rightarrow> Some (- RT_EFULL, upd_mq i (\<lambda>_. m) s)
       | (Some msg, m) \<Rightarrow> do {
           let s = upd_mq i (\<lambda>_. m) s;
           let s = upd_mq i (mq_fill msg buffer) s;
           s \<leftarrow> mq_wake i (upd_mq i (mq_link_urgent msg) s);
           Some (RT_EOK, s)
         }
     }
   }"

text \<open>
  One pass of the loop of \<^verbatim>\<open>rt_mq_recv\<close>, and the rest of the call when there is a message. The second component of the
  result is what is written to the buffer, the third the tick at which the waiting began.
\<close>

definition mq_recv_loop ::
  "nat \<Rightarrow> tid \<Rightarrow> rt_uint32_t \<Rightarrow> rt_int32_t \<Rightarrow> kstate \<Rightarrow> (outcome \<times> rt_uint8_t list option \<times> rt_tick_t \<times> kstate) option" where
  "mq_recv_loop i t sz timeout s =
     (if mq_entry (k_mq s i) = 0 then do {
        RT_DEBUG_IN_THREAD_CONTEXT s;
        let s = upd_thread t (error_update (\<lambda>_. RT_EOK)) s;
        if timeout = 0 then Some (Returned (- RT_ETIMEOUT), None, 0, upd_thread t (error_update (\<lambda>_. - RT_ETIMEOUT)) s)
        else do {
          let tick_delta = (if 0 <s timeout then rt_tick_get s else 0);
          s \<leftarrow> ipc_wait (Suspend (Obj_mq i)) t (obj_flag (k_object s (Obj_mq i))) timeout s;
          s \<leftarrow> rt_schedule s;
          Some (Waiting, None, tick_delta, s)
        }
      }
      else do {
        (msg, m) \<leftarrow> mq_unlink (k_mq s i);
        let bytes = mq_read msg sz m;
        let s = upd_mq i (\<lambda>_. mq_release msg m) s;
        Some (Returned RT_EOK, Some bytes, 0, emit (Hook_take (Obj_mq i)) s)
      })"

definition rt_mq_recv ::
  "nat \<Rightarrow> rt_uint32_t \<Rightarrow> rt_int32_t \<Rightarrow> kstate \<Rightarrow> (outcome \<times> rt_uint8_t list option \<times> rt_tick_t \<times> kstate) option" where
  "rt_mq_recv i sz timeout s = do {
     RT_ASSERT (i \<noteq> RT_NULL);
     RT_ASSERT (sz \<noteq> 0);
     let t = rt_thread_self s;
     let s = emit (Hook_trytake (Obj_mq i)) s;
     if mq_entry (k_mq s i) = 0 \<and> timeout = 0 then Some (Returned (- RT_ETIMEOUT), None, 0, s)
     else mq_recv_loop i t sz timeout s
   }"

definition rt_mq_recv_resume ::
  "nat \<Rightarrow> tid \<Rightarrow> rt_uint32_t \<Rightarrow> rt_int32_t \<Rightarrow> rt_tick_t \<Rightarrow> kstate \<Rightarrow> (outcome \<times> rt_uint8_t list option \<times> rt_tick_t \<times> kstate) option" where
  "rt_mq_recv_resume i t sz timeout tick_delta s =
     (if error (k_thread s t) \<noteq> RT_EOK then Some (Returned (error (k_thread s t)), None, 0, s)
      else mq_recv_loop i t sz (time_left timeout tick_delta (rt_tick_get s)) s)"

definition rt_mq_control :: "nat \<Rightarrow> rt_uint8_t \<Rightarrow> kstate \<Rightarrow> (rt_err_t \<times> kstate) option" where
  "rt_mq_control i cmd s = do {
     RT_ASSERT (i \<noteq> RT_NULL);
     if cmd = RT_IPC_CMD_RESET then do {
       s \<leftarrow> rt_ipc_list_resume_all (Suspend (Obj_mq i)) s;
       m \<leftarrow> mq_drain (k_mq s i);
       let s = upd_mq i (\<lambda>_. m\<lparr>mq_entry := 0\<rparr>) s;
       s \<leftarrow> rt_schedule s;
       Some (RT_EOK, s)
     } else Some (- RT_ERROR, s)
   }"

section \<open>Lists of blocks\<close>

primrec mchain :: "(nat \<Rightarrow> nat option) \<Rightarrow> nat option \<Rightarrow> nat list \<Rightarrow> bool" where
  "mchain nx p [] \<longleftrightarrow> p = None"
| "mchain nx p (b # bs) \<longleftrightarrow> p = Some b \<and> mchain nx (nx b) bs"

lemma mchain_upd [simp]: "b \<notin> set bs \<Longrightarrow> mchain (nx(b := v)) p bs = mchain nx p bs"
  by (induction bs arbitrary: p) auto

lemma mchain_snoc:
  assumes "mchain nx p bs" "bs \<noteq> []" "distinct bs" "b \<notin> set bs" "nx b = None"
  shows "mchain (nx(last bs := Some b)) p (bs @ [b])"
  using assms
proof (induction bs arbitrary: p)
  case (Cons a bs)
  show ?case
  proof (cases bs)
    case Nil
    then show ?thesis using Cons.prems by auto
  next
    case (Cons c cs)
    have "last bs \<in> set bs" using Cons by simp
    then have "last bs \<noteq> a" using Cons.prems(3) by auto
    then show ?thesis using Cons.IH [of "nx a"] Cons.prems Cons by auto
  qed
qed simp

lemma mchain_det: "mchain nx p bs \<Longrightarrow> mchain nx p cs \<Longrightarrow> bs = cs"
proof (induction bs arbitrary: p cs)
  case Nil
  then show ?case by (cases cs) auto
next
  case (Cons b bs)
  then show ?case by (cases cs) auto
qed

text \<open>
  The blocks of a message queue: \<open>free\<close> is the free list, \<open>queue\<close> the queued messages, \<open>fly\<close> the blocks that calls
  between their two critical sections hold.
\<close>

definition mq_repr :: "rt_messagequeue \<Rightarrow> nat list \<Rightarrow> nat list \<Rightarrow> nat list \<Rightarrow> bool" where
  "mq_repr m free queue fly \<longleftrightarrow> mchain (mq_next m) (msg_queue_free m) free \<and> mchain (mq_next m) (msg_queue_head m) queue \<and>
     msg_queue_tail m = (if queue = [] then None else Some (last queue)) \<and>
     distinct (free @ queue @ fly) \<and> set (free @ queue @ fly) = {..<unat (max_msgs m)} \<and> unat (mq_entry m) = length queue \<and>
     (\<forall>b < unat (max_msgs m). length (mq_data m b) = unat (msg_size m))"

lemma mq_reprD:
  assumes "mq_repr m free queue fly"
  shows "mchain (mq_next m) (msg_queue_free m) free" "mchain (mq_next m) (msg_queue_head m) queue"
    "msg_queue_tail m = (if queue = [] then None else Some (last queue))"
    "distinct (free @ queue @ fly)" "set (free @ queue @ fly) = {..<unat (max_msgs m)}" "unat (mq_entry m) = length queue"
    "b \<in> set (free @ queue @ fly) \<Longrightarrow> length (mq_data m b) = unat (msg_size m)"
proof -
  have D: "set (free @ queue @ fly) = {..<unat (max_msgs m)}" "\<forall>b < unat (max_msgs m). length (mq_data m b) = unat (msg_size m)"
    using assms unfolding mq_repr_def by blast+
  show "mchain (mq_next m) (msg_queue_free m) free" "mchain (mq_next m) (msg_queue_head m) queue"
    "msg_queue_tail m = (if queue = [] then None else Some (last queue))"
    "distinct (free @ queue @ fly)" "set (free @ queue @ fly) = {..<unat (max_msgs m)}" "unat (mq_entry m) = length queue"
    using assms unfolding mq_repr_def by blast+
  show "b \<in> set (free @ queue @ fly) \<Longrightarrow> length (mq_data m b) = unat (msg_size m)" using D by blast
qed

lemma mq_repr_length:
  assumes "mq_repr m free queue fly"
  shows "length free + length queue + length fly = unat (max_msgs m)"
  using distinct_card [OF mq_reprD(4) [OF assms]] mq_reprD(5) [OF assms] by simp

lemma mq_entry_succ:
  assumes "mq_repr m free queue fly" "fly \<noteq> []"
  shows "unat (mq_entry m + 1) = Suc (length queue)"
proof -
  have "length queue < unat (max_msgs m)" using mq_repr_length [OF assms(1)] assms(2) by (cases fly) auto
  then have "Suc (length queue) < 2 ^ 16" using unsigned_less [of "max_msgs m", where 'a = nat] by simp
  then show ?thesis using mq_reprD(6) [OF assms(1)] by (subst unat_word_ariths) simp
qed

text \<open>Each section moves blocks from one list to the other and touches no other block.\<close>

lemma mq_alloc_ok:
  assumes "mq_repr m free queue fly"
  shows "free = [] \<Longrightarrow> mq_alloc m = (None, m)"
    "free = b # bs \<Longrightarrow> \<exists>m'. mq_alloc m = (Some b, m') \<and> mq_repr m' bs queue (b # fly) \<and> mq_data m' = mq_data m"
proof -
  note D = mq_reprD(1) [OF assms]
  show "free = [] \<Longrightarrow> mq_alloc m = (None, m)" using D by (simp add: mq_alloc_def)
  assume f: "free = b # bs"
  then show "\<exists>m'. mq_alloc m = (Some b, m') \<and> mq_repr m' bs queue (b # fly) \<and> mq_data m' = mq_data m"
    using D assms by (auto simp: mq_alloc_def mq_repr_def)
qed

lemma mq_fill_ok:
  assumes "mq_repr m free queue fly" "b \<in> set fly" "length buffer \<le> unat (msg_size m)"
  shows "mq_repr (mq_fill b buffer m) free queue fly" "take (length buffer) (mq_data (mq_fill b buffer m) b) = buffer"
    "c \<noteq> b \<Longrightarrow> mq_data (mq_fill b buffer m) c = mq_data m c"
  using assms mq_reprD(7) [OF assms(1), of b] by (auto simp: mq_repr_def mq_fill_def)

lemma mq_clear_next_ok:
  assumes "mq_repr m free queue fly" "b \<in> set fly"
  shows "mq_repr (mq_clear_next b m) free queue fly"
proof -
  have "b \<notin> set free" "b \<notin> set queue" using assms mq_reprD(4) [OF assms(1)] by auto
  then show ?thesis using assms(1) by (simp add: mq_repr_def mq_clear_next_def)
qed

lemma mq_repr_fly: "mq_repr m free queue (us @ b # vs) = mq_repr m free queue (b # us @ vs)"
proof -
  have "distinct (free @ queue @ us @ b # vs) = distinct (free @ queue @ b # us @ vs)" by auto
  moreover have "set (free @ queue @ us @ b # vs) = set (free @ queue @ b # us @ vs)" by auto
  ultimately show ?thesis by (simp only: mq_repr_def)
qed

lemma mq_link_ok:
  assumes "mq_repr m free queue (b # fly)" "mq_next m b = None"
  shows "mq_repr (mq_link b m) free (queue @ [b]) fly" "mq_data (mq_link b m) = mq_data m"
proof -
  note D = mq_reprD [OF assms(1)] and e = mq_entry_succ [OF assms(1)]
  show "mq_data (mq_link b m) = mq_data m" by (simp add: mq_link_def Let_def split: option.splits)
  show "mq_repr (mq_link b m) free (queue @ [b]) fly"
  proof (cases "queue = []")
    case True
    then show ?thesis using D(1-6) e assms(2) assms(1) by (auto simp: mq_repr_def mq_link_def)
  next
    case False
    have l: "last queue \<in> set queue" using False by simp
    then have "last queue \<notin> set free" using D(4) by auto
    then have "mchain ((mq_next m)(last queue := Some b)) (msg_queue_free m) free" using D(1) by simp
    moreover have "mchain ((mq_next m)(last queue := Some b)) (msg_queue_head m) (queue @ [b])"
      using D(2,4) False assms(2) by (intro mchain_snoc) auto
    moreover have "msg_queue_head m \<noteq> None" using D(2) False by (cases queue) auto
    ultimately show ?thesis using D(3-6) e False assms(1) by (auto simp: mq_repr_def mq_link_def)
  qed
qed

lemma mq_link_urgent_ok:
  assumes "mq_repr m free queue (b # fly)"
  shows "mq_repr (mq_link_urgent b m) free (b # queue) fly" "mq_data (mq_link_urgent b m) = mq_data m"
proof -
  note D = mq_reprD [OF assms] and e = mq_entry_succ [OF assms]
  show "mq_data (mq_link_urgent b m) = mq_data m" by (simp add: mq_link_urgent_def Let_def)
  show "mq_repr (mq_link_urgent b m) free (b # queue) fly"
    using D(1-6) e assms by (auto simp: mq_repr_def mq_link_urgent_def Let_def)
qed

lemma mq_unlink_ok:
  assumes "mq_repr m free (b # queue) fly"
  shows "\<exists>m'. mq_unlink m = Some (b, m') \<and> mq_repr m' free queue (b # fly) \<and> mq_data m' = mq_data m \<and> msg_size m' = msg_size m \<and> max_msgs m' = max_msgs m"
proof -
  note D = mq_reprD [OF assms]
  have e: "unat (mq_entry m - 1) = length queue" using D(6) by (simp add: unat_minus_one flip: unat_eq_zero)
  have t: "msg_queue_tail m = Some b \<longleftrightarrow> queue = []" using D(3,4) by (auto dest: last_in_set)
  show ?thesis
    using D(1-6) e t assms by (auto simp: mq_repr_def mq_unlink_def Let_def)
qed

lemma mq_release_ok:
  assumes "mq_repr m free queue (b # fly)"
  shows "mq_repr (mq_release b m) (b # free) queue fly" "mq_data (mq_release b m) = mq_data m"
  using mq_reprD(1-6) [OF assms] assms by (auto simp: mq_repr_def mq_release_def)

text \<open>What the sections leave alone: the sizes, and the link and the bytes of every other block that is in flight.\<close>

lemma mq_sizes [simp]:
  "msg_size (mq_fill b buffer m) = msg_size m" "msg_size (mq_clear_next b m) = msg_size m" "msg_size (mq_link b m) = msg_size m"
  "msg_size (mq_link_urgent b m) = msg_size m" "msg_size (mq_release b m) = msg_size m"
  "max_msgs (mq_fill b buffer m) = max_msgs m" "max_msgs (mq_clear_next b m) = max_msgs m" "max_msgs (mq_link b m) = max_msgs m"
  "max_msgs (mq_link_urgent b m) = max_msgs m" "max_msgs (mq_release b m) = max_msgs m"
  by (auto simp: mq_fill_def mq_clear_next_def mq_link_def mq_link_urgent_def mq_release_def Let_def split: option.splits)

lemma mq_next_other:
  "mq_next (mq_fill b buffer m) = mq_next m" "c \<noteq> b \<Longrightarrow> mq_next (mq_clear_next b m) c = mq_next m c"
  "msg_queue_tail m \<noteq> Some c \<Longrightarrow> mq_next (mq_link b m) c = mq_next m c" "c \<noteq> b \<Longrightarrow> mq_next (mq_link_urgent b m) c = mq_next m c"
  "c \<noteq> b \<Longrightarrow> mq_next (mq_release b m) c = mq_next m c"
  "mq_unlink m = Some (d, m') \<Longrightarrow> mq_next m' = mq_next m"
  by (auto simp: mq_fill_def mq_clear_next_def mq_link_def mq_link_urgent_def mq_release_def mq_unlink_def Let_def
    split: option.splits if_splits)

lemma mq_clear_next_data [simp]: "mq_data (mq_clear_next b m) = mq_data m"
  by (simp add: mq_clear_next_def)

lemma mq_alloc_same:
  assumes "mq_alloc m = (r, m')"
  shows "mq_data m' = mq_data m" "mq_next m' = mq_next m" "msg_size m' = msg_size m" "max_msgs m' = max_msgs m"
  using assms by (auto simp: mq_alloc_def split: option.splits)

lemma mq_drain_step:
  assumes "mq_repr (m\<lparr>mq_entry := of_nat (Suc (length queue))\<rparr>) free (b # queue) fly"
  shows "\<exists>m'. mq_drain m = mq_drain m' \<and> mq_repr (m'\<lparr>mq_entry := of_nat (length queue)\<rparr>) (b # free) queue fly \<and> mq_data m' = mq_data m \<and>
    msg_size m' = msg_size m \<and> max_msgs m' = max_msgs m \<and> (\<forall>c. c \<noteq> b \<longrightarrow> mq_next m' c = mq_next m c)"
proof -
  let ?m1 = "m\<lparr>msg_queue_head := mq_next m b\<rparr>"
  let ?m2 = "if msg_queue_tail ?m1 = Some b then ?m1\<lparr>msg_queue_tail := None\<rparr> else ?m1"
  have h: "msg_queue_head m = Some b" using mq_reprD(2) [OF assms] by simp
  have e: "(of_nat (Suc (length queue)) :: rt_uint16_t) - 1 = of_nat (length queue)" by simp
  have u: "mq_unlink (m\<lparr>mq_entry := of_nat (Suc (length queue))\<rparr>) = Some (b, ?m2\<lparr>mq_entry := of_nat (length queue)\<rparr>)"
    using h e by (simp add: mq_unlink_def Let_def del: of_nat_Suc)
  have r: "mq_repr (?m2\<lparr>mq_entry := of_nat (length queue)\<rparr>) free queue (b # fly)"
    using mq_unlink_ok [OF assms] u by simp
  have "mq_drain m = mq_drain (mq_release b ?m2)" by (subst mq_drain.simps) (simp add: h Let_def)
  moreover have "(mq_release b ?m2)\<lparr>mq_entry := of_nat (length queue)\<rparr> = mq_release b (?m2\<lparr>mq_entry := of_nat (length queue)\<rparr>)"
    by (simp add: mq_release_def)
  moreover have "mq_data (mq_release b ?m2) = mq_data m" "msg_size (mq_release b ?m2) = msg_size m" "max_msgs (mq_release b ?m2) = max_msgs m"
    "\<forall>c. c \<noteq> b \<longrightarrow> mq_next (mq_release b ?m2) c = mq_next m c" by (simp_all add: mq_release_def)
  ultimately show ?thesis using mq_release_ok(1) [OF r] by (intro exI [of _ "mq_release b ?m2"]) simp
qed

lemma mq_drain_ok:
  assumes "mq_repr (m\<lparr>mq_entry := of_nat (length queue)\<rparr>) free queue fly"
  shows "ok (mq_drain m) (\<lambda>m'. mq_repr (m'\<lparr>mq_entry := 0\<rparr>) (rev queue @ free) [] fly \<and> mq_data m' = mq_data m \<and>
    msg_size m' = msg_size m \<and> max_msgs m' = max_msgs m \<and> (\<forall>c. c \<notin> set queue \<longrightarrow> mq_next m' c = mq_next m c))"
  using assms
proof (induction queue arbitrary: m free)
  case Nil
  then have "msg_queue_head m = None" using mq_reprD(2) by fastforce
  then show ?case using Nil by (subst mq_drain.simps) (simp add: ok_Some)
next
  case (Cons b queue)
  have p: "mq_repr (m\<lparr>mq_entry := of_nat (Suc (length queue))\<rparr>) free (b # queue) fly" using Cons.prems by simp
  obtain m' where m': "mq_drain m = mq_drain m'" "mq_repr (m'\<lparr>mq_entry := of_nat (length queue)\<rparr>) (b # free) queue fly"
    "mq_data m' = mq_data m" "msg_size m' = msg_size m" "max_msgs m' = max_msgs m" "\<forall>c. c \<noteq> b \<longrightarrow> mq_next m' c = mq_next m c"
    using mq_drain_step [OF p] by blast
  show ?case
    unfolding m'(1) by (rule ok_mono [OF Cons.IH [OF m'(2)]]) (use m'(3-) in simp)
qed

lemma mq_repr_entry: "mq_repr m free queue fly \<Longrightarrow> m\<lparr>mq_entry := of_nat (length queue)\<rparr> = m"
  using mq_reprD(6) [of m free queue fly] by (cases m) (simp flip: mq_reprD(6))

section \<open>Interleaving\<close>

text \<open>
  A call between its sections. The last component of a receive is the message as it was when it was taken out; the
  code has no such variable, it serves to state what is delivered.
\<close>

datatype mq_task =
    Send_fill nat "rt_uint8_t list"
  | Send_link nat "rt_uint8_t list"
  | Urgent_fill nat "rt_uint8_t list"
  | Urgent_link nat "rt_uint8_t list"
  | Recv_copy nat rt_uint32_t "rt_uint8_t list"
  | Recv_release nat

fun task_block :: "mq_task \<Rightarrow> nat" where
  "task_block (Send_fill b _) = b"
| "task_block (Send_link b _) = b"
| "task_block (Urgent_fill b _) = b"
| "task_block (Urgent_link b _) = b"
| "task_block (Recv_copy b _ _) = b"
| "task_block (Recv_release b) = b"

datatype mq_label = Internal | Append "rt_uint8_t list" | Prepend "rt_uint8_t list" | Take "rt_uint8_t list" | Deliver "rt_uint8_t list" "rt_uint8_t list" | Reset

text \<open>Any number of calls, from threads and interrupt routines, take their steps in any order.\<close>

inductive mq_step :: "rt_messagequeue \<times> mq_task list \<Rightarrow> mq_label \<Rightarrow> rt_messagequeue \<times> mq_task list \<Rightarrow> bool" where
  send_begin: "buffer \<noteq> [] \<Longrightarrow> length buffer \<le> unat (msg_size m) \<Longrightarrow> mq_alloc m = (Some b, m') \<Longrightarrow>
     mq_step (m, ts) Internal (m', Send_fill b buffer # ts)"
| send_fill: "mq_step (m, us @ Send_fill b buffer # vs) Internal (mq_fill b buffer (mq_clear_next b m), us @ Send_link b buffer # vs)"
| send_link: "mq_step (m, us @ Send_link b buffer # vs) (Append buffer) (mq_link b m, us @ vs)"
| urgent_begin: "buffer \<noteq> [] \<Longrightarrow> length buffer \<le> unat (msg_size m) \<Longrightarrow> mq_alloc m = (Some b, m') \<Longrightarrow>
     mq_step (m, ts) Internal (m', Urgent_fill b buffer # ts)"
| urgent_fill: "mq_step (m, us @ Urgent_fill b buffer # vs) Internal (mq_fill b buffer m, us @ Urgent_link b buffer # vs)"
| urgent_link: "mq_step (m, us @ Urgent_link b buffer # vs) (Prepend buffer) (mq_link_urgent b m, us @ vs)"
| recv_begin: "mq_entry m \<noteq> 0 \<Longrightarrow> mq_unlink m = Some (b, m') \<Longrightarrow>
     mq_step (m, ts) (Take (mq_data m b)) (m', Recv_copy b sz (mq_data m b) # ts)"
| recv_copy: "mq_step (m, us @ Recv_copy b sz x # vs) (Deliver x (mq_read b sz m)) (m, us @ Recv_release b # vs)"
| recv_release: "mq_step (m, us @ Recv_release b # vs) Internal (mq_release b m, us @ vs)"
| reset: "mq_drain m = Some m' \<Longrightarrow> mq_step (m, ts) Reset (m'\<lparr>mq_entry := 0\<rparr>, ts)"

text \<open>
  The abstract queue: messages are put at either end and taken from the front. A message of less than the full size is
  followed in its block by what was there before.
\<close>

fun aq_step :: "mq_label \<Rightarrow> rt_uint8_t list list \<Rightarrow> rt_uint8_t list list \<Rightarrow> bool" where
  "aq_step Internal q q' \<longleftrightarrow> q' = q"
| "aq_step (Append x) q q' \<longleftrightarrow> (\<exists>y. q' = q @ [x @ y])"
| "aq_step (Prepend x) q q' \<longleftrightarrow> (\<exists>y. q' = (x @ y) # q)"
| "aq_step (Take x) q q' \<longleftrightarrow> q = x # q'"
| "aq_step (Deliver x y) q q' \<longleftrightarrow> q' = q \<and> (\<exists>n. y = take n x)"
| "aq_step Reset q q' \<longleftrightarrow> q' = []"

fun task_ok :: "rt_messagequeue \<Rightarrow> mq_task \<Rightarrow> bool" where
  "task_ok m (Send_fill b x) \<longleftrightarrow> length x \<le> unat (msg_size m)"
| "task_ok m (Send_link b x) \<longleftrightarrow> take (length x) (mq_data m b) = x \<and> mq_next m b = None"
| "task_ok m (Urgent_fill b x) \<longleftrightarrow> length x \<le> unat (msg_size m)"
| "task_ok m (Urgent_link b x) \<longleftrightarrow> take (length x) (mq_data m b) = x"
| "task_ok m (Recv_copy b sz x) \<longleftrightarrow> mq_data m b = x"
| "task_ok m (Recv_release b) \<longleftrightarrow> True"

definition mq_ok :: "rt_messagequeue \<times> mq_task list \<Rightarrow> nat list \<Rightarrow> nat list \<Rightarrow> bool" where
  "mq_ok c free queue \<longleftrightarrow> mq_repr (fst c) free queue (map task_block (snd c)) \<and> (\<forall>t \<in> set (snd c). task_ok (fst c) t)"

lemma task_ok_cong:
  assumes "task_ok m t" "msg_size m' = msg_size m" "mq_data m' (task_block t) = mq_data m (task_block t)"
    "mq_next m' (task_block t) = mq_next m (task_block t)"
  shows "task_ok m' t"
  using assms by (cases t) auto

lemma tasks_ok_cong:
  assumes "\<forall>t \<in> set ts. task_ok m t" "msg_size m' = msg_size m"
    "\<And>c. c \<in> set (map task_block ts) \<Longrightarrow> mq_data m' c = mq_data m c \<and> mq_next m' c = mq_next m c"
  shows "\<forall>t \<in> set ts. task_ok m' t"
proof
  fix t assume t: "t \<in> set ts"
  show "task_ok m' t" by (rule task_ok_cong [of m]) (use t assms(1,2) assms(3) [of "task_block t"] in auto)
qed

text \<open>The block of one task, taken out of the list of tasks.\<close>

lemma mq_ok_split:
  assumes "mq_ok (m, us @ t # vs) free queue"
  shows "mq_repr m free queue (task_block t # map task_block (us @ vs))" "task_ok m t" "\<forall>t \<in> set (us @ vs). task_ok m t"
    "task_block t \<notin> set (map task_block (us @ vs))" "task_block t \<notin> set queue" "task_block t \<notin> set free"
    "c \<in> set (map task_block (us @ vs)) \<Longrightarrow> c \<notin> set queue"
proof -
  show r: "mq_repr m free queue (task_block t # map task_block (us @ vs))"
    using assms mq_repr_fly [of m free queue "map task_block us" "task_block t" "map task_block vs"] by (simp add: mq_ok_def)
  show "task_ok m t" "\<forall>t \<in> set (us @ vs). task_ok m t" using assms by (auto simp: mq_ok_def)
  show "task_block t \<notin> set (map task_block (us @ vs))" "task_block t \<notin> set queue" "task_block t \<notin> set free"
    "c \<in> set (map task_block (us @ vs)) \<Longrightarrow> c \<notin> set queue"
    using mq_reprD(4) [OF r] by auto
qed

lemma mq_ok_join:
  assumes "mq_repr m free queue (task_block t # map task_block (us @ vs))" "task_ok m t" "\<forall>t \<in> set (us @ vs). task_ok m t"
  shows "mq_ok (m, us @ t # vs) free queue"
  using assms mq_repr_fly [of m free queue "map task_block us" "task_block t" "map task_block vs"] by (auto simp: mq_ok_def)

lemma mq_step_begin:
  assumes "mq_ok (m, ts) free queue" "mq_alloc m = (Some b, m')" "task_block t = b" "task_ok m' t"
  shows "\<exists>free'. mq_ok (m', t # ts) free' queue \<and> map (mq_data m') queue = map (mq_data m) queue"
proof -
  have r: "mq_repr m free queue (map task_block ts)" using assms(1) by (simp add: mq_ok_def)
  obtain bs where f: "free = b # bs" using mq_alloc_ok [OF r] assms(2) by (cases free) auto
  have "mq_repr m' bs queue (b # map task_block ts)" "mq_data m' = mq_data m" using mq_alloc_ok(2) [OF r f] assms(2) by auto
  moreover have "\<forall>t \<in> set ts. task_ok m' t"
    by (rule tasks_ok_cong [of _ m]) (use assms(1) mq_alloc_same [OF assms(2)] in \<open>auto simp: mq_ok_def\<close>)
  ultimately show ?thesis using assms(3,4) by (auto simp: mq_ok_def)
qed

lemma mq_step_fill:
  assumes "mq_ok (m, us @ t # vs) free queue" "m1 = m \<or> m1 = mq_clear_next b m" "task_block t = b" "task_block t' = b" "length x \<le> unat (msg_size m)"
    "take (length x) (mq_data (mq_fill b x m1) b) = x \<Longrightarrow> task_ok (mq_fill b x m1) t'"
  shows "mq_ok (mq_fill b x m1, us @ t' # vs) free queue \<and> map (mq_data (mq_fill b x m1)) queue = map (mq_data m) queue"
proof -
  note S = mq_ok_split [OF assms(1), unfolded assms(3)]
  have r1: "mq_repr m1 free queue (b # map task_block (us @ vs))"
    using assms(2) S(1) mq_clear_next_ok [OF S(1), of b] by auto
  have sz: "msg_size m1 = msg_size m" "mq_data m1 = mq_data m" using assms(2) by auto
  note F = mq_fill_ok [OF r1, of b x]
  have f: "mq_repr (mq_fill b x m1) free queue (b # map task_block (us @ vs))" "take (length x) (mq_data (mq_fill b x m1) b) = x"
    using F(1,2) assms(5) sz by simp_all
  have o: "mq_data (mq_fill b x m1) c = mq_data m c" if "c \<noteq> b" for c using F(3) that assms(5) sz by simp
  have "\<forall>t \<in> set (us @ vs). task_ok (mq_fill b x m1) t"
  proof (rule tasks_ok_cong [OF S(3)])
    show "msg_size (mq_fill b x m1) = msg_size m" using sz by simp
    fix c assume "c \<in> set (map task_block (us @ vs))"
    then have "c \<noteq> b" using S(4) by auto
    then show "mq_data (mq_fill b x m1) c = mq_data m c \<and> mq_next (mq_fill b x m1) c = mq_next m c"
      using o assms(2) by (auto simp: mq_next_other)
  qed
  then have "mq_ok (mq_fill b x m1, us @ t' # vs) free queue"
    using f assms(4,6) by (intro mq_ok_join) simp_all
  moreover have "map (mq_data (mq_fill b x m1)) queue = map (mq_data m) queue"
    unfolding map_eq_conv using o S(5) by metis
  ultimately show ?thesis by blast
qed

lemma mq_step_sim:
  assumes "mq_step (m, ts) l (m', ts')" "mq_ok (m, ts) free queue"
  shows "\<exists>free' queue'. mq_ok (m', ts') free' queue' \<and> aq_step l (map (mq_data m) queue) (map (mq_data m') queue')"
  using assms(1)
proof cases
  case (send_begin buffer b)
  have "task_ok m' (Send_fill b buffer)" using send_begin(4) mq_alloc_same(3) [OF send_begin(5)] by simp
  from mq_step_begin [OF assms(2) send_begin(5) _ this] show ?thesis unfolding send_begin(1,2) aq_step.simps task_block.simps by blast
next
  case (send_fill us b buffer vs)
  have n: "mq_next (mq_fill b buffer (mq_clear_next b m)) b = None" by (simp add: mq_next_other mq_clear_next_def)
  have "mq_ok (mq_fill b buffer (mq_clear_next b m), us @ Send_link b buffer # vs) free queue \<and>
      map (mq_data (mq_fill b buffer (mq_clear_next b m))) queue = map (mq_data m) queue"
    by (rule mq_step_fill [where t = "Send_fill b buffer"]) (use assms(2) [unfolded send_fill(1)] mq_ok_split(2) [OF assms(2) [unfolded send_fill(1)]] n in simp_all)
  then show ?thesis unfolding send_fill(2-4) aq_step.simps by blast
next
  case (send_link us b buffer vs)
  note S = mq_ok_split [OF assms(2) [unfolded send_link(1)], simplified]
  have "mq_repr (mq_link b m) free (queue @ [b]) (map task_block (us @ vs))" "mq_data (mq_link b m) = mq_data m"
    using mq_link_ok [OF S(1)] S(2) by simp_all
  moreover have "\<forall>t \<in> set (us @ vs). task_ok (mq_link b m) t"
  proof (rule tasks_ok_cong [of _ m])
    fix c assume "c \<in> set (map task_block (us @ vs))"
    then have "msg_queue_tail m \<noteq> Some c" using S(7) mq_reprD(3) [OF S(1)] by (auto dest: last_in_set)
    then show "mq_data (mq_link b m) c = mq_data m c \<and> mq_next (mq_link b m) c = mq_next m c"
      using calculation(2) by (simp add: mq_next_other)
  qed (use S(3) in auto)
  moreover have "mq_data m b = buffer @ drop (length buffer) (mq_data m b)" using S(2) by (metis append_take_drop_id)
  ultimately have "mq_ok (m', ts') free (queue @ [b])" "aq_step l (map (mq_data m) queue) (map (mq_data m') (queue @ [b]))"
    unfolding send_link(2-4) mq_ok_def by auto
  then show ?thesis by blast
next
  case (urgent_begin buffer b)
  have "task_ok m' (Urgent_fill b buffer)" using urgent_begin(4) mq_alloc_same(3) [OF urgent_begin(5)] by simp
  from mq_step_begin [OF assms(2) urgent_begin(5) _ this] show ?thesis unfolding urgent_begin(1,2) aq_step.simps task_block.simps by blast
next
  case (urgent_fill us b buffer vs)
  have "mq_ok (mq_fill b buffer m, us @ Urgent_link b buffer # vs) free queue \<and>
      map (mq_data (mq_fill b buffer m)) queue = map (mq_data m) queue"
    by (rule mq_step_fill [where t = "Urgent_fill b buffer"]) (use assms(2) [unfolded urgent_fill(1)] mq_ok_split(2) [OF assms(2) [unfolded urgent_fill(1)]] in simp_all)
  then show ?thesis unfolding urgent_fill(2-4) aq_step.simps by blast
next
  case (urgent_link us b buffer vs)
  note S = mq_ok_split [OF assms(2) [unfolded urgent_link(1)], simplified]
  have "mq_repr (mq_link_urgent b m) free (b # queue) (map task_block (us @ vs))" "mq_data (mq_link_urgent b m) = mq_data m"
    using mq_link_urgent_ok [OF S(1)] by simp_all
  moreover have "\<forall>t \<in> set (us @ vs). task_ok (mq_link_urgent b m) t"
  proof (rule tasks_ok_cong [of _ m])
    fix c assume "c \<in> set (map task_block (us @ vs))"
    then have "c \<noteq> b" using S(4) by auto
    then show "mq_data (mq_link_urgent b m) c = mq_data m c \<and> mq_next (mq_link_urgent b m) c = mq_next m c"
      using calculation(2) by (simp add: mq_next_other)
  qed (use S(3) in auto)
  moreover have "mq_data m b = buffer @ drop (length buffer) (mq_data m b)" using S(2) by (metis append_take_drop_id)
  ultimately have "mq_ok (m', ts') free (b # queue)" "aq_step l (map (mq_data m) queue) (map (mq_data m') (b # queue))"
    unfolding urgent_link(2-4) mq_ok_def by auto
  then show ?thesis by blast
next
  case (recv_begin b sz)
  have r: "mq_repr m free queue (map task_block ts)" using assms(2) by (simp add: mq_ok_def)
  then obtain q where q: "queue = b # q"
    using recv_begin mq_reprD(2,6) [OF r] by (cases queue) (auto simp: mq_unlink_def Let_def split: if_splits)
  have "mq_repr m' free q (b # map task_block ts)" "mq_data m' = mq_data m" "msg_size m' = msg_size m"
    using mq_unlink_ok [of m free b q] r q recv_begin by auto
  moreover have "\<forall>t \<in> set ts. task_ok m' t"
    by (rule tasks_ok_cong [of _ m]) (use assms(2) recv_begin calculation(2,3) mq_next_other(6) in \<open>auto simp: mq_ok_def\<close>)
  ultimately have "mq_ok (m', ts') free q" "aq_step l (map (mq_data m) queue) (map (mq_data m') q)"
    unfolding recv_begin(1,2) mq_ok_def q by simp_all
  then show ?thesis by blast
next
  case (recv_copy us b sz x vs)
  note S = mq_ok_split [OF assms(2) [unfolded recv_copy(1)], simplified]
  have "mq_ok (m, us @ Recv_release b # vs) free queue" using S(1,3) by (intro mq_ok_join) simp_all
  moreover have "aq_step l (map (mq_data m) queue) (map (mq_data m) queue)"
    unfolding recv_copy(2) using S(2) by (auto simp: mq_read_def)
  ultimately show ?thesis unfolding recv_copy(3,4) by blast
next
  case (recv_release us b vs)
  note S = mq_ok_split [OF assms(2) [unfolded recv_release(1)], simplified]
  have "mq_repr (mq_release b m) (b # free) queue (map task_block (us @ vs))" "mq_data (mq_release b m) = mq_data m"
    using mq_release_ok [OF S(1)] by simp_all
  moreover have "\<forall>t \<in> set (us @ vs). task_ok (mq_release b m) t"
  proof (rule tasks_ok_cong [of _ m])
    fix c assume "c \<in> set (map task_block (us @ vs))"
    then have "c \<noteq> b" using S(4) by auto
    then show "mq_data (mq_release b m) c = mq_data m c \<and> mq_next (mq_release b m) c = mq_next m c"
      using calculation(2) by (simp add: mq_next_other)
  qed (use S(3) in auto)
  ultimately have "mq_ok (m', ts') (b # free) queue" "aq_step l (map (mq_data m) queue) (map (mq_data m') queue)"
    unfolding recv_release(2-4) mq_ok_def by auto
  then show ?thesis by blast
next
  case (reset m1)
  have r: "mq_repr m free queue (map task_block ts)" using assms(2) by (simp add: mq_ok_def)
  then have d: "mq_repr (m\<lparr>mq_entry := of_nat (length queue)\<rparr>) free queue (map task_block ts)" using mq_repr_entry by simp
  have D: "mq_repr (m1\<lparr>mq_entry := 0\<rparr>) (rev queue @ free) [] (map task_block ts)" "mq_data m1 = mq_data m"
    "msg_size m1 = msg_size m" "\<forall>c. c \<notin> set queue \<longrightarrow> mq_next m1 c = mq_next m c"
    using okD [OF mq_drain_ok [OF d]] reset by auto
  have "\<forall>t \<in> set ts. task_ok (m1\<lparr>mq_entry := 0\<rparr>) t"
    by (rule tasks_ok_cong [of _ m]) (use assms(2) D(2-4) mq_reprD(4) [OF r] in \<open>auto simp: mq_ok_def\<close>)
  then have "mq_ok (m', ts') (rev queue @ free) []" "aq_step l (map (mq_data m) queue) (map (mq_data m') [])"
    unfolding reset(1-3) mq_ok_def using D(1) by auto
  then show ?thesis by blast
qed

inductive mq_trace :: "rt_messagequeue \<times> mq_task list \<Rightarrow> mq_label list \<Rightarrow> rt_messagequeue \<times> mq_task list \<Rightarrow> bool" where
  nil: "mq_trace c [] c"
| cons: "mq_step c l c' \<Longrightarrow> mq_trace c' ls c'' \<Longrightarrow> mq_trace c (l # ls) c''"

fun aq_run :: "mq_label list \<Rightarrow> rt_uint8_t list list \<Rightarrow> rt_uint8_t list list \<Rightarrow> bool" where
  "aq_run [] q q' \<longleftrightarrow> q' = q"
| "aq_run (l # ls) q q' \<longleftrightarrow> (\<exists>q1. aq_step l q q1 \<and> aq_run ls q1 q')"

lemma mq_trace_sim:
  assumes "mq_trace c ls c'" "mq_ok c free queue"
  shows "\<exists>free' queue'. mq_ok c' free' queue' \<and> aq_run ls (map (mq_data (fst c)) queue) (map (mq_data (fst c')) queue')"
  using assms
proof (induction arbitrary: free queue rule: mq_trace.induct)
  case (nil c)
  then show ?case by auto
next
  case (cons c l c' ls c'')
  obtain free1 queue1 where q1: "mq_ok c' free1 queue1" "aq_step l (map (mq_data (fst c)) queue) (map (mq_data (fst c')) queue1)"
    using mq_step_sim [of "fst c" "snd c" l "fst c'" "snd c'" free queue] cons.hyps(1) cons.prems
    unfolding prod.collapse by blast
  then show ?case using cons.IH [OF q1(1)] unfolding aq_run.simps by blast
qed

lemma mq_free_init_ok:
  assumes "msg_queue_free m = None"
  shows "mchain (mq_next (mq_free_init n m)) (msg_queue_free (mq_free_init n m)) (rev [0..<n])"
  using assms by (induction n) (simp_all add: Let_def)

lemma mq_free_init_sel [simp]:
  "msg_queue_head (mq_free_init n m) = msg_queue_head m" "msg_queue_tail (mq_free_init n m) = msg_queue_tail m"
  "mq_data (mq_free_init n m) = mq_data m" "msg_size (mq_free_init n m) = msg_size m" "max_msgs (mq_free_init n m) = max_msgs m"
  by (induction n) (simp_all add: Let_def)

lemma length_mq_block:
  assumes "n * (unat sz + 4) \<le> length bytes" "k < n"
  shows "length (mq_block sz bytes k) = unat sz"
proof -
  have "Suc k * (unat sz + 4) \<le> n * (unat sz + 4)" using assms(2) by (intro mult_le_mono1) simp
  then show ?thesis using assms(1) by (simp add: mq_block_def)
qed

lemma new_mq_ok:
  assumes "unat n * (unat sz + 4) \<le> length bytes"
  shows "mq_repr (new_mq addr bytes sz n m) (rev [0..<unat n]) [] []"
  using mq_free_init_ok [of "m\<lparr>mq_pool := addr, msg_size := sz, max_msgs := n, msg_queue_head := None, msg_queue_tail := None,
       msg_queue_free := None, mq_data := mq_block sz bytes\<rparr>" "unat n"] length_mq_block [OF assms]
  by (simp add: mq_repr_def new_mq_def atLeast0LessThan)

section \<open>Whole calls\<close>

fun follow :: "(nat \<Rightarrow> nat option) \<Rightarrow> nat option \<Rightarrow> nat \<Rightarrow> nat list" where
  "follow nx None n = []"
| "follow nx (Some b) 0 = []"
| "follow nx (Some b) (Suc n) = b # follow nx (nx b) n"

text \<open>The queued messages, in order.\<close>

definition mq_list :: "rt_messagequeue \<Rightarrow> rt_uint8_t list list" where
  "mq_list m = map (mq_data m) (follow (mq_next m) (msg_queue_head m) (unat (mq_entry m)))"

lemma follow_mchain: "mchain nx p bs \<Longrightarrow> follow nx p (length bs) = bs"
  by (induction bs arbitrary: p) auto

lemma mq_list_repr: "mq_repr m free queue fly \<Longrightarrow> mq_list m = map (mq_data m) queue"
  using follow_mchain [OF mq_reprD(2)] mq_reprD(6) by (simp add: mq_list_def)

definition mq_inv :: "nat \<Rightarrow> kstate \<Rightarrow> bool" where
  "mq_inv i s \<longleftrightarrow> i \<noteq> RT_NULL \<and> obj_flag (k_object s (Obj_mq i)) \<in> {RT_IPC_FLAG_FIFO, RT_IPC_FLAG_PRIO} \<and>
     (\<exists>free queue. mq_repr (k_mq s i) free queue []) \<and> (\<forall>t \<in> set (k_tlist s (Suspend (Obj_mq i))). error (k_thread s t) = RT_EOK)"

lemma mq_invD:
  assumes "mq_inv i s"
  shows "i \<noteq> RT_NULL" "obj_flag (k_object s (Obj_mq i)) \<in> {RT_IPC_FLAG_FIFO, RT_IPC_FLAG_PRIO}"
    "\<exists>free queue. mq_repr (k_mq s i) free queue []" "t \<in> set (k_tlist s (Suspend (Obj_mq i))) \<Longrightarrow> error (k_thread s t) = RT_EOK"
  using assms by (auto simp: mq_inv_def)

lemma mq_inv_woke:
  assumes "mq_inv i s" "mq_repr (k_mq s' i) free queue []" "k_object s' (Obj_mq i) = k_object s (Obj_mq i)" "woke_first (Suspend (Obj_mq i)) s s'"
  shows "mq_inv i s'"
proof -
  have "set (k_tlist s' (Suspend (Obj_mq i))) \<subseteq> set (k_tlist s (Suspend (Obj_mq i)))"
    using woke_firstD(1) [OF assms(4), of "Suspend (Obj_mq i)"] by (cases "k_tlist s (Suspend (Obj_mq i))") auto
  then show ?thesis using assms(1-3) woke_firstD(2) [OF assms(4)] by (simp add: mq_inv_def) blast
qed

lemma mq_wake_ok:
  assumes "sys s" "mq_inv i s" "mq_repr m free queue []"
  shows "ok (mq_wake i (s\<lparr>k_trace := tr, k_mq := (k_mq s)(i := m)\<rparr>)) (\<lambda>s'. sys s' \<and> mq_inv i s' \<and> k_mq s' i = m \<and> woke_first (Suspend (Obj_mq i)) s s')"
proof -
  let ?s = "s\<lparr>k_trace := tr, k_mq := (k_mq s)(i := m)\<rparr>"
  have S: "sys ?s" using assms(1) by simp
  obtain s' where s': "mq_wake i ?s = Some s'" "sys s'" "kept ?s s'" "woke_first (Suspend (Obj_mq i)) ?s s'"
    using ipc_wake [OF S, of "Suspend (Obj_mq i)"] unfolding mq_wake_def by (auto elim!: okE)
  have w: "woke_first (Suspend (Obj_mq i)) s s'" using s'(4) woke_first_cong [of ?s s] by simp
  have b: "k_mq s' i = m" "k_object s' (Obj_mq i) = k_object s (Obj_mq i)" using keptD(5,14) [OF s'(3)] by simp_all
  show ?thesis using s'(1,2) b w mq_inv_woke [OF assms(2) _ b(2) w, of free queue] assms(3) by (simp add: ok_Some)
qed

text \<open>Both sends are a block taken from the free list, filled, and linked at one end.\<close>

lemma mq_send_block:
  assumes "mq_repr m (b # bs) queue []" "length buffer \<le> unat (msg_size m)" "mq_alloc m = (Some b, m1)"
  shows "mq_repr (mq_link b (mq_fill b buffer (mq_clear_next b m1))) bs (queue @ [b]) []"
    "mq_repr (mq_link_urgent b (mq_fill b buffer m1)) bs (b # queue) []"
    "\<exists>y. mq_list (mq_link b (mq_fill b buffer (mq_clear_next b m1))) = mq_list m @ [buffer @ y] \<and> length (buffer @ y) = unat (msg_size m)"
    "\<exists>y. mq_list (mq_link_urgent b (mq_fill b buffer m1)) = (buffer @ y) # mq_list m \<and> length (buffer @ y) = unat (msg_size m)"
proof -
  have r1: "mq_repr m1 bs queue [b]" using mq_alloc_ok(2) [OF assms(1) refl] assms(3) by auto
  note s = mq_alloc_same [OF assms(3)]
  have l: "length buffer \<le> unat (msg_size m1)" using assms(2) s(3) by simp
  have r2: "mq_repr (mq_clear_next b m1) bs queue [b]" by (rule mq_clear_next_ok [OF r1]) simp
  let ?a = "mq_fill b buffer (mq_clear_next b m1)" and ?c = "mq_fill b buffer m1"
  have ra: "mq_repr ?a bs queue [b]" by (rule mq_fill_ok(1) [OF r2]) (use l in simp_all)
  have rc: "mq_repr ?c bs queue [b]" by (rule mq_fill_ok(1) [OF r1]) (use l in simp_all)
  have n: "mq_next ?a b = None" by (simp add: mq_next_other mq_clear_next_def)
  show R1: "mq_repr (mq_link b ?a) bs (queue @ [b]) []" by (rule mq_link_ok(1) [OF ra n])
  show R2: "mq_repr (mq_link_urgent b ?c) bs (b # queue) []" by (rule mq_link_urgent_ok(1) [OF rc])
  have q: "b \<notin> set queue" using mq_reprD(4) [OF r1] by auto
  have d: "mq_data ?a c = mq_data m c" "mq_data ?c c = mq_data m c" if "c \<noteq> b" for c
    using that s(1) by (simp_all add: mq_fill_def mq_clear_next_def)
  have m: "map (mq_data ?a) queue = map (mq_data m) queue" "map (mq_data ?c) queue = map (mq_data m) queue"
    unfolding map_eq_conv using q d by metis+
  let ?y = "drop (length buffer) (mq_data m1 b)"
  have y: "mq_data ?a b = buffer @ ?y" "mq_data ?c b = buffer @ ?y" by (simp_all add: mq_fill_def mq_clear_next_def)
  have len: "length (buffer @ ?y) = unat (msg_size m)" using mq_reprD(7) [OF r1, of b] l s(3) by simp
  show "\<exists>y. mq_list (mq_link b ?a) = mq_list m @ [buffer @ y] \<and> length (buffer @ y) = unat (msg_size m)"
    using len by (intro exI [of _ ?y]) (simp add: mq_list_repr [OF R1] mq_list_repr [OF assms(1)] mq_link_ok(2) [OF ra n] m(1) y)
  show "\<exists>y. mq_list (mq_link_urgent b ?c) = (buffer @ y) # mq_list m \<and> length (buffer @ y) = unat (msg_size m)"
    using len by (intro exI [of _ ?y]) (simp add: mq_list_repr [OF R2] mq_list_repr [OF assms(1)] mq_link_urgent_ok(2) [OF rc] m(2) y)
qed

text \<open>What a send promises: \<open>put x\<close> is the new contents, for the bytes \<open>x\<close> of the block that holds the message.\<close>

definition mq_sent ::
  "nat \<Rightarrow> rt_uint8_t list \<Rightarrow> (rt_uint8_t list \<Rightarrow> rt_uint8_t list list) \<Rightarrow> kstate \<Rightarrow> rt_err_t \<times> kstate \<Rightarrow> bool" where
  "mq_sent i buffer put s = (\<lambda>(r, s'). sys s' \<and> mq_inv i s' \<and>
     msg_size (k_mq s' i) = msg_size (k_mq s i) \<and> max_msgs (k_mq s' i) = max_msgs (k_mq s i) \<and>
     (if unat (msg_size (k_mq s i)) < length buffer then r = - RT_ERROR \<and> k_mq s' i = k_mq s i
      else if length (mq_list (k_mq s i)) < unat (max_msgs (k_mq s i)) then r = RT_EOK \<and> woke_first (Suspend (Obj_mq i)) s s' \<and>
        (\<exists>y. mq_list (k_mq s' i) = put (buffer @ y) \<and> length (buffer @ y) = unat (msg_size (k_mq s i)))
      else r = - RT_EFULL \<and> k_mq s' i = k_mq s i))"

lemma mq_inv_trace [simp]: "mq_inv i (s\<lparr>k_trace := tr\<rparr>) = mq_inv i s"
  by (simp add: mq_inv_def)

lemma mq_sends:
  assumes inv: "sys s" "mq_inv i s" and b: "buffer \<noteq> []"
  shows "ok (rt_mq_send i buffer s) (mq_sent i buffer (\<lambda>x. mq_list (k_mq s i) @ [x]) s)"
    "ok (rt_mq_urgent i buffer s) (mq_sent i buffer (\<lambda>x. x # mq_list (k_mq s i)) s)"
proof -
  let ?m = "k_mq s i" and ?tr = "Hook_put (Obj_mq i) # k_trace s"
  obtain free queue where r: "mq_repr ?m free queue []" using mq_invD(3) [OF inv(2)] by blast
  have len: "length free + length (mq_list ?m) = unat (max_msgs ?m)" using mq_repr_length [OF r] by (simp add: mq_list_repr [OF r])
  note A = mq_invD(1) [OF inv(2)] b
  consider (long) "unat (msg_size ?m) < length buffer" | (full) "length buffer \<le> unat (msg_size ?m)" "free = []"
    | (room) x xs where "length buffer \<le> unat (msg_size ?m)" "free = x # xs" by (cases free) (force, force)
  then have "ok (rt_mq_send i buffer s) (mq_sent i buffer (\<lambda>x. mq_list (k_mq s i) @ [x]) s) \<and>
    ok (rt_mq_urgent i buffer s) (mq_sent i buffer (\<lambda>x. x # mq_list (k_mq s i)) s)"
  proof cases
    case long
    then show ?thesis using A inv by (simp add: rt_mq_send_def rt_mq_urgent_def ok_Some mq_sent_def)
  next
    case full
    have "mq_alloc ?m = (None, ?m)" using mq_alloc_ok(1) [OF r full(2)] .
    then show ?thesis using A inv full len by (simp add: rt_mq_send_def rt_mq_urgent_def ok_Some mq_sent_def fun_upd_idem)
  next
    case room
    have l: "\<not> unat (msg_size ?m) < length buffer" using room(1) by simp
    obtain m1 where m1: "mq_alloc ?m = (Some x, m1)" using mq_alloc_ok(2) [OF r room(2)] by blast
    note s = mq_alloc_same [OF m1] and B = mq_send_block [OF r [unfolded room(2)] room(1) m1]
    have n: "length (mq_list ?m) < unat (max_msgs ?m)" using len room(2) by simp
    let ?a = "mq_link x (mq_fill x buffer (mq_clear_next x m1))" and ?c = "mq_link_urgent x (mq_fill x buffer m1)"
    have e1: "rt_mq_send i buffer s = do { s \<leftarrow> mq_wake i (s\<lparr>k_trace := ?tr, k_mq := (k_mq s)(i := ?a)\<rparr>); Some (RT_EOK, s) }"
      using A l m1 by (simp add: rt_mq_send_def Let_def)
    have e2: "rt_mq_urgent i buffer s = do { s \<leftarrow> mq_wake i (s\<lparr>k_trace := ?tr, k_mq := (k_mq s)(i := ?c)\<rparr>); Some (RT_EOK, s) }"
      using A l m1 by (simp add: rt_mq_urgent_def Let_def)
    have "ok (rt_mq_send i buffer s) (mq_sent i buffer (\<lambda>x. mq_list (k_mq s i) @ [x]) s)"
      unfolding e1 ok_bind ok_Some
      by (rule ok_mono [OF mq_wake_ok [OF inv B(1)]]) (use l n B(3) s(3,4) in \<open>simp add: mq_sent_def\<close>)
    moreover have "ok (rt_mq_urgent i buffer s) (mq_sent i buffer (\<lambda>x. x # mq_list (k_mq s i)) s)"
      unfolding e2 ok_bind ok_Some
      by (rule ok_mono [OF mq_wake_ok [OF inv B(2)]]) (use l n B(4) s(3,4) in \<open>simp add: mq_sent_def\<close>)
    ultimately show ?thesis by blast
  qed
  then show "ok (rt_mq_send i buffer s) (mq_sent i buffer (\<lambda>x. mq_list (k_mq s i) @ [x]) s)"
    "ok (rt_mq_urgent i buffer s) (mq_sent i buffer (\<lambda>x. x # mq_list (k_mq s i)) s)" by blast+
qed

text \<open>What a receive that finds a message promises.\<close>

lemma mq_recv_some:
  assumes inv: "sys s" "mq_inv i s" and l: "mq_list (k_mq s i) = x # xs"
  shows "ok (mq_recv_loop i t sz timeout s) (\<lambda>(r, v, d, s'). r = Returned RT_EOK \<and> v = Some (take (min (unat sz) (unat (msg_size (k_mq s i)))) x) \<and>
    sys s' \<and> mq_inv i s' \<and> mq_list (k_mq s' i) = xs \<and> msg_size (k_mq s' i) = msg_size (k_mq s i) \<and> max_msgs (k_mq s' i) = max_msgs (k_mq s i))"
proof -
  let ?m = "k_mq s i"
  obtain free queue where r: "mq_repr ?m free queue []" using mq_invD(3) [OF inv(2)] by blast
  then obtain b q where q: "queue = b # q" "mq_data ?m b = x" "map (mq_data ?m) q = xs" using l by (auto simp: mq_list_repr)
  obtain m' where m': "mq_unlink ?m = Some (b, m')" "mq_repr m' free q [b]" "mq_data m' = mq_data ?m" "msg_size m' = msg_size ?m" "max_msgs m' = max_msgs ?m"
    using mq_unlink_ok [OF r [unfolded q(1)]] by blast
  note R = mq_release_ok [OF m'(2)]
  have e: "mq_entry ?m \<noteq> 0" using mq_reprD(6) [OF r] q(1) by auto
  have v: "mq_read b sz m' = take (min (unat sz) (unat (msg_size ?m))) x" by (auto simp: mq_read_def m' q(2) min_def)
  let ?s = "s\<lparr>k_mq := (k_mq s)(i := mq_release b m'), k_trace := Hook_take (Obj_mq i) # k_trace s\<rparr>"
  have "mq_inv i ?s" using inv(2) R(1) by (auto simp: mq_inv_def)
  moreover have "mq_list (mq_release b m') = xs" by (simp add: mq_list_repr [OF R(1)] R(2) m'(3) q(3))
  moreover have "mq_recv_loop i t sz timeout s = Some (Returned RT_EOK, Some (take (min (unat sz) (unat (msg_size ?m))) x), 0, ?s)"
    using e by (simp add: mq_recv_loop_def m'(1) v)
  ultimately show ?thesis using inv(1) m'(4,5) by (simp add: ok_Some)
qed

lemma mq_empty:
  assumes "mq_inv i s"
  shows "mq_entry (k_mq s i) = 0 \<longleftrightarrow> mq_list (k_mq s i) = []"
proof -
  obtain free queue where r: "mq_repr (k_mq s i) free queue []" using mq_invD(3) [OF assms] by blast
  have "mq_entry (k_mq s i) = 0 \<longleftrightarrow> length queue = 0" using mq_reprD(6) [OF r] unat_eq_zero [of "mq_entry (k_mq s i)"] by simp
  then show ?thesis by (simp add: mq_list_repr [OF r])
qed

lemma mq_recv_ok:
  assumes inv: "sys s" "mq_inv i s" and t: "k_current s \<noteq> idle" "k_lock_nest s = 0" "k_interrupt_nest s = 0"
    and time: "timeout \<noteq> 0x7fffffff" and sz: "sz \<noteq> 0"
  shows "ok (rt_mq_recv i sz timeout s) (\<lambda>(r, v, d, s'). sys s' \<and> mq_inv i s' \<and>
    msg_size (k_mq s' i) = msg_size (k_mq s i) \<and> max_msgs (k_mq s' i) = max_msgs (k_mq s i) \<and>
    (case mq_list (k_mq s i) of
       x # xs \<Rightarrow> r = Returned RT_EOK \<and> v = Some (take (min (unat sz) (unat (msg_size (k_mq s i)))) x) \<and> mq_list (k_mq s' i) = xs
     | [] \<Rightarrow> v = None \<and> mq_list (k_mq s' i) = [] \<and>
       (if timeout = 0 then r = Returned (- RT_ETIMEOUT)
        else r = Waiting \<and> waits_at (Suspend (Obj_mq i)) (obj_flag (k_object s (Obj_mq i))) s s')))"
proof -
  let ?m = "k_mq s i" and ?t = "k_current s" and ?h = "Suspend (Obj_mq i)"
  let ?s = "s\<lparr>k_trace := Hook_trytake (Obj_mq i) # k_trace s\<rparr>"
  have I: "sys ?s" "mq_inv i ?s" using inv by simp_all
  note e = mq_empty [OF inv(2)] and f = mq_invD(2) [OF inv(2)]
  consider (some) x xs where "mq_list ?m = x # xs" | (empty) "mq_list ?m = []" "timeout = 0" | (wait) "mq_list ?m = []" "timeout \<noteq> 0"
    by (cases "mq_list ?m") auto
  then show ?thesis
  proof cases
    case some
    have l: "mq_list (k_mq ?s i) = x # xs" using some by simp
    obtain d s' where s': "mq_recv_loop i ?t sz timeout ?s = Some (Returned RT_EOK, Some (take (min (unat sz) (unat (msg_size ?m))) x), d, s')"
      "sys s'" "mq_inv i s'" "mq_list (k_mq s' i) = xs" "msg_size (k_mq s' i) = msg_size ?m" "max_msgs (k_mq s' i) = max_msgs ?m"
      using mq_recv_some [OF I l, of ?t sz timeout] by (auto elim!: okE)
    show ?thesis
      using s' some e mq_invD(1) [OF inv(2)] sz by (simp add: rt_mq_recv_def rt_thread_self_def ok_Some)
  next
    case empty
    then show ?thesis using inv e mq_invD(1) [OF inv(2)] sz by (simp add: rt_mq_recv_def ok_Some)
  next
    case wait
    have f': "obj_flag (k_object s (Obj_mq i)) \<in> {RT_IPC_FLAG_FIFO, RT_IPC_FLAG_PRIO}" using f .
    obtain s' where s': "do { s \<leftarrow> ipc_wait ?h ?t (obj_flag (k_object s (Obj_mq i))) timeout
        (?s\<lparr>k_thread := (k_thread ?s)(?t := (k_thread ?s ?t)\<lparr>error := RT_EOK\<rparr>)\<rparr>); rt_schedule s } = Some s'"
      "sys s'" "kept ?s s'" "waits_at ?h (obj_flag (k_object s (Obj_mq i))) ?s s'"
      "k_thread s' = (k_thread s)(?t := (k_thread s ?t)\<lparr>error := RT_EOK, stat := RT_THREAD_SUSPEND\<rparr>)"
      "k_tlist s' ?h = wait_insert (obj_flag (k_object s (Obj_mq i))) (\<lambda>x. current_priority (k_thread s x)) ?t (k_tlist s ?h)"
      using ipc_waits [OF I(1) _ t(1) _ _ f' time, of ?h] t(2) by (auto elim!: okE)
    have eq: "rt_mq_recv i sz timeout s = Some (Waiting, None, (if 0 <s timeout then k_tick s else 0), s')"
      using wait e mq_invD(1) [OF inv(2)] s'(1) t(3) sysD(6) [OF inv(1)] sz
      by (simp add: rt_mq_recv_def mq_recv_loop_def rt_thread_self_def RT_DEBUG_IN_THREAD_CONTEXT_def
        RT_DEBUG_NOT_IN_INTERRUPT_def Let_def rt_tick_get_def split: Option.bind_split_asm)
    have "mq_inv i s'"
      using mq_invD [OF inv(2)] set_wait_insert [OF f] by (simp add: mq_inv_def s'(5,6) keptD(5,14) [OF s'(3)])
    moreover have "waits_at ?h (obj_flag (k_object s (Obj_mq i))) s s'" using s'(4) by (simp add: waits_at_def)
    ultimately show ?thesis using wait s'(2) by (simp add: eq ok_Some keptD(5) [OF s'(3)])
  qed
qed

text \<open>Calls that do not wait, for messages of the full size \<open>n\<close>.\<close>

definition mq_send_now :: "nat \<Rightarrow> rt_uint8_t list \<Rightarrow> kstate \<Rightarrow> kstate option" where
  "mq_send_now i x s = do { (r, s) \<leftarrow> rt_mq_send i x s; if r = RT_EOK then Some s else None }"

definition mq_recv_now :: "nat \<Rightarrow> rt_uint32_t \<Rightarrow> kstate \<Rightarrow> (rt_uint8_t list \<times> kstate) option" where
  "mq_recv_now i sz s = do { (r, v, _, s) \<leftarrow> rt_mq_recv i sz 0 s; map_option (\<lambda>v. (v, s)) v }"

definition mq_good :: "nat \<Rightarrow> rt_uint16_t \<Rightarrow> kstate \<Rightarrow> bool" where
  "mq_good i n s \<longleftrightarrow> sys s \<and> mq_inv i s \<and> msg_size (k_mq s i) = n \<and> 0 < n"

lemma mq_list_length:
  assumes "mq_inv i s"
  shows "length (mq_list (k_mq s i)) \<le> unat (max_msgs (k_mq s i))" "x \<in> set (mq_list (k_mq s i)) \<Longrightarrow> length x = unat (msg_size (k_mq s i))"
proof -
  obtain free queue where r: "mq_repr (k_mq s i) free queue []" using mq_invD(3) [OF assms] by blast
  show "length (mq_list (k_mq s i)) \<le> unat (max_msgs (k_mq s i))" using mq_repr_length [OF r] by (simp add: mq_list_repr [OF r])
  show "x \<in> set (mq_list (k_mq s i)) \<Longrightarrow> length x = unat (msg_size (k_mq s i))"
    using mq_reprD(7) [OF r] by (auto simp: mq_list_repr [OF r])
qed

interpretation mqq: bounded_fifo "mq_send_now i" "mq_recv_now i (ucast n)" "mq_good i n" "\<lambda>s. mq_list (k_mq s i)"
  "\<lambda>s. unat (max_msgs (k_mq s i))" "\<lambda>x. length x = unat n" for i n
proof
  show "ok (mq_send_now i x s) (\<lambda>s'. mq_good i n s' \<and> mq_list (k_mq s' i) = mq_list (k_mq s i) @ [x] \<and>
      unat (max_msgs (k_mq s' i)) = unat (max_msgs (k_mq s i)))"
    if g: "mq_good i n s" and x: "length x = unat n" and l: "length (mq_list (k_mq s i)) < unat (max_msgs (k_mq s i))" for s x
  proof -
    have b: "x \<noteq> []" using g x unat_eq_zero [of n] by (auto simp: mq_good_def)
    obtain r s' where s': "rt_mq_send i x s = Some (r, s')" "mq_sent i x (\<lambda>x. mq_list (k_mq s i) @ [x]) s (r, s')"
      using mq_sends(1) [of s i, OF _ _ b] g unfolding mq_good_def by (elim conjE) (auto elim!: okE)
    then show ?thesis using g x l by (auto simp: mq_send_now_def mq_sent_def mq_good_def ok_Some)
  qed
  show "ok (mq_recv_now i (ucast n) s) (\<lambda>(y, s'). y = x \<and> mq_good i n s' \<and> mq_list (k_mq s' i) = xs \<and>
      unat (max_msgs (k_mq s' i)) = unat (max_msgs (k_mq s i)))"
    if g: "mq_good i n s" and l: "mq_list (k_mq s i) = x # xs" for s x xs
  proof -
    let ?s = "s\<lparr>k_trace := Hook_trytake (Obj_mq i) # k_trace s\<rparr>"
    have i: "sys ?s" "mq_inv i ?s" "mq_list (k_mq ?s i) = x # xs" using g l by (simp_all add: mq_good_def)
    have u: "unat (ucast n :: rt_uint32_t) = unat n"
      using unsigned_less [of n, where 'a = nat] by (simp add: unsigned_ucast_eq take_bit_nat_eq_self)
    have nz: "(ucast n :: rt_uint32_t) \<noteq> 0" using g u by (metis mq_good_def unat_0 unat_gt_0 less_irrefl word_gt_0)
    have len: "length x = unat n" using mq_list_length(2) [of i s x] g l by (simp add: mq_good_def)
    obtain d s' where s': "mq_recv_loop i (k_current s) (ucast n) 0 ?s = Some (Returned RT_EOK, Some x, d, s')" "sys s'" "mq_inv i s'"
      "mq_list (k_mq s' i) = xs" "msg_size (k_mq s' i) = msg_size (k_mq s i)" "max_msgs (k_mq s' i) = max_msgs (k_mq s i)"
      using mq_recv_some [OF i, of "k_current s" "ucast n" 0] g len u by (auto simp: mq_good_def elim!: okE)
    have "mq_entry (k_mq s i) \<noteq> 0" using l mq_empty [of i s] g by (simp add: mq_good_def)
    then show ?thesis
      using g nz s' mq_invD(1) [OF i(2)] by (simp add: mq_recv_now_def rt_mq_recv_def rt_thread_self_def ok_Some mq_good_def)
  qed
  show "length (mq_list (k_mq s i)) \<le> unat (max_msgs (k_mq s i))" if "mq_good i n s" for s
    using that mq_list_length(1) by (simp add: mq_good_def)
qed

interpretation mq: ipc_class Obj_mq rt_mq_detach rt_mq_delete "\<lambda>i s. [Heap_free (mq_pool (k_mq s i))]"
  by unfold_locales (simp_all add: rt_mq_detach_def rt_mq_delete_def)

section \<open>Properties\<close>

text \<open>
  C4. However the critical sections of any number of concurrent sends, urgent sends, receives and resets are interleaved, the blocks of a
  message queue are neither lost nor shared: each is in the free list, in the queue, or held by exactly one call. A receive that sees a message
  never reads through a null pointer, and the queue behaves like an abstract one: messages are appended or put in front at the moment they are
  linked, taken from the front, and delivered as they were when they were taken.
\<close>

theorem rt_mq_interleaving:
  assumes "mq_trace (new_mq addr bytes sz n m0, []) ls (m, ts)" "unat n * (unat sz + 4) \<le> length bytes"
  shows "\<exists>free queue. mq_repr m free queue (map task_block ts) \<and> (mq_entry m \<noteq> 0 \<longrightarrow> mq_unlink m \<noteq> None) \<and>
    aq_run ls [] (map (mq_data m) queue)"
proof -
  have "mq_ok (new_mq addr bytes sz n m0, []) (rev [0..<unat n]) []" using new_mq_ok [OF assms(2)] by (simp add: mq_ok_def)
  from mq_trace_sim [OF assms(1) this] obtain free queue where
    q: "mq_repr m free queue (map task_block ts)" "aq_run ls [] (map (mq_data m) queue)" by (auto simp: mq_ok_def)
  moreover have "mq_unlink m \<noteq> None" if e: "mq_entry m \<noteq> 0"
  proof -
    obtain b bs where "queue = b # bs" using mq_reprD(6) [OF q(1)] e unat_eq_zero [of "mq_entry m"] by (cases queue) auto
    then show ?thesis using mq_unlink_ok [of m free b bs] q(1) by blast
  qed
  ultimately show ?thesis by blast
qed

text \<open>
  C18. A message queue is a bounded first-in-first-out queue of messages: every sequence of non-blocking sends and receives of full-size messages that
  never sends to a full queue nor receives from an empty one succeeds, and delivers the messages unchanged and in order.
\<close>

theorem rt_mq_fifo:
  assumes "mq_good i n s" "fits (unat (max_msgs (k_mq s i))) (length (mq_list (k_mq s i))) ops" "\<forall>x \<in> set (puts ops). length x = unat n"
  shows "ok (fifo_run (mq_send_now i) (mq_recv_now i (ucast n)) ops s)
    (\<lambda>(out, s'). mq_good i n s' \<and> out @ mq_list (k_mq s' i) = mq_list (k_mq s i) @ puts ops)"
  by (rule ok_mono [OF mqq.run_ok [OF assms]]) auto

text \<open>
  C19. The calls of a message queue on every branch. A message that is too long is refused, a full queue makes both sends fail without waiting;
  otherwise the message is put behind, or for an urgent one before, the queued ones, and the first waiting receiver becomes ready. A receiver gets
  the first message, cut to its buffer, or fails or waits when there is none.
\<close>

theorem rt_mq_send_recv_correct:
  assumes "sys s" "mq_inv i s" "buffer \<noteq> []" "k_current s \<noteq> idle" "k_lock_nest s = 0" "k_interrupt_nest s = 0" "timeout \<noteq> 0x7fffffff" "sz \<noteq> 0"
  shows "ok (rt_mq_send i buffer s) (mq_sent i buffer (\<lambda>x. mq_list (k_mq s i) @ [x]) s) \<and>
    ok (rt_mq_urgent i buffer s) (mq_sent i buffer (\<lambda>x. x # mq_list (k_mq s i)) s) \<and>
    ok (rt_mq_recv i sz timeout s) (\<lambda>(r, v, d, s'). sys s' \<and> mq_inv i s' \<and>
      msg_size (k_mq s' i) = msg_size (k_mq s i) \<and> max_msgs (k_mq s' i) = max_msgs (k_mq s i) \<and>
      (case mq_list (k_mq s i) of
         x # xs \<Rightarrow> r = Returned RT_EOK \<and> v = Some (take (min (unat sz) (unat (msg_size (k_mq s i)))) x) \<and> mq_list (k_mq s' i) = xs
       | [] \<Rightarrow> v = None \<and> mq_list (k_mq s' i) = [] \<and>
         (if timeout = 0 then r = Returned (- RT_ETIMEOUT)
          else r = Waiting \<and> waits_at (Suspend (Obj_mq i)) (obj_flag (k_object s (Obj_mq i))) s s')))"
  using mq_sends [OF assms(1-3)] mq_recv_ok [OF assms(1,2,4-8)] by blast

text \<open>An example: message queue 2 of \<open>demo\<close>, with two blocks of four bytes.\<close>

definition demo_mq :: kstate where
  "demo_mq = demo\<lparr>k_mq := (k_mq demo)(2 := new_mq 64 (replicate 16 0) 4 2 (k_mq demo 2))\<rparr>"

lemma demo_mq_repr: "mq_repr (new_mq 64 (replicate 16 0) 4 2 m) (rev [0..<2]) [] []"
  using new_mq_ok [of 2 4 "replicate 16 0" 64 m] by simp

lemma demo_mq_inv: "sys demo_mq" "mq_inv 2 demo_mq" "mq_list (k_mq demo_mq 2) = []" "msg_size (k_mq demo_mq 2) = 4" "max_msgs (k_mq demo_mq 2) = 2"
  using mq_list_repr [OF demo_mq_repr] demo_mq_repr [of "k_mq demo 2"]
  by (auto simp: demo_mq_def demo_sys mq_inv_def new_mq_def)

theorem rt_mq_interleaving_witness:
  "\<exists>ls m free queue. ls = [Internal, Internal, Internal, Prepend [7], Internal, Append [8, 9]] \<and> mq_repr m free queue [] \<and>
    (mq_entry m \<noteq> 0 \<longrightarrow> mq_unlink m \<noteq> None) \<and> aq_run ls [] (map (mq_data m) queue)"
proof -
  let ?m0 = "new_mq 64 (replicate 16 0) 4 2 (k_mq k_reset 1)" and ?ls = "[Internal, Internal, Internal, Prepend [7], Internal, Append [8, 9]]"
  have u: "unat (2 :: rt_uint16_t) = Suc (Suc 0)" by simp
  have f: "msg_queue_free ?m0 = Some 1" "mq_next ?m0 1 = Some 0" "msg_size ?m0 = 4"
    unfolding new_mq_def u by (simp_all add: Let_def)
  let ?m1 = "?m0\<lparr>msg_queue_free := Some 0\<rparr>" and ?m2 = "?m0\<lparr>msg_queue_free := mq_next ?m0 0\<rparr>"
  have a: "mq_alloc ?m0 = (Some 1, ?m1)" "mq_alloc ?m1 = (Some 0, ?m2)" using f(1,2) by (simp_all add: mq_alloc_def)
  have 1: "mq_step (?m0, []) Internal (?m1, [Send_fill 1 [8, 9]])" by (rule send_begin) (use a f in simp_all)
  have 2: "mq_step (?m1, [Send_fill 1 [8, 9]]) Internal (?m2, [Urgent_fill 0 [7], Send_fill 1 [8, 9]])"
    by (rule urgent_begin) (use a f in simp_all)
  note 3 = urgent_fill [of ?m2 "[]" 0 "[7]" "[Send_fill 1 [8, 9]]"]
  note 4 = urgent_link [of "mq_fill 0 [7] ?m2" "[]" 0 "[7]" "[Send_fill 1 [8, 9]]"]
  let ?m4 = "mq_link_urgent 0 (mq_fill 0 [7] ?m2)"
  note 5 = send_fill [of ?m4 "[]" 1 "[8, 9]" "[]"] and 6 = send_link [of "mq_fill 1 [8, 9] (mq_clear_next 1 ?m4)" "[]" 1 "[8, 9]" "[]"]
  let ?m6 = "mq_link 1 (mq_fill 1 [8, 9] (mq_clear_next 1 ?m4))"
  have "mq_trace (?m0, []) ?ls (?m6, [])"
    using 1 2 3 4 5 6 by (auto intro!: mq_trace.intros simp del: One_nat_def)
  from rt_mq_interleaving [OF this] obtain free queue where
    "mq_repr ?m6 free queue []" "mq_entry ?m6 \<noteq> 0 \<longrightarrow> mq_unlink ?m6 \<noteq> None" "aq_run ?ls [] (map (mq_data ?m6) queue)"
    by (auto simp del: aq_run.simps)
  then show ?thesis by blast
qed

theorem rt_mq_fifo_witness:
  "ok (fifo_run (mq_send_now 2) (mq_recv_now 2 (ucast (4 :: rt_uint16_t))) [Put [1, 2, 3, 4], Put [5, 6, 7, 8], Get, Put [9, 9, 9, 9]] demo_mq)
    (\<lambda>(out, s'). mq_good 2 4 s' \<and> out @ mq_list (k_mq s' 2) = [[1, 2, 3, 4], [5, 6, 7, 8], [9, 9, 9, 9]])"
  using rt_mq_fifo [of 2 4 demo_mq "[Put [1, 2, 3, 4], Put [5, 6, 7, 8], Get, Put [9, 9, 9, 9]]"] demo_mq_inv by (simp add: mq_good_def)

theorem rt_mq_send_recv_correct_witness:
  "ok (rt_mq_send 2 [1] demo_mq) (mq_sent 2 [1] (\<lambda>x. [] @ [x]) demo_mq) \<and>
   ok (rt_mq_urgent 2 [1] demo_mq) (mq_sent 2 [1] (\<lambda>x. [x]) demo_mq) \<and>
   ok (rt_mq_recv 2 4 0 demo_mq) (\<lambda>(r, v, d, s'). sys s' \<and> mq_inv 2 s' \<and> r = Returned (- RT_ETIMEOUT))"
proof -
  have c: "k_current demo_mq \<noteq> idle" "k_lock_nest demo_mq = 0" "k_interrupt_nest demo_mq = 0" by (simp_all add: demo_mq_def idle_def)
  show ?thesis
    using rt_mq_send_recv_correct [OF demo_mq_inv(1,2) _ c, of "[1]" 0 4] unfolding demo_mq_inv(3) by (auto elim!: ok_mono)
qed

end
