(* ===== verification/Allocator.thy ===== *)
theory Allocator
  imports Prelude
begin

text \<open>
  Memory allocators: what the memory pools and the heap promise to their clients. \<open>live\<close> are the extents that are handed out, each an
  address and a length. A client keeps the pointers it got and frees only those; the locale shows that every such client is safe.
\<close>

definition extent :: "nat \<times> nat \<Rightarrow> nat set" where
  "extent x = {fst x..<fst x + snd x}"

text \<open>A request for memory, or the release of one of the pointers the client holds, by its position.\<close>

datatype 'r client_op = Request 'r | Release nat

fun client_run :: "('r \<Rightarrow> 's \<Rightarrow> (nat \<times> 's) option) \<Rightarrow> (nat \<Rightarrow> 's \<Rightarrow> 's option) \<Rightarrow> 'r client_op list \<Rightarrow> nat list \<times> 's \<Rightarrow> (nat list \<times> 's) option" where
  "client_run alloc free [] (ps, s) = Some (ps, s)"
| "client_run alloc free (Request r # ops) (ps, s) = do {
     (p, s) \<leftarrow> alloc r s;
     client_run alloc free ops (if p = RT_NULL then ps else p # ps, s)
   }"
| "client_run alloc free (Release k # ops) (ps, s) =
     (if k < length ps then do {
        s \<leftarrow> free (ps ! k) s;
        client_run alloc free ops (take k ps @ drop (Suc k) ps, s)
      } else client_run alloc free ops (ps, s))"

locale allocator =
  fixes alloc :: "'r \<Rightarrow> 's \<Rightarrow> (nat \<times> 's) option" and free :: "nat \<Rightarrow> 's \<Rightarrow> 's option"
    and good :: "'s \<Rightarrow> bool" and live :: "'s \<Rightarrow> (nat \<times> nat) set" and wanted :: "'r \<Rightarrow> 's \<Rightarrow> nat"
  assumes disjoint: "good s \<Longrightarrow> x \<in> live s \<Longrightarrow> y \<in> live s \<Longrightarrow> x \<noteq> y \<Longrightarrow> extent x \<inter> extent y = {}"
    and unique: "good s \<Longrightarrow> (p, n) \<in> live s \<Longrightarrow> (p, m) \<in> live s \<Longrightarrow> n = m"
    and alloc_ok: "good s \<Longrightarrow> ok (alloc r s) (\<lambda>(p, s'). good s' \<and>
      (if p = RT_NULL then live s' = live s
       else \<exists>n \<ge> wanted r s. p \<notin> fst ` live s \<and> live s' = insert (p, n) (live s)))"
    and free_ok: "good s \<Longrightarrow> (p, n) \<in> live s \<Longrightarrow> ok (free p s) (\<lambda>s'. good s' \<and> live s' = live s - {(p, n)})"
begin

text \<open>A new extent overlaps no live one.\<close>

lemma alloc_fresh:
  assumes "good s" "alloc r s = Some (p, s')" "p \<noteq> RT_NULL"
  shows "\<exists>n \<ge> wanted r s. (p, n) \<in> live s' \<and> (\<forall>x \<in> live s. extent (p, n) \<inter> extent x = {})"
proof -
  have g: "good s'" "\<exists>n \<ge> wanted r s. p \<notin> fst ` live s \<and> live s' = insert (p, n) (live s)"
    using okD [OF alloc_ok [OF assms(1)] assms(2)] assms(3) by simp_all
  then obtain n where n: "wanted r s \<le> n" "p \<notin> fst ` live s" "live s' = insert (p, n) (live s)" by blast
  have "extent (p, n) \<inter> extent x = {}" if "x \<in> live s" for x
    using disjoint [OF g(1), of "(p, n)" x] n(2,3) that by force
  then show ?thesis using n(1,3) by blast
qed

text \<open>Every client runs without getting stuck, and holds exactly the live pointers, each once.\<close>

lemma client_ok:
  assumes "good s" "distinct ps" "fst ` live s = set ps"
  shows "ok (client_run alloc free ops (ps, s)) (\<lambda>(ps', s'). good s' \<and> distinct ps' \<and> fst ` live s' = set ps')"
  using assms
proof (induction ops arbitrary: ps s)
  case Nil
  then show ?case by (simp add: ok_Some)
next
  case (Cons a ops)
  show ?case
  proof (cases a)
    case (Request r)
    obtain p s1 where s1: "alloc r s = Some (p, s1)" "good s1"
      "if p = RT_NULL then live s1 = live s else \<exists>n \<ge> wanted r s. p \<notin> fst ` live s \<and> live s1 = insert (p, n) (live s)"
      using alloc_ok [OF Cons.prems(1), of r] by (auto elim!: okE)
    have l: "p \<notin> fst ` live s \<and> fst ` live s1 = insert p (fst ` live s)" if "p \<noteq> RT_NULL" using s1(3) that by auto
    have "distinct (if p = RT_NULL then ps else p # ps)" "fst ` live s1 = set (if p = RT_NULL then ps else p # ps)"
      using s1(3) l unfolding Cons.prems(3) by (cases "p = RT_NULL"; simp add: Cons.prems(2,3))+
    from Cons.IH [OF s1(2) this] show ?thesis by (simp add: Request s1(1))
  next
    case (Release k)
    show ?thesis
    proof (cases "k < length ps")
      case True
      define xs y zs where d: "xs = take k ps" "y = ps ! k" "zs = drop (Suc k) ps"
      have ps: "ps = xs @ y # zs" unfolding d by (rule id_take_nth_drop [OF True])
      have D: "distinct (xs @ zs)" "y \<notin> set (xs @ zs)" "set ps = insert y (set (xs @ zs))" using Cons.prems(2) unfolding ps by auto
      obtain n where n: "(y, n) \<in> live s" using Cons.prems(3) D(3) by force
      obtain s1 where s1: "free y s = Some s1" "good s1" "live s1 = live s - {(y, n)}"
        using free_ok [OF Cons.prems(1) n] by (auto elim!: okE)
      have "x = (y, n)" if "x \<in> live s" "fst x = y" for x using unique [OF Cons.prems(1) n, of "snd x"] that by (cases x) auto
      then have "fst ` live s1 = fst ` live s - {y}" unfolding s1(3) by force
      also have "\<dots> = set (xs @ zs)" unfolding Cons.prems(3) D(3) using D(2) by auto
      finally show ?thesis
        using Cons.IH [OF s1(2) D(1)] s1(1) unfolding d by (simp add: Release True)
    next
      case False
      then show ?thesis using Cons.IH [OF Cons.prems] by (simp add: Release)
    qed
  qed
qed

end

end
