(* ===== verification/Mempool.thy ===== *)
theory Mempool
  imports Ipc Allocator
begin

text \<open>
  Memory pools, \<^verbatim>\<open>src/mempool.c\<close>: blocks of one size. Each block has a header word in front, which links the free blocks
  and holds the pool's address in the others. Threads can wait for a block.
\<close>

section \<open>Operations\<close>

abbreviation upd_mp :: "nat \<Rightarrow> (rt_mempool \<Rightarrow> rt_mempool) \<Rightarrow> kstate \<Rightarrow> kstate" where
  "upd_mp i f s \<equiv> s\<lparr>k_mp := (k_mp s)(i := f (k_mp s i))\<rparr>"

abbreviation set_word :: "nat \<Rightarrow> nat \<Rightarrow> kstate \<Rightarrow> kstate" where
  "set_word a v s \<equiv> s\<lparr>k_word := (k_word s)(a := v)\<rparr>"

text \<open>The distance of two blocks: the block and its header.\<close>

definition mp_stride :: "rt_mempool \<Rightarrow> rt_uint32_t" where
  "mp_stride m = block_size m + 4"

text \<open>
  The loop that links the blocks, and the store that ends the list. With no block at all the store goes to the word before the
  pool: there the program has no defined behaviour.
\<close>

primrec mp_link_blocks :: "nat \<Rightarrow> rt_uint32_t \<Rightarrow> nat \<Rightarrow> (nat \<Rightarrow> nat) \<Rightarrow> nat \<Rightarrow> nat" where
  "mp_link_blocks start d 0 w = w"
| "mp_link_blocks start d (Suc n) w =
     (mp_link_blocks start d n w)(start + unat (of_nat n * d) := start + unat (of_nat (Suc n) * d))"

definition mp_init_blocks :: "nat \<Rightarrow> rt_uint32_t \<Rightarrow> nat \<Rightarrow> (nat \<Rightarrow> nat) \<Rightarrow> (nat \<Rightarrow> nat) option" where
  "mp_init_blocks start d n w =
     (if n = 0 then None else Some ((mp_link_blocks start d n w)(start + unat (of_nat (n - 1) * d) := RT_NULL)))"

definition rt_mp_init :: "nat \<Rightarrow> cstr \<Rightarrow> nat \<Rightarrow> rt_uint32_t \<Rightarrow> rt_uint32_t \<Rightarrow> kstate \<Rightarrow> kstate option" where
  "rt_mp_init i name start sz bsize s = do {
     RT_ASSERT (i \<noteq> RT_NULL);
     let s = rt_object_init (Obj_mp i) RT_Object_Class_MemPool name s;
     let sz = RT_ALIGN_DOWN sz 4;
     let bsize = RT_ALIGN bsize 4;
     let total = sz div (bsize + 4);
     let s = upd_mp i (\<lambda>m. m\<lparr>start_address := start, mp_size := sz, block_size := bsize,
       block_total_count := total, block_free_count := total\<rparr>) s;
     let s = s\<lparr>k_tlist := qs_init (Suspend (Obj_mp i)) (k_tlist s)\<rparr>;
     let s = upd_mp i (suspend_thread_count_update (\<lambda>_. 0)) s;
     w \<leftarrow> mp_init_blocks start (mp_stride (k_mp s i)) (unat total) (k_word s);
     let s = s\<lparr>k_word := w\<rparr>;
     Some (upd_mp i (block_list_update (\<lambda>_. start)) s)
   }"

text \<open>The loop of \<^verbatim>\<open>rt_mp_detach\<close> and \<^verbatim>\<open>rt_mp_delete\<close> that wakes the waiting threads.\<close>

partial_function (option) mp_wake_all :: "nat \<Rightarrow> kstate \<Rightarrow> kstate option" where
  "mp_wake_all i s =
     (case k_tlist s (Suspend (Obj_mp i)) of
        [] \<Rightarrow> Some s
      | t # _ \<Rightarrow> do {
          let s = upd_thread t (error_update (\<lambda>_. - RT_ERROR)) s;
          (_, s) \<leftarrow> rt_thread_resume t s;
          mp_wake_all i (upd_mp i (suspend_thread_count_update (\<lambda>n. n - 1)) s)
        })"

definition rt_mp_detach :: "nat \<Rightarrow> kstate \<Rightarrow> kstate option" where
  "rt_mp_detach i s = do {
     RT_ASSERT (i \<noteq> RT_NULL);
     s \<leftarrow> mp_wake_all i s;
     Some (rt_object_detach (Obj_mp i) s)
   }"

definition rt_mp_create :: "nat option \<Rightarrow> nat \<Rightarrow> cstr \<Rightarrow> rt_uint32_t \<Rightarrow> rt_uint32_t \<Rightarrow> kstate \<Rightarrow> (nat option \<times> kstate) option" where
  "rt_mp_create mem start name count bsize s = do {
     RT_DEBUG_NOT_IN_INTERRUPT s;
     (_, s) \<leftarrow> rt_object_allocate (map_option Obj_mp mem) RT_Object_Class_MemPool name s;
     case mem of
       None \<Rightarrow> Some (None, s)
     | Some i \<Rightarrow> do {
         let bsize = RT_ALIGN bsize 4;
         let s = upd_mp i (\<lambda>m. m\<lparr>block_size := bsize, mp_size := (bsize + 4) * count, start_address := start\<rparr>) s;
         if start = RT_NULL then do {
           s \<leftarrow> rt_object_delete (Obj_mp i) s;
           Some (None, s)
         } else do {
           let s = upd_mp i (\<lambda>m. m\<lparr>block_total_count := count, block_free_count := count\<rparr>) s;
           let s = s\<lparr>k_tlist := qs_init (Suspend (Obj_mp i)) (k_tlist s)\<rparr>;
           let s = upd_mp i (suspend_thread_count_update (\<lambda>_. 0)) s;
           w \<leftarrow> mp_init_blocks start (mp_stride (k_mp s i)) (unat count) (k_word s);
           let s = s\<lparr>k_word := w\<rparr>;
           Some (Some i, upd_mp i (block_list_update (\<lambda>_. start)) s)
         }
       }
   }"

definition rt_mp_delete :: "nat \<Rightarrow> kstate \<Rightarrow> kstate option" where
  "rt_mp_delete i s = do {
     RT_DEBUG_NOT_IN_INTERRUPT s;
     RT_ASSERT (i \<noteq> RT_NULL);
     s \<leftarrow> mp_wake_all i s;
     let s = emit (Heap_free (start_address (k_mp s i))) s;
     rt_object_delete (Obj_mp i) s
   }"

text \<open>The result of \<^verbatim>\<open>rt_mp_alloc\<close>: a pointer, or the thread sleeps, since the given tick, and continues with the next pass of the loop.\<close>

datatype mp_outcome = Block nat | Sleeping rt_tick_t

definition mp_alloc_loop :: "nat \<Rightarrow> tid \<Rightarrow> rt_int32_t \<Rightarrow> kstate \<Rightarrow> (mp_outcome \<times> kstate) option" where
  "mp_alloc_loop i t time s =
     (if block_free_count (k_mp s i) = 0 then
        if time = 0 then Some (Block RT_NULL, rt_set_errno (- RT_ETIMEOUT) s)
        else do {
          RT_DEBUG_NOT_IN_INTERRUPT s;
          let s = upd_thread t (error_update (\<lambda>_. RT_EOK)) s;
          s \<leftarrow> list_suspend (Suspend (Obj_mp i)) t (Cons t) s;
          let s = upd_mp i (suspend_thread_count_update (\<lambda>n. n + 1)) s;
          let before_sleep = (if 0 <s time then rt_tick_get s else 0);
          s \<leftarrow> arm_thread t time s;
          s \<leftarrow> rt_schedule s;
          Some (Sleeping before_sleep, s)
        }
      else do {
        let s = upd_mp i (block_free_count_update (\<lambda>n. n - 1)) s;
        let block_ptr = block_list (k_mp s i);
        RT_ASSERT (block_ptr \<noteq> RT_NULL);
        let s = upd_mp i (block_list_update (\<lambda>_. k_word s block_ptr)) s;
        let s = set_word block_ptr i s;
        Some (Block (block_ptr + 4), emit (Hook_mp_alloc i (block_ptr + 4)) s)
      })"

definition rt_mp_alloc :: "nat \<Rightarrow> rt_int32_t \<Rightarrow> kstate \<Rightarrow> (mp_outcome \<times> kstate) option" where
  "rt_mp_alloc i time s = mp_alloc_loop i (rt_thread_self s) time s"

definition rt_mp_alloc_resume :: "nat \<Rightarrow> tid \<Rightarrow> rt_int32_t \<Rightarrow> rt_tick_t \<Rightarrow> kstate \<Rightarrow> (mp_outcome \<times> kstate) option" where
  "rt_mp_alloc_resume i t time before_sleep s =
     (if error (k_thread s t) \<noteq> RT_EOK then Some (Block RT_NULL, s)
      else mp_alloc_loop i t (time_left time before_sleep (rt_tick_get s)) s)"

text \<open>
  Freeing finds the pool in the header of the block. The first entry of an empty list is no thread: reading one is undefined.
\<close>

definition rt_mp_free :: "nat \<Rightarrow> kstate \<Rightarrow> kstate option" where
  "rt_mp_free block s =
     (let block_ptr = block - 4;
          i = k_word s block_ptr;
          s = emit (Hook_mp_free i block) s;
          s = upd_mp i (block_free_count_update (\<lambda>n. n + 1)) s;
          s = set_word block_ptr (block_list (k_mp s i)) s;
          s = upd_mp i (block_list_update (\<lambda>_. block_ptr)) s
      in if 0 < suspend_thread_count (k_mp s i) then
           (case k_tlist s (Suspend (Obj_mp i)) of
              [] \<Rightarrow> None
            | t # _ \<Rightarrow> do {
                let s = upd_thread t (error_update (\<lambda>_. RT_EOK)) s;
                (_, s) \<leftarrow> rt_thread_resume t s;
                rt_schedule (upd_mp i (suspend_thread_count_update (\<lambda>n. n - 1)) s)
              })
         else Some s)"

section \<open>The free list\<close>

primrec wchain :: "(nat \<Rightarrow> nat) \<Rightarrow> nat \<Rightarrow> nat list \<Rightarrow> bool" where
  "wchain w p [] \<longleftrightarrow> p = RT_NULL"
| "wchain w p (b # bs) \<longleftrightarrow> p = b \<and> b \<noteq> RT_NULL \<and> wchain w (w b) bs"

lemma wchain_upd [simp]: "b \<notin> set bs \<Longrightarrow> wchain (w(b := v)) p bs = wchain w p bs"
  by (induction bs arbitrary: p) auto

definition mp_blocks :: "rt_mempool \<Rightarrow> nat set" where
  "mp_blocks m = (\<lambda>k. start_address m + k * unat (mp_stride m)) ` {..<unat (block_total_count m)}"

text \<open>
  The invariant of a pool: \<open>free\<close> are the free blocks in the order of the list and \<open>used\<close> the others, by the addresses of their
  headers; the two counters count the free blocks and the waiting threads.
\<close>

definition mp_inv :: "nat \<Rightarrow> nat list \<Rightarrow> nat list \<Rightarrow> kstate \<Rightarrow> bool" where
  "mp_inv i free used s \<longleftrightarrow> wchain (k_word s) (block_list (k_mp s i)) free \<and> distinct (free @ used) \<and>
     set (free @ used) = mp_blocks (k_mp s i) \<and> unat (block_free_count (k_mp s i)) = length free \<and>
     unat (mp_stride (k_mp s i)) = unat (block_size (k_mp s i)) + 4 \<and>
     (\<forall>b \<in> set used. k_word s b = i) \<and> start_address (k_mp s i) \<noteq> RT_NULL \<and>
     suspend_thread_count (k_mp s i) = of_nat (length (k_tlist s (Suspend (Obj_mp i)))) \<and>
     length (k_tlist s (Suspend (Obj_mp i))) < 2 ^ 32 \<and>
     (\<forall>t \<in> set (k_tlist s (Suspend (Obj_mp i))). error (k_thread s t) = RT_EOK)"

lemma unat_offset: "k * unat d < 2 ^ 32 \<Longrightarrow> unat (of_nat k * d :: rt_uint32_t) = k * unat d"
proof -
  assume "k * unat d < 2 ^ 32"
  then have "unat (of_nat (k * unat d) :: rt_uint32_t) = k * unat d" by (simp add: unsigned_of_nat take_bit_nat_eq_self del: of_nat_mult)
  then show ?thesis by simp
qed

lemma mp_link_blocks_ok:
  assumes "start \<noteq> RT_NULL" "0 < d" "Suc n * unat d < 2 ^ 32"
  shows "wchain ((mp_link_blocks start d (Suc n) w)(start + unat (of_nat n * d) := RT_NULL)) start (map (\<lambda>k. start + k * unat d) [0..<Suc n])"
proof -
  have d: "0 < unat d" using assms(2) by (simp add: unat_gt_0 word_greater_zero_iff)
  have o: "unat (of_nat k * d) = k * unat d" if "k \<le> Suc n" for k
    using le_less_trans [OF mult_le_mono1 [OF that] assms(3)] by (rule unat_offset)
  have l: "mp_link_blocks start d m w (start + k * unat d) = start + (k + 1) * unat d" if "k < m" "m \<le> Suc n" for k m
    using that d o by (induction m) (auto simp: less_Suc_eq simp del: of_nat_Suc)
  let ?w = "(mp_link_blocks start d (Suc n) w)(start + unat (of_nat n * d) := RT_NULL)"
  have "wchain ?w (start + m * unat d) (map (\<lambda>k. start + k * unat d) [m..<Suc n])" if "m \<le> n" for m
    using that
  proof (induction rule: inc_induct)
    case base
    then show ?case using assms(1) o by simp
  next
    case (step m)
    have "?w (start + m * unat d) = start + Suc m * unat d" using step.hyps l [of m "Suc n"] d o [of n] by auto
    then show ?case using step assms by (simp add: upt_conv_Cons del: upt_Suc mp_link_blocks.simps)
  qed
  from this [of 0] show ?thesis by simp
qed

lemma mp_invD:
  assumes "mp_inv i free used s"
  shows "wchain (k_word s) (block_list (k_mp s i)) free" "distinct (free @ used)" "set (free @ used) = mp_blocks (k_mp s i)"
    "unat (block_free_count (k_mp s i)) = length free" "b \<in> set used \<Longrightarrow> k_word s b = i"
    "suspend_thread_count (k_mp s i) = of_nat (length (k_tlist s (Suspend (Obj_mp i))))"
    "length (k_tlist s (Suspend (Obj_mp i))) < 2 ^ 32" "start_address (k_mp s i) \<noteq> RT_NULL"
    "t \<in> set (k_tlist s (Suspend (Obj_mp i))) \<Longrightarrow> error (k_thread s t) = RT_EOK"
    "unat (mp_stride (k_mp s i)) = unat (block_size (k_mp s i)) + 4"
  using assms by (auto simp: mp_inv_def)

lemma mp_count: "mp_inv i free used s \<Longrightarrow> length free + length used = card (mp_blocks (k_mp s i))"
  using distinct_card [OF mp_invD(2)] mp_invD(3) by fastforce

lemma card_mp_blocks: "card (mp_blocks m) \<le> unat (block_total_count m)"
  using card_image_le [of "{..<unat (block_total_count m)}" "\<lambda>k. start_address m + k * unat (mp_stride m)"] by (simp add: mp_blocks_def)

section \<open>Initialisation\<close>

lemma rt_mp_init_ok:
  assumes "sys s" "k_tlist s (Suspend (Obj_mp i)) = []" "i \<noteq> RT_NULL" "start \<noteq> RT_NULL" "RT_ALIGN bsize 4 + 4 \<noteq> 0" "n = unat (RT_ALIGN_DOWN sz 4 div (RT_ALIGN bsize 4 + 4))" "0 < n"
  shows "ok (rt_mp_init i name start sz bsize s) (\<lambda>s'. mp_inv i (map (\<lambda>k. start + k * unat (RT_ALIGN bsize 4 + 4)) [0..<n]) [] s' \<and>
    block_total_count (k_mp s' i) = of_nat n \<and> sys s')"
proof -
  let ?b = "RT_ALIGN bsize 4 + 4"
  let ?d = "unat ?b"
  obtain m where m: "n = Suc m" using assms(7) by (cases n) auto
  have d: "0 < ?b" using assms(5) by (simp add: word_greater_zero_iff)
  then have dn: "0 < ?d" by (simp add: unat_gt_0)
  have "n * ?d \<le> unat (RT_ALIGN_DOWN sz 4)" using assms(6) by (simp add: unat_div)
  then have fit: "Suc m * ?d < 2 ^ 32" using unsigned_less [of "RT_ALIGN_DOWN sz 4", where 'a = nat] m by simp
  have w: "mp_init_blocks start ?b n (k_word s) = Some ((mp_link_blocks start ?b (Suc m) (k_word s))(start + unat (of_nat m * ?b) := RT_NULL))"
    unfolding mp_init_blocks_def m by simp
  have inj: "distinct (map (\<lambda>k. start + k * ?d) [0..<n])" using dn by (simp add: distinct_map inj_on_def)
  have set: "set (map (\<lambda>k. start + k * ?d) [0..<n]) = (\<lambda>k. start + k * ?d) ` {..<n}" by (simp add: atLeast0LessThan)
  note wc = mp_link_blocks_ok [OF assms(4) d fit, folded m, of "k_word s"]
  have ow: "k_word (rt_object_init (Obj_mp i) c name s) = k_word s" for c by (simp add: rt_object_init_def Let_def)
  have so: "sys (rt_object_init (Obj_mp i) RT_Object_Class_MemPool name s)" using assms(1) by (simp add: rt_object_init_def Let_def)
  have q: "k_tlist (rt_object_init (Obj_mp i) c name s) = k_tlist s" for c by (simp add: rt_object_init_def Let_def)
  have qi: "qs_init (Suspend (Obj_mp i)) (k_tlist s) = k_tlist s" using assms(2) by (simp add: qs_init_def fun_upd_idem)
  have st: "sys (s'\<lparr>k_tlist := k_tlist s\<rparr>) = sys s'" if "k_tlist s' = k_tlist s" for s' by (subst sys_cong [of _ s']) (simp_all add: that)
  show ?thesis
    using assms(3,4) w wc inj set assms(6) align_succ [OF assms(5)] so
    by (simp add: rt_mp_init_def Let_def mp_stride_def ow q qi st ok_Some mp_inv_def mp_blocks_def assms(2) m del: mp_link_blocks.simps upt_Suc set_map)
qed

section \<open>Allocation\<close>

lemma mp_alloc_free:
  assumes inv: "sys s" "mp_inv i (b # free) used s"
  shows "ok (mp_alloc_loop i t time s) (\<lambda>(r, s'). r = Block (b + 4) \<and> sys s' \<and> mp_inv i free (b # used) s' \<and>
    block_size (k_mp s' i) = block_size (k_mp s i) \<and> k_thread s' = k_thread s \<and> k_tlist s' = k_tlist s \<and> k_current s' = k_current s)"
proof -
  note D = mp_invD [OF inv(2)]
  have u: "unat (block_free_count (k_mp s i) - 1) = length free" and n: "block_free_count (k_mp s i) \<noteq> 0"
    using D(4) by (simp_all add: unat_minus_one flip: unat_eq_zero)
  have b: "block_list (k_mp s i) = b" "b \<noteq> RT_NULL" using D(1) by auto
  show ?thesis
    using n b u inv(1) D by (auto simp: mp_alloc_loop_def Let_def ok_Some mp_inv_def mp_blocks_def mp_stride_def)
qed

lemma mp_alloc_waits:
  assumes inv: "sys s" "mp_inv i [] used s" and t: "k_current s = t" "t \<noteq> idle" "k_lock_nest s = 0" "k_interrupt_nest s = 0"
    and time: "time \<noteq> 0" "time \<noteq> 0x7fffffff" and q: "Suc (length (k_tlist s (Suspend (Obj_mp i)))) < 2 ^ 32"
  shows "ok (mp_alloc_loop i t time s) (\<lambda>(r, s'). (\<exists>d. r = Sleeping d) \<and> sys s' \<and> mp_inv i [] used s' \<and> k_current s' \<noteq> t \<and>
    k_tlist s' (Suspend (Obj_mp i)) = t # k_tlist s (Suspend (Obj_mp i)) \<and> thr_stat s' t = RT_THREAD_SUSPEND \<and> error (k_thread s' t) = RT_EOK \<and>
    k_word s' = k_word s \<and> (0 <s time \<longrightarrow> Thread_timer t \<in> set (k_timers s' Hard_list) \<and> left s' (Thread_timer t) = sint time))"
proof -
  let ?h = "Suspend (Obj_mp i)" and ?g = "\<lambda>m. m(i := suspend_thread_count_update (\<lambda>n. n + 1) (m i))"
  let ?s = "s\<lparr>k_thread := (k_thread s)(t := (k_thread s t)\<lparr>error := RT_EOK\<rparr>)\<rparr>"
  note D = mp_invD [OF inv(2)]
  have S: "sys ?s" using inv(1) by simp
  have sp: "\<exists>ys zs. k_tlist ?s ?h = ys @ zs \<and> Cons t (k_tlist ?s ?h) = ys @ t # zs" by (rule exI [of _ "[]"]) simp
  obtain s' where s': "do { s \<leftarrow> do { s \<leftarrow> list_suspend ?h t (Cons t) ?s; arm_thread t time (s\<lparr>k_mp := ?g (k_mp s)\<rparr>) }; rt_schedule s } = Some s'"
    "sys s'" "kept (?s\<lparr>k_mp := ?g (k_mp ?s)\<rparr>) s'" "k_current s' \<noteq> t"
    "k_thread s' = (k_thread s)(t := (k_thread s t)\<lparr>error := RT_EOK, stat := RT_THREAD_SUSPEND\<rparr>)"
    "k_tlist s' = (qs_remove t (k_tlist s))(?h := t # k_tlist s ?h)"
    "if 0 <s time then Thread_timer t \<in> set (k_timers s' Hard_list) \<and> left s' (Thread_timer t) = sint time else \<not> timer_on s' (Thread_timer t)"
    using list_block_ok [where ins = "Cons t" and g = ?g, OF S _ t(2) _ sp time(2)] t(1,3) by (auto elim!: okE)
  have z: "block_free_count (k_mp s i) = 0" using D(4) by (simp flip: unat_eq_zero)
  obtain d where eq: "mp_alloc_loop i t time s = Some (Sleeping d, s')"
    using s'(1) z time(1) t(4) by (auto simp: mp_alloc_loop_def Let_def RT_DEBUG_NOT_IN_INTERRUPT_def split: Option.bind_split_asm)
  note k = keptD(6,7) [OF s'(3)]
  have "mp_inv i [] used s'"
    using D q by (auto simp: mp_inv_def k s'(5,6) mp_blocks_def mp_stride_def)
  then show ?thesis using s'(2,4,5,6,7) k(2) by (simp add: eq ok_Some)
qed

section \<open>Freeing\<close>

lemma mp_free_ok:
  assumes inv: "sys s" "mp_inv i free used s" and b: "b \<in> set used"
  shows "ok (rt_mp_free (b + 4) s) (\<lambda>s'. sys s' \<and> mp_inv i (b # free) (remove1 b used) s' \<and>
    block_size (k_mp s' i) = block_size (k_mp s i) \<and> (case k_tlist s (Suspend (Obj_mp i)) of
       [] \<Rightarrow> k_thread s' = k_thread s
     | t # ts \<Rightarrow> thr_stat s' t = RT_THREAD_READY \<and> error (k_thread s' t) = RT_EOK \<and> k_tlist s' (Suspend (Obj_mp i)) = ts \<and>
         (k_lock_nest s = 0 \<longrightarrow> (\<exists>p. highest s' p \<and> k_current s' = hd (ready_q s' p)))))"
proof -
  note D = mp_invD [OF inv(2)]
  let ?h = "Suspend (Obj_mp i)" and ?m = "k_mp s i"
  have w: "k_word s b = i" by (rule D(5) [OF b])
  have ub: "b \<in> mp_blocks ?m" using D(3) b by auto
  then have bz: "b \<noteq> RT_NULL" using D(8) by (auto simp: mp_blocks_def)
  have "length free < unat (block_total_count ?m)"
    using mp_count [OF inv(2)] card_mp_blocks [of ?m] b by (cases used) auto
  then have u: "unat (block_free_count ?m + 1) = Suc (length free)"
    using D(4) unsigned_less [of "block_total_count ?m", where 'a = nat] by (subst unat_word_ariths) simp
  let ?m1 = "(block_free_count_update (\<lambda>n. n + 1) ?m)\<lparr>block_list := b\<rparr>"
  let ?s1 = "s\<lparr>k_trace := Hook_mp_free i (b + 4) # k_trace s, k_word := (k_word s)(b := block_list ?m), k_mp := (k_mp s)(i := ?m1)\<rparr>"
  have S1: "sys ?s1" using inv(1) by simp
  have nf: "b \<notin> set free" using D(2) b by auto
  have l: "wchain ((k_word s)(b := block_list ?m)) b (b # free)" "distinct (b # free @ remove1 b used)"
    "set (b # free @ remove1 b used) = mp_blocks ?m" "\<forall>c \<in> set (remove1 b used). ((k_word s)(b := block_list ?m)) c = i"
    using D(1-3,5) b bz nf by auto
  show ?thesis
  proof (cases "k_tlist s ?h")
    case Nil
    then have "mp_inv i (b # free) (remove1 b used) ?s1"
      using l u D(6,8,10) by (simp add: mp_inv_def mp_blocks_def mp_stride_def)
    moreover have "rt_mp_free (b + 4) s = Some ?s1" using Nil D(6) w by (simp add: rt_mp_free_def Let_def)
    ultimately show ?thesis using S1 by (simp add: ok_Some Nil)
  next
    case (Cons t ts)
    let ?s2 = "?s1\<lparr>k_thread := (k_thread s)(t := (k_thread s t)\<lparr>error := RT_EOK\<rparr>)\<rparr>"
    have S2: "sys ?s2" using S1 by simp
    have t2: "t \<in> set (k_tlist ?s2 ?h)" using Cons by simp
    obtain s3 where s3: "rt_thread_resume t ?s2 = Some (RT_EOK, s3)" "sys s3" "kept ?s2 s3"
      "k_thread s3 = (k_thread s)(t := (k_thread s t)\<lparr>error := RT_EOK, stat := RT_THREAD_READY\<rparr>)" "k_tlist s3 ?h = ts"
      using sys_resume [OF S2 t2] Cons by (auto elim!: okE)
    note k = keptD(6,7,9) [OF s3(3)]
    let ?s4 = "s3\<lparr>k_mp := (k_mp s3)(i := suspend_thread_count_update (\<lambda>n. n - 1) (k_mp s3 i))\<rparr>"
    have S4: "sys ?s4" using s3(2) by simp
    obtain s5 where s5: "rt_schedule ?s4 = Some s5" "sys s5" "only_switched ?s4 s5"
      "k_lock_nest ?s4 = 0 \<longrightarrow> (\<exists>p. highest s5 p \<and> k_current s5 = hd (ready_q s5 p))"
      using sys_resched [OF sysD(1,2,4) [OF S4]] sysD(3) [OF S4] by (auto elim!: okE)
    note o = only_switchedD [OF s5(3)]
    have "unat (suspend_thread_count ?m) = Suc (length ts)"
      using D(6,7) Cons by (simp add: unsigned_of_nat take_bit_nat_eq_self del: of_nat_Suc)
    then have n: "0 < suspend_thread_count ?m" by (simp add: word_greater_zero_iff flip: unat_eq_zero)
    have "mp_inv i (b # free) (remove1 b used) s5"
      using l u D(6-10) Cons by (simp add: mp_inv_def mp_blocks_def mp_stride_def o k s3(4,5))
    moreover have "rt_mp_free (b + 4) s = Some s5" using Cons n w s3(1) s5(1) by (simp add: rt_mp_free_def Let_def)
    ultimately show ?thesis
      unfolding Cons list.case using s5(2,4) by (simp add: ok_Some o s3(4,5) k)
  qed
qed

section \<open>Waking every waiting thread\<close>

lemma mp_wake_all_ok:
  assumes "sys s" "k_tlist s (Suspend (Obj_mp i)) = ts"
  shows "ok (mp_wake_all i s) (\<lambda>s'. sys s' \<and> all_woken (Suspend (Obj_mp i)) s s' \<and> kept s (s'\<lparr>k_mp := k_mp s\<rparr>) \<and>
    k_mp s' = (k_mp s)(i := (k_mp s i)\<lparr>suspend_thread_count := suspend_thread_count (k_mp s i) - of_nat (length ts)\<rparr>))"
  using assms
proof (induction ts arbitrary: s)
  case Nil
  then show ?case by (subst mp_wake_all.simps) (simp add: ok_Some all_woken_def kept_def)
next
  case (Cons t ts)
  let ?h = "Suspend (Obj_mp i)"
  let ?s1 = "s\<lparr>k_thread := (k_thread s)(t := (k_thread s t)\<lparr>error := - RT_ERROR\<rparr>)\<rparr>"
  have t1: "t \<in> set (k_tlist ?s1 ?h)" and S1: "sys ?s1" using Cons.prems by simp_all
  obtain s2 where s2: "rt_thread_resume t ?s1 = Some (RT_EOK, s2)" "sys s2" "kept ?s1 s2"
    "k_thread s2 = (k_thread s)(t := (k_thread s t)\<lparr>error := - RT_ERROR, stat := RT_THREAD_READY\<rparr>)" "k_tlist s2 ?h = ts"
    "\<forall>h'. (\<forall>p. h' \<noteq> Ready p) \<and> h' \<noteq> ?h \<longrightarrow> k_tlist s2 h' = k_tlist s h'"
    using sys_resume [OF S1 t1] Cons.prems(2) by (auto elim!: okE)
  let ?s3 = "s2\<lparr>k_mp := (k_mp s2)(i := suspend_thread_count_update (\<lambda>n. n - 1) (k_mp s2 i))\<rparr>"
  have eq: "mp_wake_all i s = mp_wake_all i ?s3" using s2(1) Cons.prems(2) by (subst mp_wake_all.simps) simp
  have S3: "sys ?s3" "k_tlist ?s3 ?h = ts" using s2(2,5) by simp_all
  have nin: "t \<notin> set ts"
    using qs_wfD(1) [OF sched_invD(1) [OF kinvD(1) [OF sysD(1) [OF Cons.prems(1)]]], of ?h] Cons.prems(2) by simp
  have m: "k_mp s2 = k_mp s" using keptD(6) [OF s2(3)] by simp
  have w: "all_woken ?h s s'" if "all_woken ?h ?s3 s'" for s'
    using that nin s2(4,6) by (auto simp: all_woken_def S3(2) Cons.prems(2) s2(5))
  show ?case
    unfolding eq
    by (rule ok_mono [OF Cons.IH [OF S3]]) (use s2(3) in \<open>auto intro: w simp: kept_def m algebra_simps\<close>)
qed

lemma rt_mp_detach_ok:
  assumes "sys s" "i \<noteq> RT_NULL"
  shows "ok (rt_mp_detach i s) (\<lambda>s'. sys s' \<and> all_woken (Suspend (Obj_mp i)) s s' \<and> k_container s' = qs_remove (Obj_mp i) (k_container s))"
  unfolding rt_mp_detach_def
  using ok_mono [OF mp_wake_all_ok [OF assms(1) refl, of i]] assms(2)
  by (simp add: okr rt_object_detach_def all_woken_def kept_def)

lemma rt_mp_delete_ok:
  assumes "sys s" "i \<noteq> RT_NULL" "k_interrupt_nest s = 0" "obj_type (k_object s (Obj_mp i)) AND RT_Object_Class_Static = 0"
  shows "ok (rt_mp_delete i s) (\<lambda>s'. sys s' \<and> all_woken (Suspend (Obj_mp i)) s s' \<and>
    k_container s' = qs_remove (Obj_mp i) (k_container s) \<and> Kernel_free (Obj_mp i) \<in> set (k_trace s') \<and>
    Heap_free (start_address (k_mp s i)) \<in> set (k_trace s'))"
  unfolding rt_mp_delete_def RT_DEBUG_NOT_IN_INTERRUPT_def
  using ok_mono [OF mp_wake_all_ok [OF assms(1) refl, of i]] assms(2-4)
  by (simp add: okr rt_object_delete_def all_woken_def kept_def)

section \<open>Safety of the clients\<close>

lemma mp_alloc_empty:
  assumes inv: "sys s" "mp_inv i [] used s"
  shows "ok (mp_alloc_loop i t 0 s) (\<lambda>(r, s'). r = Block RT_NULL \<and> sys s' \<and> mp_inv i [] used s' \<and>
    block_size (k_mp s' i) = block_size (k_mp s i) \<and>
    (k_interrupt_nest s = 0 \<longrightarrow> error (k_thread s' (k_current s)) = - RT_ETIMEOUT))"
proof -
  note D = mp_invD [OF inv(2)]
  have z: "block_free_count (k_mp s i) = 0" using D(4) by (simp flip: unat_eq_zero)
  have c: "k_current s \<notin> set (k_tlist s (Suspend (Obj_mp i)))"
    using sysD(5) [OF inv(1)] sched_invD(4) [OF kinvD(1) [OF sysD(1) [OF inv(1)]], of "k_current s" "Suspend (Obj_mp i)"] by auto
  show ?thesis
    using z c inv(1) D sysD(6) [OF inv(1)]
    by (auto simp: mp_alloc_loop_def ok_Some rt_set_errno_def rt_thread_self_def mp_inv_def mp_blocks_def mp_stride_def)
qed

primrec wfollow :: "(nat \<Rightarrow> nat) \<Rightarrow> nat \<Rightarrow> nat \<Rightarrow> nat list" where
  "wfollow w p 0 = []"
| "wfollow w p (Suc n) = p # wfollow w (w p) n"

lemma wfollow_wchain: "wchain w p bs \<Longrightarrow> wfollow w p (length bs) = bs"
  by (induction bs arbitrary: p) auto

text \<open>The blocks that are handed out: those of the pool that are not in the free list.\<close>

definition mp_live :: "nat \<Rightarrow> kstate \<Rightarrow> (nat \<times> nat) set" where
  "mp_live i s = (\<lambda>b. (b + 4, unat (block_size (k_mp s i)))) `
     (mp_blocks (k_mp s i) - set (wfollow (k_word s) (block_list (k_mp s i)) (unat (block_free_count (k_mp s i)))))"

lemma mp_live_eq:
  assumes "mp_inv i free used s"
  shows "mp_live i s = (\<lambda>b. (b + 4, unat (block_size (k_mp s i)))) ` set used"
proof -
  note D = mp_invD [OF assms]
  have "mp_blocks (k_mp s i) - set free = set used" using D(2,3) by auto
  then show ?thesis unfolding mp_live_def D(4) wfollow_wchain [OF D(1)] by simp
qed

definition mp_alloc_now :: "nat \<Rightarrow> unit \<Rightarrow> kstate \<Rightarrow> (nat \<times> kstate) option" where
  "mp_alloc_now i _ s = do {
     (r, s) \<leftarrow> rt_mp_alloc i 0 s;
     case r of Block p \<Rightarrow> Some (p, s) | Sleeping _ \<Rightarrow> None
   }"

definition mp_good :: "nat \<Rightarrow> kstate \<Rightarrow> bool" where
  "mp_good i s \<longleftrightarrow> sys s \<and> (\<exists>free used. mp_inv i free used s)"

lemma mp_blocks_apart:
  assumes "mp_inv i free used s" "b \<in> mp_blocks (k_mp s i)" "c \<in> mp_blocks (k_mp s i)" "b \<noteq> c"
  shows "extent (b + 4, unat (block_size (k_mp s i))) \<inter> extent (c + 4, unat (block_size (k_mp s i))) = {}"
proof -
  let ?n = "unat (block_size (k_mp s i))" and ?a = "start_address (k_mp s i)"
  obtain j k where jk: "b = ?a + j * (?n + 4)" "c = ?a + k * (?n + 4)"
    using assms(2,3) by (auto simp: mp_blocks_def mp_invD(10) [OF assms(1)])
  have le: "x * (?n + 4) + (?n + 4) \<le> y * (?n + 4)" if "x < y" for x y
    using mult_le_mono1 [of "Suc x" y "?n + 4"] that by simp
  have "b + 4 + ?n \<le> c \<or> c + 4 + ?n \<le> b"
    using assms(4) le [of j k] le [of k j] unfolding jk by (cases j k rule: linorder_cases) auto
  then show ?thesis by (auto simp: extent_def)
qed

interpretation mp: allocator "mp_alloc_now i" rt_mp_free "mp_good i" "mp_live i" "\<lambda>_ s. unat (block_size (k_mp s i))" for i
proof
  fix s x y
  assume g: "mp_good i s" and xy: "x \<in> mp_live i s" "y \<in> mp_live i s" "x \<noteq> y"
  obtain free used where inv: "mp_inv i free used s" using g by (auto simp: mp_good_def)
  show "extent x \<inter> extent y = {}"
    using xy mp_blocks_apart [OF inv] mp_invD(3) [OF inv] unfolding mp_live_eq [OF inv] by auto
next
  fix s p n m
  assume "(p, n) \<in> mp_live i s" "(p, m) \<in> mp_live i s"
  then show "n = m" by (auto simp: mp_live_def)
next
  fix s and r :: unit
  assume g: "mp_good i s"
  then obtain free used where inv: "sys s" "mp_inv i free used s" by (auto simp: mp_good_def)
  let ?P = "\<lambda>(p, s'). mp_good i s' \<and> (if p = RT_NULL then mp_live i s' = mp_live i s
       else \<exists>n \<ge> unat (block_size (k_mp s i)). p \<notin> fst ` mp_live i s \<and> mp_live i s' = insert (p, n) (mp_live i s))"
  show "ok (mp_alloc_now i r s) ?P"
  proof (cases free)
    case Nil
    obtain s' where s': "mp_alloc_loop i (rt_thread_self s) 0 s = Some (Block RT_NULL, s')" "sys s'" "mp_inv i [] used s'"
      "block_size (k_mp s' i) = block_size (k_mp s i)"
      using mp_alloc_empty [OF inv(1), of i used] inv(2) Nil by (auto elim!: okE)
    then show ?thesis
      using inv(2) by (auto simp: mp_alloc_now_def rt_mp_alloc_def ok_Some mp_good_def mp_live_eq [OF s'(3)] mp_live_eq [OF inv(2)])
  next
    case (Cons b bs)
    obtain s' where s': "mp_alloc_loop i (rt_thread_self s) 0 s = Some (Block (b + 4), s')" "sys s'" "mp_inv i bs (b # used) s'"
      "block_size (k_mp s' i) = block_size (k_mp s i)"
      using mp_alloc_free [OF inv(1), of i b bs used] inv(2) Cons by (auto elim!: okE)
    have "b \<notin> set used" using mp_invD(2) [OF inv(2)] Cons by auto
    then show ?thesis
      using s' by (auto simp: mp_alloc_now_def rt_mp_alloc_def ok_Some mp_good_def mp_live_eq [OF s'(3)] mp_live_eq [OF inv(2)])
  qed
next
  fix s p n
  assume g: "mp_good i s" and p: "(p, n) \<in> mp_live i s"
  then obtain free used where inv: "sys s" "mp_inv i free used s" by (auto simp: mp_good_def)
  then obtain b where b: "b \<in> set used" "p = b + 4" "n = unat (block_size (k_mp s i))" using p by (auto simp: mp_live_eq)
  have d: "set (remove1 b used) = set used - {b}" using mp_invD(2) [OF inv(2)] by (simp add: set_remove1_eq)
  show "ok (rt_mp_free p s) (\<lambda>s'. mp_good i s' \<and> mp_live i s' = mp_live i s - {(p, n)})"
    unfolding b(2)
    by (rule ok_mono [OF mp_free_ok [OF inv b(1)]])
      (auto simp: mp_good_def mp_live_eq [OF inv(2)] mp_live_eq d b)
qed

section \<open>Properties\<close>

text \<open>
  C21. \<open>rt_mp_alloc\<close> hands out the first free block of the pool. With none free it gives \<open>RT_NULL\<close> at once when the caller does not
  want to wait; otherwise the caller sleeps, first among the waiting threads, with its timer armed for a limited time.
\<close>

theorem rt_mp_alloc_correct:
  assumes "sys s" "mp_inv i free used s" "k_current s \<noteq> idle" "k_lock_nest s = 0" "k_interrupt_nest s = 0"
    "time \<noteq> 0x7fffffff" "Suc (length (k_tlist s (Suspend (Obj_mp i)))) < 2 ^ 32"
  shows "ok (rt_mp_alloc i time s) (\<lambda>(r, s'). sys s' \<and> (case free of
      b # bs \<Rightarrow> r = Block (b + 4) \<and> mp_inv i bs (b # used) s'
    | [] \<Rightarrow> mp_inv i [] used s' \<and>
       (if time = 0 then r = Block RT_NULL \<and> error (k_thread s' (k_current s)) = - RT_ETIMEOUT
        else (\<exists>d. r = Sleeping d) \<and> k_tlist s' (Suspend (Obj_mp i)) = k_current s # k_tlist s (Suspend (Obj_mp i)) \<and>
          thr_stat s' (k_current s) = RT_THREAD_SUSPEND \<and> k_current s' \<noteq> k_current s \<and>
          (0 <s time \<longrightarrow> Thread_timer (k_current s) \<in> set (k_timers s' Hard_list) \<and>
             left s' (Thread_timer (k_current s)) = sint time))))"
proof (cases free)
  case (Cons b bs)
  then have inv: "mp_inv i (b # bs) used s" using assms(2) by simp
  show ?thesis
    unfolding rt_mp_alloc_def Cons list.case by (rule ok_mono [OF mp_alloc_free [OF assms(1) inv]]) auto
next
  case Nil
  have inv: "mp_inv i [] used s" using assms(2) Nil by simp
  show ?thesis
  proof (cases "time = 0")
    case True
    show ?thesis
      unfolding rt_mp_alloc_def True Nil list.case by (rule ok_mono [OF mp_alloc_empty [OF assms(1) inv]]) (use assms(5) in auto)
  next
    case False
    show ?thesis
      using mp_alloc_waits [OF assms(1) inv refl assms(3-5) False assms(6,7)]
      by (auto simp: Nil False rt_mp_alloc_def rt_thread_self_def elim!: okE simp: ok_Some)
  qed
qed

text \<open>
  C22. \<open>rt_mp_free\<close> puts the block back in front of the free list of the pool named in its header. When threads wait, the one
  that came last becomes ready, and its call to \<open>rt_mp_alloc\<close> completes with this very block if nobody else takes it before.
\<close>

theorem rt_mp_free_wakes:
  assumes "sys s" "mp_inv i [] used s" "b \<in> set used" "k_tlist s (Suspend (Obj_mp i)) = t # ts"
  shows "ok (do { s \<leftarrow> rt_mp_free (b + 4) s; (r, s') \<leftarrow> rt_mp_alloc_resume i t time d s; Some (r, s, s') }) (\<lambda>(r, s1, s').
    mp_inv i [b] (remove1 b used) s1 \<and> thr_stat s1 t = RT_THREAD_READY \<and> k_tlist s1 (Suspend (Obj_mp i)) = ts \<and>
    r = Block (b + 4) \<and> sys s' \<and> mp_inv i [] (b # remove1 b used) s')"
proof -
  obtain s1 where s1: "rt_mp_free (b + 4) s = Some s1" "sys s1" "mp_inv i [b] (remove1 b used) s1" "thr_stat s1 t = RT_THREAD_READY"
    "error (k_thread s1 t) = RT_EOK" "k_tlist s1 (Suspend (Obj_mp i)) = ts"
    using mp_free_ok [OF assms(1-3)] by (auto simp: assms(4) elim!: okE)
  obtain s' where "mp_alloc_loop i t (time_left time d (rt_tick_get s1)) s1 = Some (Block (b + 4), s')" "sys s'" "mp_inv i [] (b # remove1 b used) s'"
    using mp_alloc_free [OF s1(2,3)] by (auto elim!: okE)
  then show ?thesis using s1 by (simp add: rt_mp_alloc_resume_def ok_Some)
qed

lemma mp_client_ok:
  assumes "sys s" "mp_inv i free [] s"
  shows "ok (client_run (mp_alloc_now i) rt_mp_free ops ([], s)) (\<lambda>(ps, s'). mp_good i s' \<and> distinct ps \<and>
    set ps = fst ` mp_live i s' \<and> unat (block_free_count (k_mp s' i)) + length ps = card (mp_blocks (k_mp s' i)))"
proof -
  have g: "mp_good i s" "fst ` mp_live i s = set []" using assms mp_live_eq [OF assms(2)] by (auto simp: mp_good_def)
  show ?thesis
  proof (rule ok_mono [OF mp.client_ok [OF g(1) distinct.simps(1) [THEN iffD2, OF TrueI] g(2)]], clarify, intro conjI)
    fix ps s'
    assume s': "mp_good i s'" "distinct ps" "fst ` mp_live i s' = set ps"
    then obtain free used where inv: "sys s'" "mp_inv i free used s'" by (auto simp: mp_good_def)
    show "set ps = fst ` mp_live i s'" using s'(3) by simp
    have "set ps = (\<lambda>b. b + 4) ` set used" using s'(3) unfolding mp_live_eq [OF inv(2)] by force
    then have "length ps = card ((\<lambda>b. b + 4) ` set used)" using distinct_card [OF s'(2)] by simp
    also have "\<dots> = length used" using mp_invD(2) [OF inv(2)] by (simp add: card_image distinct_card)
    finally show "unat (block_free_count (k_mp s' i)) + length ps = card (mp_blocks (k_mp s' i))"
      using mp_count [OF inv(2)] mp_invD(4) [OF inv(2)] by simp
  qed
qed

text \<open>
  C20. The clients of a pool are safe. Set up a pool over \<open>sz\<close> bytes at \<open>start\<close> in which at least one block fits, and run any
  sequence of allocations and releases of held blocks. No operation gets stuck, no block is handed out twice, the blocks that are out
  do not overlap, and none is lost: the free blocks and those that are out are together the whole pool.
\<close>

theorem rt_mp_client_safe:
  assumes "sys s" "k_tlist s (Suspend (Obj_mp i)) = []" "i \<noteq> RT_NULL" "start \<noteq> RT_NULL" "RT_ALIGN bsize 4 + 4 \<noteq> 0"
    "0 < unat (RT_ALIGN_DOWN sz 4 div (RT_ALIGN bsize 4 + 4))"
  shows "ok (do { s \<leftarrow> rt_mp_init i name start sz bsize s; client_run (mp_alloc_now i) rt_mp_free ops ([], s) }) (\<lambda>(ps, s').
    sys s' \<and> distinct ps \<and> set ps = fst ` mp_live i s' \<and>
    (\<forall>x \<in> mp_live i s'. \<forall>y \<in> mp_live i s'. x \<noteq> y \<longrightarrow> extent x \<inter> extent y = {}) \<and>
    unat (block_free_count (k_mp s' i)) + length ps = card (mp_blocks (k_mp s' i)))"
proof -
  obtain s1 free where s1: "rt_mp_init i name start sz bsize s = Some s1" "sys s1" "mp_inv i free [] s1"
    using rt_mp_init_ok [OF assms(1-5) refl assms(6), of name] by (auto elim!: okE)
  show ?thesis
    unfolding s1(1) bind.bind_lunit
    by (rule ok_mono [OF mp_client_ok [OF s1(2,3)]]) (use mp.disjoint [of i] in \<open>fastforce simp: mp_good_def\<close>)
qed

text \<open>
  C38. A call to \<open>rt_mp_alloc\<close> that times out leaves the number of waiting threads too high by one: the timer takes the thread
  from the list but does not know of the counter. The next \<open>rt_mp_free\<close> then takes the first entry of the empty list for a thread.
\<close>

theorem rt_mp_timeout_stale:
  assumes "cb_quiet cb" "sys s" "mp_inv i [] used s" "b \<in> set used" "k_tlist s (Suspend (Obj_mp i)) = []" "k_current s \<noteq> idle"
    "k_lock_nest s = 0" "k_interrupt_nest s = 0" "0 < n" "n < 2 ^ 31 - 1"
  shows "ok (do { (r, s) \<leftarrow> rt_mp_alloc i (of_nat n) s; s \<leftarrow> run_ticks cb n s; Some (r, s) }) (\<lambda>(r, s').
    (\<exists>d. r = Sleeping d \<and> rt_mp_alloc_resume i (k_current s) (of_nat n) d s' = Some (Block RT_NULL, s')) \<and>
    k_tlist s' (Suspend (Obj_mp i)) = [] \<and> suspend_thread_count (k_mp s' i) = 1 \<and> rt_mp_free (b + 4) s' = None)"
proof -
  let ?t = "k_current s" and ?n = "of_nat n :: rt_int32_t" and ?h = "Suspend (Obj_mp i)"
  have u: "sint ?n = int n" using assms(10) by (simp add: sint_of_nat)
  have n: "?n \<noteq> 0" "?n \<noteq> 0x7fffffff" "0 <s ?n" using u assms(9,10) by (auto simp: word_sless_alt)
  obtain d s1 where s1: "rt_mp_alloc i ?n s = Some (Sleeping d, s1)" "sys s1" "mp_inv i [] used s1" "k_tlist s1 ?h = [?t]"
    "Thread_timer ?t \<in> set (k_timers s1 Hard_list)" "left s1 (Thread_timer ?t) = int n"
    using mp_alloc_waits [OF assms(2,3) refl assms(6-8) n(1,2)] assms(5) n(3) u
    by (auto simp: rt_mp_alloc_def rt_thread_self_def elim!: okE)
  note D = sysD [OF s1(2)] and M = mp_invD [OF s1(3)]
  obtain s2 where s2: "run_ticks cb n s1 = Some s2" "kinv s2" "calm s1 s2" "timed_out s2 ?t"
    using run_ticks_ok [OF assms(1) D(1-4) s1(5,6) assms(9) le_refl] by (auto elim!: okE)
  have "?t \<notin> set (k_tlist s2 ?h)"
    using sched_invD(4) [OF kinvD(1) [OF s2(2)], of ?t ?h] s2(4) by (auto simp: timed_out_def)
  then have q: "k_tlist s2 ?h = []" using calm_waiting(1) [OF s2(3,2), of _ ?h] s1(4) by (cases "k_tlist s2 ?h") auto
  have c: "suspend_thread_count (k_mp s2 i) = 1" using M(6) s1(4) by (simp add: calmD(6) [OF s2(3)])
  have w: "k_word s2 b = i" using M(5) [OF assms(4)] by (simp add: calmD(7) [OF s2(3)])
  have "rt_mp_free (b + 4) s2 = None" using q c w by (simp add: rt_mp_free_def Let_def)
  then show ?thesis
    using q c s2(4) by (simp add: s1(1) s2(1) ok_Some rt_mp_alloc_resume_def timed_out_def)
qed

section \<open>An example\<close>

text \<open>A pool of two blocks of eight bytes, new and with both blocks handed out.\<close>

definition demo_mp :: "nat \<Rightarrow> kstate" where
  "demo_mp n = demo\<lparr>k_mp := (k_mp demo)(2 := \<lparr>start_address = 1000, mp_size = 24, block_size = 8, block_list = (if n = 0 then 0 else 1000),
     block_total_count = 2, block_free_count = of_nat n, suspend_thread_count = 0\<rparr>),
     k_word := if n = 0 then (\<lambda>_. 0)(1000 := 2, 1012 := 2) else (\<lambda>_. 0)(1000 := 1012)\<rparr>"

lemma demo_mp_inv: "sys (demo_mp n)" "mp_inv 2 [1000, 1012] [] (demo_mp 2)" "mp_inv 2 [] [1000, 1012] (demo_mp 0)"
proof -
  have "{..<2 :: nat} = {0, 1}" by auto
  then show "sys (demo_mp n)" "mp_inv 2 [1000, 1012] [] (demo_mp 2)" "mp_inv 2 [] [1000, 1012] (demo_mp 0)"
    by (simp_all add: demo_mp_def demo_sys mp_inv_def mp_blocks_def mp_stride_def)
qed

theorem rt_mp_alloc_correct_witness:
  "ok (rt_mp_alloc 2 10 (demo_mp 2)) (\<lambda>(r, s'). sys s' \<and> r = Block 1004 \<and> mp_inv 2 [1012] [1000] s') \<and>
   ok (rt_mp_alloc 2 0 (demo_mp 0)) (\<lambda>(r, s'). r = Block RT_NULL \<and> error (k_thread s' 3) = - RT_ETIMEOUT) \<and>
   ok (rt_mp_alloc 2 10 (demo_mp 0)) (\<lambda>(r, s'). k_tlist s' (Suspend (Obj_mp 2)) = [3] \<and> left s' (Thread_timer 3) = 10)"
proof -
  have q: "k_tlist (demo_mp n) = k_tlist demo" "k_current (demo_mp n) = 3" "k_lock_nest (demo_mp n) = 0" "k_interrupt_nest (demo_mp n) = 0" for n
    by (simp_all add: demo_mp_def)
  show ?thesis
    using rt_mp_alloc_correct [OF demo_mp_inv(1,2), of 10] rt_mp_alloc_correct [OF demo_mp_inv(1,3), of 0] rt_mp_alloc_correct [OF demo_mp_inv(1,3), of 10]
    by (intro conjI; simp add: q idle_def) (erule ok_mono; auto simp: word_sless_alt)+
qed

theorem rt_mp_client_safe_witness:
  "ok (do { s \<leftarrow> rt_mp_init 2 (\<lambda>_. 0) 1000 26 7 demo; client_run (mp_alloc_now 2) rt_mp_free [Request (), Request (), Release 1, Request ()] ([], s) })
     (\<lambda>(ps, s'). distinct ps \<and> unat (block_free_count (k_mp s' 2)) + length ps = card (mp_blocks (k_mp s' 2)))"
  by (rule ok_mono [OF rt_mp_client_safe [OF demo_sys]]) (auto simp: RT_ALIGN_def RT_ALIGN_DOWN_def)

theorem rt_mp_timeout_stale_witness:
  "ok (do { (r, s) \<leftarrow> rt_mp_alloc 2 (of_nat 10) (demo_mp 0); s \<leftarrow> run_ticks (\<lambda>f p. Some) 10 s; Some (r, s) }) (\<lambda>(r, s').
    suspend_thread_count (k_mp s' 2) = 1 \<and> rt_mp_free 1004 s' = None)"
  by (rule ok_mono [OF rt_mp_timeout_stale [OF quiet_none demo_mp_inv(1,3), of 1000]]) (auto simp: demo_mp_def idle_def)

theorem rt_mp_free_wakes_witness:
  "ok (do { (r, s) \<leftarrow> rt_mp_alloc 2 10 (demo_mp 0); s \<leftarrow> rt_mp_free 1004 s; (r', s) \<leftarrow> rt_mp_alloc_resume 2 3 10 100 s; Some (r, r', s) })
     (\<lambda>(r, r', s'). (\<exists>d. r = Sleeping d) \<and> r' = Block 1004 \<and> sys s' \<and> mp_inv 2 [] [1000, 1012] s')"
proof -
  have q: "k_tlist (demo_mp 0) (Suspend (Obj_mp 2)) = []" "k_current (demo_mp 0) = 3" "k_lock_nest (demo_mp 0) = 0" "k_interrupt_nest (demo_mp 0) = 0"
    by (simp_all add: demo_mp_def)
  obtain d s1 where s1: "rt_mp_alloc 2 10 (demo_mp 0) = Some (Sleeping d, s1)" "sys s1" "mp_inv 2 [] [1000, 1012] s1"
    "k_tlist s1 (Suspend (Obj_mp 2)) = [3]"
    using mp_alloc_waits [OF demo_mp_inv(1,3) q(2) _ q(3,4), of 10]
    by (auto simp: rt_mp_alloc_def rt_thread_self_def q idle_def elim!: okE)
  have "ok (do { s \<leftarrow> rt_mp_free 1004 s1; (r, s') \<leftarrow> rt_mp_alloc_resume 2 3 10 100 s; Some (r, s, s') }) (\<lambda>(r, _, s'). r = Block 1004 \<and> sys s' \<and>
      mp_inv 2 [] [1000, 1012] s')"
    using rt_mp_free_wakes [OF s1(2,3) _ s1(4), of 1000 10 100] by (auto elim: ok_mono)
  then show ?thesis by (auto simp: s1(1) ok_Some elim!: okE split: Option.bind_split_asm)
qed

end
