(* ===== verification/Heap.thy ===== *)
theory Heap
  imports Kservice Allocator
begin

text \<open>
  The system heap, \<^verbatim>\<open>src/mem.c\<close>: a list of blocks in one area of memory, each with a header of twelve bytes. The model keeps
  the headers, by their offset in the area, apart from the other bytes. A pointer to a header is its offset; \<open>heap_ptr\<close> is the
  address of the area. Here are the operations on the list and
  their invariant; the calls, which hold a semaphore while they work on the list, are in \<open>HeapCalls\<close>.
\<close>

section \<open>Data\<close>

record heap_mem =
  hm_magic :: rt_uint16_t
  hm_used :: rt_uint16_t
  hm_next :: rt_uint32_t
  hm_prev :: rt_uint32_t

record heap =
  heap_ptr :: nat
  heap_end :: rt_uint32_t
  lfree :: rt_uint32_t
  mem_size_aligned :: rt_uint32_t
  used_mem :: rt_uint32_t
  max_mem :: rt_uint32_t
  h_mem :: "nat \<Rightarrow> heap_mem"
  h_bytes :: mem

abbreviation (input) HEAP_MAGIC :: rt_uint16_t where "HEAP_MAGIC \<equiv> 0x1ea0"
abbreviation (input) MIN_SIZE :: rt_uint32_t where "MIN_SIZE \<equiv> 12"
abbreviation (input) SIZEOF_STRUCT_MEM :: rt_uint32_t where "SIZEOF_STRUCT_MEM \<equiv> 12"

abbreviation hdr :: "heap \<Rightarrow> rt_uint32_t \<Rightarrow> heap_mem" where
  "hdr h p \<equiv> h_mem h (unat p)"

abbreviation upd_hdr :: "rt_uint32_t \<Rightarrow> (heap_mem \<Rightarrow> heap_mem) \<Rightarrow> heap \<Rightarrow> heap" where
  "upd_hdr p f h \<equiv> h\<lparr>h_mem := (h_mem h)(unat p := f (h_mem h (unat p)))\<rparr>"

section \<open>The list of blocks\<close>

definition plug_next :: "rt_uint32_t \<Rightarrow> heap \<Rightarrow> heap" where
  "plug_next mem h =
     (let nmem = hm_next (hdr h mem) in
      if mem \<noteq> nmem \<and> hm_used (hdr h nmem) = 0 \<and> nmem \<noteq> heap_end h then
        let h = (if lfree h = nmem then h\<lparr>lfree := mem\<rparr> else h);
            h = upd_hdr mem (hm_next_update (\<lambda>_. hm_next (hdr h nmem))) h
        in upd_hdr (hm_next (hdr h nmem)) (hm_prev_update (\<lambda>_. mem)) h
      else h)"

definition plug_prev :: "rt_uint32_t \<Rightarrow> heap \<Rightarrow> heap" where
  "plug_prev mem h =
     (let pmem = hm_prev (hdr h mem) in
      if pmem \<noteq> mem \<and> hm_used (hdr h pmem) = 0 then
        let h = (if lfree h = mem then h\<lparr>lfree := pmem\<rparr> else h);
            h = upd_hdr pmem (hm_next_update (\<lambda>_. hm_next (hdr h mem))) h
        in upd_hdr (hm_next (hdr h mem)) (hm_prev_update (\<lambda>_. pmem)) h
      else h)"

definition plug_holes :: "rt_uint32_t \<Rightarrow> heap \<Rightarrow> heap option" where
  "plug_holes mem h = do {
     RT_ASSERT (mem < heap_end h);
     RT_ASSERT (hm_used (hdr h mem) = 0);
     Some (plug_prev mem (plug_next mem h))
   }"

text \<open>The search for a block, from the lowest free one on. With a bad bound it may never end.\<close>

partial_function (option) heap_scan :: "rt_uint32_t \<Rightarrow> heap \<Rightarrow> rt_uint32_t \<Rightarrow> rt_uint32_t option option" where
  "heap_scan sz h ptr =
     (if ptr < mem_size_aligned h - sz then
        if hm_used (hdr h ptr) = 0 \<and> sz \<le> hm_next (hdr h ptr) - (ptr + SIZEOF_STRUCT_MEM) then Some (Some ptr)
        else heap_scan sz h (hm_next (hdr h ptr))
      else Some None)"

definition heap_stats :: "rt_uint32_t \<Rightarrow> heap \<Rightarrow> heap" where
  "heap_stats n h =
     (let h = h\<lparr>used_mem := used_mem h + n\<rparr>
      in if max_mem h < used_mem h then h\<lparr>max_mem := used_mem h\<rparr> else h)"

definition heap_take :: "rt_uint32_t \<Rightarrow> rt_uint32_t \<Rightarrow> heap \<Rightarrow> heap" where
  "heap_take sz ptr h =
     (let nxt = hm_next (hdr h ptr);
          h = (if sz + SIZEOF_STRUCT_MEM + MIN_SIZE \<le> nxt - (ptr + SIZEOF_STRUCT_MEM) then
            let ptr2 = ptr + SIZEOF_STRUCT_MEM + sz;
                h = upd_hdr ptr2 (\<lambda>_. \<lparr>hm_magic = HEAP_MAGIC, hm_used = 0, hm_next = nxt, hm_prev = ptr\<rparr>) h;
                h = upd_hdr ptr (\<lambda>m. m\<lparr>hm_next := ptr2, hm_used := 1\<rparr>) h;
                h = (if nxt \<noteq> mem_size_aligned h + SIZEOF_STRUCT_MEM then upd_hdr nxt (hm_prev_update (\<lambda>_. ptr2)) h else h)
            in heap_stats (sz + SIZEOF_STRUCT_MEM) h
          else heap_stats (nxt - ptr) (upd_hdr ptr (hm_used_update (\<lambda>_. 1)) h))
      in upd_hdr ptr (hm_magic_update (\<lambda>_. HEAP_MAGIC)) h)"

partial_function (option) lfree_walk :: "heap \<Rightarrow> rt_uint32_t \<Rightarrow> rt_uint32_t option" where
  "lfree_walk h p = (if hm_used (hdr h p) \<noteq> 0 \<and> p \<noteq> heap_end h then lfree_walk h (hm_next (hdr h p)) else Some p)"

text \<open>The part of \<^verbatim>\<open>rt_malloc\<close> that holds the semaphore, with the size it asks for; the result is the offset of the header.\<close>

definition malloc_size :: "rt_uint32_t \<Rightarrow> rt_uint32_t" where
  "malloc_size sz = (let sz = RT_ALIGN sz 4 in if sz < MIN_SIZE then MIN_SIZE else sz)"

definition malloc_locked :: "rt_uint32_t \<Rightarrow> heap \<Rightarrow> (rt_uint32_t option \<times> heap) option" where
  "malloc_locked sz h = do {
     r \<leftarrow> heap_scan sz h (lfree h);
     case r of
       None \<Rightarrow> Some (None, h)
     | Some ptr \<Rightarrow> do {
         let h = heap_take sz ptr h;
         h \<leftarrow> (if ptr = lfree h then do {
             l \<leftarrow> lfree_walk h (lfree h);
             RT_ASSERT (l = heap_end h \<or> hm_used (hdr h l) = 0);
             Some (h\<lparr>lfree := l\<rparr>)
           } else Some h);
         Some (Some ptr, h)
       }
   }"

text \<open>The part of \<^verbatim>\<open>rt_free\<close> that holds the semaphore, for the header at \<open>mem\<close>.\<close>

definition free_locked :: "rt_uint32_t \<Rightarrow> heap \<Rightarrow> heap option" where
  "free_locked mem h = do {
     RT_ASSERT (hm_used (hdr h mem) \<noteq> 0);
     RT_ASSERT (hm_magic (hdr h mem) = HEAP_MAGIC);
     let h = upd_hdr mem (\<lambda>m. m\<lparr>hm_used := 0, hm_magic := HEAP_MAGIC\<rparr>) h;
     let h = (if mem < lfree h then h\<lparr>lfree := mem\<rparr> else h);
     let h = h\<lparr>used_mem := used_mem h - (hm_next (hdr h mem) - mem)\<rparr>;
     plug_holes mem h
   }"

text \<open>The split of \<^verbatim>\<open>rt_realloc\<close>, which cuts the block at \<open>ptr\<close>, of \<open>sz\<close> bytes, down to \<open>newsize\<close>.\<close>

definition realloc_split :: "rt_uint32_t \<Rightarrow> rt_uint32_t \<Rightarrow> rt_uint32_t \<Rightarrow> heap \<Rightarrow> heap option" where
  "realloc_split ptr sz newsize h =
     (let nxt = hm_next (hdr h ptr);
          ptr2 = ptr + SIZEOF_STRUCT_MEM + newsize;
          h = h\<lparr>used_mem := used_mem h - (sz - newsize)\<rparr>;
          h = upd_hdr ptr2 (\<lambda>_. \<lparr>hm_magic = HEAP_MAGIC, hm_used = 0, hm_next = nxt, hm_prev = ptr\<rparr>) h;
          h = upd_hdr ptr (hm_next_update (\<lambda>_. ptr2)) h;
          h = (if nxt \<noteq> mem_size_aligned h + SIZEOF_STRUCT_MEM then upd_hdr nxt (hm_prev_update (\<lambda>_. ptr2)) h else h)
      in plug_holes ptr2 h)"

section \<open>Lists of blocks\<close>

text \<open>
  The heap seen as a list of blocks, each with its length, header included, and whether it is used. \<open>hchain\<close> says that the headers
  from offset \<open>p\<close> on, where \<open>a\<close> is the offset of the header before, are those of the list.
\<close>

type_synonym blocks = "(nat \<times> bool) list"

abbreviation span :: "blocks \<Rightarrow> nat" where
  "span bs \<equiv> sum_list (map fst bs)"

fun hchain :: "(nat \<Rightarrow> heap_mem) \<Rightarrow> nat \<Rightarrow> nat \<Rightarrow> blocks \<Rightarrow> bool" where
  "hchain m a p [] \<longleftrightarrow> True"
| "hchain m a p ((n, u) # bs) \<longleftrightarrow>
     m p = \<lparr>hm_magic = HEAP_MAGIC, hm_used = of_bool u, hm_next = of_nat (p + n), hm_prev = of_nat a\<rparr> \<and> hchain m p (p + n) bs"

fun free_offs :: "nat \<Rightarrow> blocks \<Rightarrow> nat set" where
  "free_offs p [] = {}"
| "free_offs p ((n, u) # bs) = (if u then {} else {p}) \<union> free_offs (p + n) bs"

fun used_exts :: "nat \<Rightarrow> blocks \<Rightarrow> (nat \<times> nat) set" where
  "used_exts p [] = {}"
| "used_exts p ((n, u) # bs) = (if u then {(p + 12, n - 12)} else {}) \<union> used_exts (p + n) bs"

definition sized :: "blocks \<Rightarrow> bool" where
  "sized bs \<longleftrightarrow> (\<forall>b \<in> set bs. 12 \<le> fst b \<and> fst b mod 4 = 0)"

lemma sized_simps [simp]:
  "sized []" "sized (b # bs) \<longleftrightarrow> 12 \<le> fst b \<and> fst b mod 4 = 0 \<and> sized bs" "sized (xs @ ys) \<longleftrightarrow> sized xs \<and> sized ys"
  by (auto simp: sized_def)

lemma hchain_append:
  "hchain m a p (xs @ ys) \<longleftrightarrow> hchain m a p xs \<and> hchain m (if xs = [] then a else p + span (butlast xs)) (p + span xs) ys"
  by (induction m a p xs rule: hchain.induct) (auto simp: add.assoc)

lemma hchain_upd [simp]:
  "sized bs \<Longrightarrow> q < p \<or> p + span bs \<le> q \<Longrightarrow> hchain (m(q := v)) a p bs = hchain m a p bs"
  by (induction m a p bs rule: hchain.induct) auto

lemma free_offs_append [simp]: "free_offs p (xs @ ys) = free_offs p xs \<union> free_offs (p + span xs) ys"
  by (induction xs arbitrary: p) (auto simp: add.assoc)

lemma used_exts_append [simp]: "used_exts p (xs @ ys) = used_exts p xs \<union> used_exts (p + span xs) ys"
  by (induction xs arbitrary: p) (auto simp: add.assoc)

lemma free_offs_range: "sized bs \<Longrightarrow> q \<in> free_offs p bs \<Longrightarrow> p \<le> q \<and> q < p + span bs"
  by (induction bs arbitrary: p) (fastforce split: if_splits)+

lemma used_exts_range: "sized bs \<Longrightarrow> (q, n) \<in> used_exts p bs \<Longrightarrow> p + 12 \<le> q \<and> q + n \<le> p + span bs"
  by (induction bs arbitrary: p) (fastforce split: if_splits)+

text \<open>
  The invariant. \<open>heap_core\<close>: the headers are those of the list \<open>bs\<close>, which fills the area, and the used bytes are counted right.
\<close>

definition heap_core :: "heap \<Rightarrow> blocks \<Rightarrow> bool" where
  "heap_core h bs \<longleftrightarrow> hchain (h_mem h) 0 0 bs \<and> bs \<noteq> [] \<and> sized bs \<and> span bs = unat (mem_size_aligned h) + 12 \<and>
     heap_end h = mem_size_aligned h + 12 \<and> hm_used (h_mem h (span bs)) = 1 \<and> heap_ptr h + span bs + 12 \<le> 2 ^ 32 \<and>
     0 < heap_ptr h \<and> heap_ptr h mod 4 = 0 \<and> used_mem h = of_nat (span (filter snd bs))"

lemma heap_coreD:
  assumes "heap_core h bs"
  shows "hchain (h_mem h) 0 0 bs" "bs \<noteq> []" "sized bs" "span bs = unat (mem_size_aligned h) + 12"
    "heap_end h = mem_size_aligned h + 12" "hm_used (h_mem h (span bs)) = 1" "heap_ptr h + span bs + 12 \<le> 2 ^ 32"
    "0 < heap_ptr h" "heap_ptr h mod 4 = 0" "used_mem h = of_nat (span (filter snd bs))"
  using assms unfolding heap_core_def by blast+

lemma heap_core_irrelevant [simp]:
  "heap_core (h\<lparr>lfree := x\<rparr>) bs = heap_core h bs" "heap_core (h\<lparr>h_bytes := m\<rparr>) bs = heap_core h bs"
  by (simp_all add: heap_core_def)

lemma offset_id:
  assumes "heap_core h bs" "q \<le> span bs"
  shows "unat (of_nat q :: rt_uint32_t) = q"
  using assms(2) heap_coreD(7) [OF assms(1)] by (simp add: unsigned_of_nat take_bit_nat_eq_self)

lemma heap_end_eq: "heap_core h bs \<Longrightarrow> heap_end h = of_nat (span bs)"
  by (simp add: heap_core_def)

lemma hchain_mid:
  "hchain m 0 0 (xs @ (n, u) # ys) \<longleftrightarrow> hchain m 0 0 xs \<and> hchain m (span xs) (span xs + n) ys \<and>
     m (span xs) = \<lparr>hm_magic = HEAP_MAGIC, hm_used = of_bool u, hm_next = of_nat (span xs + n), hm_prev = of_nat (span (butlast xs))\<rparr>"
  by (auto simp: hchain_append)

lemma hdr_mid:
  assumes "heap_core h (xs @ (n, u) # ys)"
  shows "hdr h (of_nat (span xs)) = \<lparr>hm_magic = HEAP_MAGIC, hm_used = of_bool u, hm_next = of_nat (span xs + n), hm_prev = of_nat (span (butlast xs))\<rparr>"
  using heap_coreD(1) [OF assms] offset_id [OF assms, of "span xs"] by (simp add: hchain_mid)

text \<open>Where the header of the next block gets a new predecessor.\<close>

lemma hchain_prev:
  "sized ys \<Longrightarrow> hchain m a p ys \<Longrightarrow> hchain (m(p := (m p)\<lparr>hm_prev := of_nat b\<rparr>)) b p ys"
  by (cases ys rule: list.exhaust; cases "hd ys") auto

section \<open>Searching\<close>

text \<open>The first block from \<open>p\<close> on that is free and large enough, as far as \<open>lim\<close>.\<close>

fun first_fit :: "nat \<Rightarrow> nat \<Rightarrow> nat \<Rightarrow> blocks \<Rightarrow> nat option" where
  "first_fit sz lim p [] = None"
| "first_fit sz lim p ((n, u) # bs) =
     (if p < lim then if \<not> u \<and> sz + 12 \<le> n then Some p else first_fit sz lim (p + n) bs else None)"

lemma next_minus: "12 \<le> n \<Longrightarrow> of_nat (p + n) - (of_nat p + 12) = (of_nat (n - 12) :: rt_uint32_t)"
  by (simp add: of_nat_diff)

lemma heap_scan_ok:
  assumes "heap_core h (xs @ ys)" "sz \<le> mem_size_aligned h"
  shows "heap_scan sz h (of_nat (span xs)) =
    Some (map_option of_nat (first_fit (unat sz) (unat (mem_size_aligned h) - unat sz) (span xs) ys))"
  using assms(1)
proof (induction ys arbitrary: xs)
  case Nil
  have u: "unat (of_nat (span xs) :: rt_uint32_t) = span xs" using offset_id [OF Nil, of "span xs"] by simp
  have "\<not> of_nat (span xs) < mem_size_aligned h - sz"
    using heap_coreD(4) [OF Nil] assms(2) u by (simp add: word_less_nat_alt unat_sub word_le_nat_alt)
  then show ?case by (subst heap_scan.simps) simp
next
  case (Cons b ys)
  obtain n u where b: "b = (n, u)" by (cases b)
  note c = Cons.prems [unfolded b]
  have u: "unat (of_nat (span xs) :: rt_uint32_t) = span xs" "unat (of_nat (n - 12) :: rt_uint32_t) = n - 12"
    by (rule offset_id [OF c], simp)+
  have n: "12 \<le> n" using heap_coreD(3) [OF c] by simp
  have lim: "of_nat (span xs) < mem_size_aligned h - sz \<longleftrightarrow> span xs < unat (mem_size_aligned h) - unat sz"
    using assms(2) u(1) by (simp add: word_less_nat_alt unat_sub word_le_nat_alt)
  have fits: "sz \<le> of_nat (span xs + n) - (of_nat (span xs) + 12) \<longleftrightarrow> unat sz + 12 \<le> n"
    unfolding next_minus [OF n] word_le_nat_alt u(2) using n by auto
  have ih: "heap_scan sz h (of_nat (span xs + n)) =
    Some (map_option of_nat (first_fit (unat sz) (unat (mem_size_aligned h) - unat sz) (span xs + n) ys))"
    using Cons.IH [of "xs @ [(n, u)]"] c by simp
  have "heap_scan sz h (of_nat (span xs)) = (if span xs < unat (mem_size_aligned h) - unat sz then
      if \<not> u \<and> unat sz + 12 \<le> n then Some (Some (of_nat (span xs))) else heap_scan sz h (of_nat (span xs + n)) else Some None)"
    by (subst heap_scan.simps) (simp only: hdr_mid [OF c] lim fits heap_mem.select_convs of_bool_eq_0_iff)
  then show ?case unfolding b by (simp add: ih del: of_nat_add)
qed

lemma first_fit_Some:
  "first_fit sz lim p bs = Some q \<Longrightarrow> \<exists>us n vs. bs = us @ (n, False) # vs \<and> q = p + span us \<and> sz + 12 \<le> n \<and> q < lim"
proof (induction sz lim p bs rule: first_fit.induct)
  case (2 sz lim p n u bs)
  show ?case
  proof (cases "p < lim \<and> \<not> u \<and> sz + 12 \<le> n")
    case True
    then show ?thesis using "2.prems" by (intro exI [of _ "[]"]) auto
  next
    case False
    then obtain us k vs where "bs = us @ (k, False) # vs" "q = p + n + span us" "sz + 12 \<le> k" "q < lim"
      using "2.IH" "2.prems" by (auto split: if_splits)
    then show ?thesis by (intro exI [of _ "(n, u) # us"]) auto
  qed
qed simp

lemma first_fit_None:
  "first_fit sz lim p (us @ (n, False) # vs) = None \<Longrightarrow> sz + 12 \<le> n \<Longrightarrow> lim \<le> p + span us"
  by (induction sz lim p us rule: first_fit.induct) (auto split: if_splits)

text \<open>The walk to the next free block.\<close>

fun first_free :: "nat \<Rightarrow> blocks \<Rightarrow> nat" where
  "first_free p [] = p"
| "first_free p ((n, u) # bs) = (if u then first_free (p + n) bs else p)"

lemma lfree_walk_ok:
  assumes "heap_core h (xs @ ys)"
  shows "lfree_walk h (of_nat (span xs)) = Some (of_nat (first_free (span xs) ys))"
  using assms
proof (induction ys arbitrary: xs)
  case Nil
  then show ?case using heap_end_eq [OF Nil] by (subst lfree_walk.simps) simp
next
  case (Cons b ys)
  obtain n u where b: "b = (n, u)" by (cases b)
  note c = Cons.prems [unfolded b]
  have "of_nat (span xs) \<noteq> heap_end h"
    using heap_end_eq [OF c] offset_id [OF c, of "span xs"] offset_id [OF c, of "span (xs @ (n, u) # ys)"] heap_coreD(3) [OF c]
    by (auto simp flip: word_unat_eq_iff)
  then have "lfree_walk h (of_nat (span xs)) = (if u then lfree_walk h (of_nat (span xs + n)) else Some (of_nat (span xs)))"
    by (subst lfree_walk.simps) (cases u; simp add: hdr_mid [OF c] del: of_nat_add)
  then show ?case using Cons.IH [of "xs @ [(n, u)]"] c unfolding b by simp
qed

lemma first_free_in: "first_free p bs \<in> insert (p + span bs) (free_offs p bs)"
  by (induction p bs rule: first_free.induct) (auto simp: add.assoc)

lemma first_free_least: "sized bs \<Longrightarrow> q \<in> free_offs p bs \<Longrightarrow> first_free p bs \<le> q"
  by (induction p bs rule: first_free.induct) (auto split: if_splits dest: free_offs_range)

section \<open>Taking a block\<close>

fun cut_block :: "nat \<Rightarrow> nat \<Rightarrow> blocks" where
  "cut_block sz n = (if sz + 36 \<le> n then [(sz + 12, True), (n - sz - 12, False)] else [(n, True)])"

lemma cut_simps [simp]:
  "span (cut_block sz n) = n" "free_offs p (cut_block sz n) = (if sz + 36 \<le> n then {p + (sz + 12)} else {})"
  by simp_all

declare cut_block.simps [simp del]

lemma hchain_cong:
  "sized bs \<Longrightarrow> (\<And>q. p \<le> q \<Longrightarrow> q < p + span bs \<Longrightarrow> m q = m' q) \<Longrightarrow> hchain m a p bs = hchain m' a p bs"
  by (induction m a p bs rule: hchain.induct) auto

text \<open>Cutting a block in two, the second part free.\<close>

definition split_hdr :: "nat \<Rightarrow> nat \<Rightarrow> nat \<Rightarrow> bool \<Rightarrow> blocks \<Rightarrow> (nat \<Rightarrow> heap_mem) \<Rightarrow> nat \<Rightarrow> heap_mem" where
  "split_hdr p n k v ys m =
     (let m = m(p + k := \<lparr>hm_magic = HEAP_MAGIC, hm_used = 0, hm_next = of_nat (p + n), hm_prev = of_nat p\<rparr>);
          m = m(p := (m p)\<lparr>hm_next := of_nat (p + k), hm_used := of_bool v\<rparr>)
      in if ys = [] then m else m(p + n := (m (p + n))\<lparr>hm_prev := of_nat (p + k)\<rparr>))"

lemma hchain_split:
  assumes "hchain m 0 0 (xs @ (n, u) # ys)" "sized (xs @ (n, u) # ys)" "12 \<le> k" "k + 12 \<le> n"
  shows "hchain (split_hdr (span xs) n k v ys m) 0 0 (xs @ (k, v) # (n - k, False) # ys)"
proof -
  let ?m = "split_hdr (span xs) n k v ys m"
  have s: "sized xs" "sized ys" using assms(2) by simp_all
  have c: "hchain m 0 0 xs" "hchain m (span xs) (span xs + n) ys" using assms(1) by (simp_all add: hchain_mid)
  have "hchain ?m (span xs + k) (span xs + n) ys"
  proof (cases "ys = []")
    case False
    have "hchain (m(span xs + n := (m (span xs + n))\<lparr>hm_prev := of_nat (span xs + k)\<rparr>)) (span xs + k) (span xs + n) ys"
      by (rule hchain_prev [OF s(2) c(2)])
    then show ?thesis
      by (rule hchain_cong [OF s(2), THEN iffD1, rotated]) (use assms(3,4) False in \<open>auto simp: split_hdr_def Let_def\<close>)
  qed simp
  moreover have "hchain ?m 0 0 xs"
    by (rule hchain_cong [OF s(1), THEN iffD1, rotated, OF c(1)]) (use assms(3,4) in \<open>auto simp: split_hdr_def Let_def\<close>)
  ultimately show ?thesis using assms(1,3,4) by (simp add: hchain_mid) (simp add: split_hdr_def Let_def)
qed

lemma split_hdr_behind: "k < n \<Longrightarrow> p + n \<le> x \<Longrightarrow> hm_used (split_hdr p n k v ys m x) = hm_used (m x)"
  by (simp add: split_hdr_def Let_def)

lemma sized_split: "sized (xs @ (n, u) # ys) \<Longrightarrow> 12 \<le> k \<Longrightarrow> k + 12 \<le> n \<Longrightarrow> k mod 4 = 0 \<Longrightarrow> sized (xs @ (k, v) # (n - k, w) # ys)"
  by (auto simp: mod_eq_0_iff_dvd)

lemma heap_take_sel [simp]:
  "lfree (heap_take sz p h) = lfree h" "heap_ptr (heap_take sz p h) = heap_ptr h" "heap_end (heap_take sz p h) = heap_end h"
  "mem_size_aligned (heap_take sz p h) = mem_size_aligned h" "h_bytes (heap_take sz p h) = h_bytes h"
  by (simp_all add: heap_take_def heap_stats_def Let_def)

lemma hchain_mark:
  assumes "hchain m 0 0 (xs @ (n, u) # ys)" "sized (xs @ (n, u) # ys)"
  shows "hchain (m(span xs := (m (span xs))\<lparr>hm_used := of_bool v\<rparr>)) 0 0 (xs @ (n, v) # ys)"
  using assms by (simp add: hchain_mid)

lemma heap_take_ok:
  assumes c: "heap_core h (xs @ (n, False) # ys)" and sz: "12 \<le> unat sz" "unat sz mod 4 = 0" "unat sz + 12 \<le> n"
  shows "heap_core (heap_take sz (of_nat (span xs)) h) (xs @ cut_block (unat sz) n @ ys)"
proof -
  let ?p = "span xs" and ?bs = "xs @ (n, False) # ys"
  note D = heap_coreD [OF c]
  have u: "unat (of_nat q :: rt_uint32_t) = q" if "q \<le> span ?bs" for q by (rule offset_id [OF c that])
  have n: "12 \<le> n" "sized xs" "sized ys" "n mod 4 = 0" using D(3) by simp_all
  have szw: "sz = of_nat (unat sz)" by simp
  have w: "of_nat (?p + n) - (of_nat ?p + 12) = (of_nat (n - 12) :: rt_uint32_t)" by (rule next_minus [OF n(1)])
  have "unat (of_nat (unat sz + 24) :: rt_uint32_t) = unat sz + 24"
    using D(7,8) sz(3) by (simp add: unsigned_of_nat take_bit_nat_eq_self del: of_nat_add)
  then have uz: "unat (sz + 12 + 12) = unat sz + 24" by (simp add: add.commute)
  have big: "sz + 12 + 12 \<le> of_nat (n - 12) \<longleftrightarrow> unat sz + 36 \<le> n"
    unfolding word_le_nat_alt uz using u [of "n - 12"] n by auto
  then have big': "24 + sz \<le> of_nat n - 12 \<longleftrightarrow> unat sz + 36 \<le> n" using n(1) by (simp add: of_nat_diff add.commute)
  have w': "of_nat (?p + n) - (of_nat ?p + 12) = (of_nat n - 12 :: rt_uint32_t)" by simp
  have e: "of_nat (?p + n) = mem_size_aligned h + 12 \<longleftrightarrow> ys = []"
    using word_unat_eq_iff [of "of_nat (?p + n)" "of_nat (span ?bs) :: rt_uint32_t"] u [of "?p + n"] u [of "span ?bs"]
      heap_end_eq [OF c] D(5) n(3) by (cases ys) auto
  have p: "hdr h (of_nat ?p) = \<lparr>hm_magic = HEAP_MAGIC, hm_used = 0, hm_next = of_nat (?p + n), hm_prev = of_nat (span (butlast xs))\<rparr>"
    using hdr_mid [OF c] by simp
  have up: "unat (of_nat ?p :: rt_uint32_t) = ?p" "unat (of_nat (?p + n) :: rt_uint32_t) = ?p + n" by (rule u, simp)+
  let ?h = "heap_take sz (of_nat ?p) h"
  show "heap_core ?h (xs @ cut_block (unat sz) n @ ys)"
  proof (cases "unat sz + 36 \<le> n")
    case True
    have p2: "of_nat ?p + 12 + sz = of_nat (?p + (unat sz + 12))" by simp
    have u2: "unat (of_nat (?p + (unat sz + 12)) :: rt_uint32_t) = ?p + (unat sz + 12)" using u [of "?p + (unat sz + 12)"] sz(3) by simp
    have m: "h_mem ?h = split_hdr ?p n (unat sz + 12) True ys (h_mem h)"
    proof (rule ext)
      fix x
      consider "x = ?p" | "x = ?p + (unat sz + 12)" | "x = ?p + n" | "x \<notin> {?p, ?p + (unat sz + 12), ?p + n}" by blast
      then show "h_mem ?h x = split_hdr ?p n (unat sz + 12) True ys (h_mem h) x"
        using True n(1) p up u2
        by cases (simp_all add: heap_take_def heap_stats_def split_hdr_def Let_def w' p2 big' e del: of_nat_add)
    qed
    have k: "(unat sz + 12) mod 4 = 0" using sz(2) by (simp add: mod_eq_0_iff_dvd)
    have um: "used_mem ?h = used_mem h + (sz + 12)"
      using True p by (simp add: heap_take_def heap_stats_def Let_def w' big' del: of_nat_add)
    show ?thesis
      using D True n hchain_split [OF D(1,3), of "unat sz + 12" True] sized_split [OF D(3), of "unat sz + 12" True False]
        split_hdr_behind [of "unat sz + 12" n ?p "span ?bs" True ys "h_mem h"] k
      by (simp add: heap_core_def m um cut_block.simps)
  next
    case False
    have m: "h_mem ?h = (h_mem h)(?p := (h_mem h ?p)\<lparr>hm_used := of_bool True\<rparr>)"
      using False p up by (simp add: heap_take_def heap_stats_def Let_def w' big' del: of_nat_add)
    have um: "used_mem ?h = used_mem h + of_nat n"
      using False p up by (simp add: heap_take_def heap_stats_def Let_def w' big')
    show ?thesis
      using D False n hchain_mark [OF D(1,3), of True] by (simp add: heap_core_def m um cut_block.simps)
  qed
qed

text \<open>
  Between the calls no two free blocks are neighbours, the last block is not empty, and \<open>lfree\<close> is a free block or the end of the heap. Most calls also keep it
  the lowest free block.
\<close>

definition tight :: "blocks \<Rightarrow> bool" where
  "tight bs \<longleftrightarrow> successively (\<lambda>a b. snd a \<or> snd b) bs"

definition heap_inv :: "heap \<Rightarrow> blocks \<Rightarrow> bool" where
  "heap_inv h bs \<longleftrightarrow> heap_core h bs \<and> tight bs \<and> 12 < fst (last bs) \<and> unat (lfree h) \<in> insert (span bs) (free_offs 0 bs)"

definition lfree_lowest :: "heap \<Rightarrow> blocks \<Rightarrow> bool" where
  "lfree_lowest h bs \<longleftrightarrow> (\<forall>q \<in> free_offs 0 bs. unat (lfree h) \<le> q)"

lemma free_offs_split: "q \<in> free_offs p bs \<Longrightarrow> \<exists>xs n ys. bs = xs @ (n, False) # ys \<and> q = p + span xs"
proof (induction bs arbitrary: p)
  case (Cons b bs)
  obtain n u where b: "b = (n, u)" by (cases b)
  show ?case
  proof (cases "q = p \<and> \<not> u")
    case True
    then show ?thesis unfolding b by (intro exI [of _ "[]"]) auto
  next
    case False
    then have "q \<in> free_offs (p + n) bs" using Cons.prems b by (auto split: if_splits)
    from Cons.IH [OF this] obtain xs k ys where "bs = xs @ (k, False) # ys" "q = p + n + span xs" by blast
    then show ?thesis unfolding b by (intro exI [of _ "(n, u) # xs"]) auto
  qed
qed simp

lemma hdr_free:
  assumes "heap_core h bs" "q \<in> free_offs 0 bs"
  shows "hm_used (hdr h (of_nat q)) = 0"
proof -
  obtain xs n ys where "bs = xs @ (n, False) # ys" "q = span xs" using free_offs_split [OF assms(2)] by auto
  then show ?thesis using hdr_mid [of h xs n False ys] assms(1) by simp
qed

lemma prefix_span:
  assumes "us @ vs = xs @ ys" "sized us" "span us \<le> span xs"
  obtains w where "xs = us @ w" "vs = w @ ys"
proof -
  obtain w where "us = xs @ w \<and> w @ vs = ys \<or> us @ w = xs \<and> vs = w @ ys" using assms(1) by (auto simp: append_eq_append_conv2)
  then show thesis
  proof
    assume a: "us = xs @ w \<and> w @ vs = ys"
    then have "w = []" using assms(2,3) by (cases w) auto
    then show thesis using a that [of "[]"] by simp
  qed (use that in auto)
qed

lemma tight_cut: "tight (xs @ (n, False) # ys) \<Longrightarrow> tight (xs @ cut_block sz n @ ys)"
  by (cases ys) (auto simp: cut_block.simps tight_def successively_append_iff successively_Cons)

lemma last_cut: "12 < fst (last (xs @ (n, u) # ys)) \<Longrightarrow> 12 < fst (last (xs @ cut_block sz n @ ys))"
  by (auto simp: cut_block.simps)

lemma malloc_locked_ok:
  assumes inv: "heap_inv h bs" and sz: "sz \<le> mem_size_aligned h" "12 \<le> unat sz" "unat sz mod 4 = 0"
  shows "ok (malloc_locked sz h) (\<lambda>(r, h').
    heap_ptr h' = heap_ptr h \<and> heap_end h' = heap_end h \<and> mem_size_aligned h' = mem_size_aligned h \<and> h_bytes h' = h_bytes h \<and>
    (case r of
       None \<Rightarrow> h' = h \<and> (lfree_lowest h bs \<longrightarrow>
         (\<forall>xs n ys. bs = xs @ (n, False) # ys \<and> unat sz + 12 \<le> n \<longrightarrow> unat (mem_size_aligned h) \<le> unat sz + span xs))
     | Some ptr \<Rightarrow> \<exists>xs n ys. bs = xs @ (n, False) # ys \<and> unat ptr = span xs \<and> unat sz + 12 \<le> n \<and>
         heap_inv h' (xs @ cut_block (unat sz) n @ ys) \<and> (lfree_lowest h bs \<longrightarrow> lfree_lowest h' (xs @ cut_block (unat sz) n @ ys))))"
proof -
  have c: "heap_core h bs" and tight: "tight bs" and lf: "unat (lfree h) \<in> insert (span bs) (free_offs 0 bs)"
    and last: "12 < fst (last bs)"
    using inv by (simp_all add: heap_inv_def)
  obtain us vs where uv: "bs = us @ vs" "unat (lfree h) = span us"
  proof (cases "unat (lfree h) = span bs")
    case True
    then show thesis using that [of bs "[]"] by simp
  next
    case False
    then show thesis using lf free_offs_split [of "unat (lfree h)" 0 bs] that by auto
  qed
  have l: "lfree h = of_nat (span us)" by (simp flip: uv(2))
  have s: "sized us" "sized vs" using heap_coreD(3) [OF c] uv(1) by simp_all
  let ?lim = "unat (mem_size_aligned h) - unat sz"
  have scan: "heap_scan sz h (lfree h) = Some (map_option of_nat (first_fit (unat sz) ?lim (span us) vs))"
    unfolding l using heap_scan_ok [of h us vs sz] c sz(1) uv(1) by simp
  show ?thesis
  proof (cases "first_fit (unat sz) ?lim (span us) vs")
    case None
    have "unat (mem_size_aligned h) \<le> unat sz + span xs"
      if a: "lfree_lowest h bs" "bs = xs @ (n, False) # ys" "unat sz + 12 \<le> n" for xs n ys
    proof -
      have "span us \<le> span xs" using a(1,2) uv(2) by (simp add: lfree_lowest_def)
      then obtain w where "xs = us @ w" "vs = w @ (n, False) # ys" using prefix_span [of us vs xs] uv(1) a(2) s(1) by metis
      then show ?thesis using first_fit_None [of "unat sz" ?lim "span us" w n ys] None a(3) by simp
    qed
    then show ?thesis by (auto simp: malloc_locked_def scan None ok_Some)
  next
    case (Some q)
    then obtain us2 n ys where q: "vs = us2 @ (n, False) # ys" "q = span us + span us2" "unat sz + 12 \<le> n" "q < ?lim"
      using first_fit_Some by blast
    define xs where "xs = us @ us2"
    have bs: "bs = xs @ (n, False) # ys" "q = span xs" using uv(1) q(1,2) by (simp_all add: xs_def)
    define h1 bs' where "h1 = heap_take sz (of_nat q) h" and "bs' = xs @ cut_block (unat sz) n @ ys"
    have la: "12 < fst (last bs')" using last_cut last bs(1) unfolding bs'_def by simp
    have c1: "heap_core h1 bs'" and t1: "tight bs'"
      using heap_take_ok [OF c [unfolded bs(1)] sz(2,3) q(3)] tight_cut tight bs by (simp_all add: h1_def bs'_def)
    have f1: "lfree h1 = lfree h" "heap_ptr h1 = heap_ptr h" "heap_end h1 = heap_end h" "mem_size_aligned h1 = mem_size_aligned h" "h_bytes h1 = h_bytes h"
      by (simp_all add: h1_def)
    have uq: "unat (of_nat q :: rt_uint32_t) = q" using offset_id [OF c, of q] bs by simp
    have fr: "free_offs 0 bs \<subseteq> insert q (free_offs 0 bs')" "x \<in> free_offs 0 bs' \<Longrightarrow> x \<in> free_offs 0 bs \<or> q < x" for x
      using bs(2) by (auto simp: bs(1) bs'_def split: if_splits)
    show ?thesis
    proof (cases "us2 = []")
      case True
      then have eq: "xs = us" "of_nat q = lfree h1" using bs(2) l f1(1) by (simp_all add: xs_def)
      define l' where "l' = first_free (span us) (cut_block (unat sz) n @ ys)"
      have w: "lfree_walk h1 (lfree h1) = Some (of_nat l')"
        using lfree_walk_ok [of h1 us "cut_block (unat sz) n @ ys"] c1 l f1(1) eq(1) by (simp add: bs'_def l'_def)
      have l1: "l' \<in> insert (span bs') (free_offs 0 bs')"
        using first_free_in [of "span us" "cut_block (unat sz) n @ ys"] eq(1) unfolding l'_def bs'_def by auto
      then have l2: "l' \<le> span bs'" using free_offs_range [OF heap_coreD(3) [OF c1], of l' 0] by auto
      have as: "of_nat l' = heap_end h1 \<or> hm_used (hdr h1 (of_nat l')) = 0"
        unfolding heap_end_eq [OF c1] using l1 hdr_free [OF c1, of l'] by (cases "l' = span bs'") auto
      have res: "malloc_locked sz h = Some (Some (of_nat q), h1\<lparr>lfree := of_nat l'\<rparr>)"
      proof -
        have "heap_take sz (lfree h1) h = h1" by (subst eq(2) [symmetric]) (rule h1_def [symmetric])
        then show ?thesis unfolding malloc_locked_def scan Some using as w by (simp add: Let_def eq(2) f1)
      qed
      have "heap_inv (h1\<lparr>lfree := of_nat l'\<rparr>) bs'"
        using c1 t1 la l1 offset_id [OF c1 l2] by (simp add: heap_inv_def)
      moreover have "lfree_lowest (h1\<lparr>lfree := of_nat l'\<rparr>) bs'" if "lfree_lowest h bs"
      proof -
        have "x \<notin> free_offs 0 us" for x
        proof
          assume x: "x \<in> free_offs 0 us"
          then have "unat (lfree h) \<le> x" using that uv(1) by (auto simp: lfree_lowest_def)
          then show False using free_offs_range [OF s(1) x] uv(2) by simp
        qed
        then show ?thesis
          using first_free_least [of "cut_block (unat sz) n @ ys" _ "span us"] heap_coreD(3) [OF c1] offset_id [OF c1 l2]
          by (auto simp: lfree_lowest_def bs'_def eq(1) simp flip: l'_def)
      qed
      ultimately show ?thesis using bs q(3) uq f1 by (auto simp: res ok_Some bs'_def)
    next
      case False
      then have lt: "span us < q" using s(2) q(1,2) by (cases us2) auto
      have ne: "of_nat q \<noteq> lfree h1" using lt uq uv(2) f1(1) by auto
      have res: "malloc_locked sz h = Some (Some (of_nat q), h1)"
        using ne by (simp add: malloc_locked_def scan Some Let_def flip: h1_def)
      have "unat (lfree h1) \<in> free_offs 0 bs'"
        using lf fr(1) lt bs uv(2) f1(1) by auto
      then have "heap_inv h1 bs'" using c1 t1 la by (simp add: heap_inv_def)
      moreover have "lfree_lowest h1 bs'" if "lfree_lowest h bs" using that fr(2) lt uv(2) f1(1) by (fastforce simp: lfree_lowest_def)
      ultimately show ?thesis using bs q(3) uq f1 by (auto simp: res ok_Some bs'_def)
    qed
  qed
qed

section \<open>Joining free blocks\<close>

definition join_hdr :: "nat \<Rightarrow> nat \<Rightarrow> nat \<Rightarrow> (nat \<Rightarrow> heap_mem) \<Rightarrow> nat \<Rightarrow> heap_mem" where
  "join_hdr p n k m =
     (let m = m(p := (m p)\<lparr>hm_next := of_nat (p + n + k)\<rparr>)
      in m(p + n + k := (m (p + n + k))\<lparr>hm_prev := of_nat p\<rparr>))"

lemma heap_join:
  assumes "heap_core h (xs @ (n, False) # (k, False) # ys)"
  shows "heap_core (h\<lparr>h_mem := join_hdr (span xs) n k (h_mem h)\<rparr>) (xs @ (n + k, False) # ys)"
proof -
  let ?p = "span xs" and ?m = "join_hdr (span xs) n k (h_mem h)"
  note D = heap_coreD [OF assms]
  have s: "sized xs" "sized ys" "12 \<le> n" "12 \<le> k" "(n + k) mod 4 = 0" using D(3) by (auto simp: mod_eq_0_iff_dvd)
  have c: "hchain (h_mem h) 0 0 xs" "hchain (h_mem h) (?p + n) (?p + n + k) ys"
    "h_mem h ?p = \<lparr>hm_magic = HEAP_MAGIC, hm_used = 0, hm_next = of_nat (?p + n), hm_prev = of_nat (span (butlast xs))\<rparr>"
    using D(1) by (simp_all add: hchain_mid)
  have "hchain ?m ?p (?p + n + k) ys"
    by (rule hchain_cong [OF s(2), THEN iffD1, rotated, OF hchain_prev [OF s(2) c(2)]]) (use s in \<open>auto simp: join_hdr_def Let_def\<close>)
  moreover have "hchain ?m 0 0 xs"
    by (rule hchain_cong [OF s(1), THEN iffD1, rotated, OF c(1)]) (use s in \<open>auto simp: join_hdr_def Let_def\<close>)
  moreover have "?m ?p = \<lparr>hm_magic = HEAP_MAGIC, hm_used = 0, hm_next = of_nat (?p + (n + k)), hm_prev = of_nat (span (butlast xs))\<rparr>"
    using s(3,4) c(3) by (simp add: join_hdr_def Let_def add.assoc)
  moreover have "hm_used (?m x) = hm_used (h_mem h x)" for x by (simp add: join_hdr_def Let_def)
  ultimately show ?thesis
    using D s by (simp add: heap_core_def hchain_mid add.assoc)
qed

text \<open>What \<open>plug_next\<close> and \<open>plug_prev\<close> make of a list of blocks.\<close>

fun merge_next :: "nat \<Rightarrow> blocks \<Rightarrow> blocks" where
  "merge_next n ((k, False) # ys) = (n + k, False) # ys"
| "merge_next n ys = (n, False) # ys"

definition merge_prev :: "blocks \<Rightarrow> nat \<Rightarrow> blocks \<Rightarrow> blocks" where
  "merge_prev xs n ys = (if xs \<noteq> [] \<and> \<not> snd (last xs) then butlast xs @ (fst (last xs) + n, False) # ys else xs @ (n, False) # ys)"

lemma plug_next_ok:
  assumes c: "heap_core h (xs @ (n, False) # ys)" and mem: "mem = of_nat (span xs)"
  shows "\<exists>h'. plug_next mem h = h'\<lparr>lfree := if \<exists>k zs. ys = (k, False) # zs \<and> lfree h = of_nat (span xs + n) then mem else lfree h\<rparr> \<and>
    heap_core h' (xs @ merge_next n ys) \<and> heap_ptr h' = heap_ptr h \<and> heap_end h' = heap_end h \<and> mem_size_aligned h' = mem_size_aligned h \<and>
    h_bytes h' = h_bytes h \<and> used_mem h' = used_mem h \<and> max_mem h' = max_mem h"
proof -
  let ?p = "span xs"
  note D = heap_coreD [OF c]
  have u: "unat (of_nat q :: rt_uint32_t) = q" if "q \<le> span (xs @ (n, False) # ys)" for q by (rule offset_id [OF c that])
  have up: "unat mem = ?p" "unat (of_nat (?p + n) :: rt_uint32_t) = ?p + n" using u [of ?p] u [of "?p + n"] mem by simp_all
  have nx: "hm_next (h_mem h ?p) = of_nat (?p + n)" using D(1) by (simp add: hchain_mid)
  have pos: "12 \<le> n" using D(3) by simp
  then have ne: "mem \<noteq> of_nat (?p + n)" using up by auto
  show ?thesis
  proof (cases "\<exists>k zs. ys = (k, False) # zs")
    case True
    then obtain k zs where ys: "ys = (k, False) # zs" by blast
    have kk: "12 \<le> k" using D(3) ys by simp
    have uk: "unat (of_nat (?p + n + k) :: rt_uint32_t) = ?p + n + k" by (rule u) (simp add: ys)
    have hn: "hm_used (h_mem h (?p + n)) = 0" "hm_next (h_mem h (?p + n)) = of_nat (?p + n + k)"
      using D(1) by (simp_all add: hchain_mid ys)
    have en: "of_nat (?p + n) \<noteq> heap_end h"
      using heap_end_eq [OF c] up(2) u [of "span (xs @ (n, False) # ys)"] kk ys by (auto simp del: of_nat_add)
    let ?h = "h\<lparr>h_mem := join_hdr ?p n k (h_mem h)\<rparr>"
    have "plug_next mem h = ?h\<lparr>lfree := if lfree h = of_nat (?p + n) then mem else lfree h\<rparr>"
      unfolding plug_next_def Let_def up(1) nx up(2) heap.simps
      using ne pos en hn uk by (cases "lfree h = of_nat (?p + n)") (simp_all add: join_hdr_def Let_def up(1) mem [symmetric] del: of_nat_add)
    then show ?thesis using heap_join [OF c [unfolded ys]] by (intro exI [of _ ?h]) (simp add: ys)
  next
    case False
    have "hm_used (h_mem h (?p + n)) \<noteq> 0"
    proof (cases ys)
      case Nil
      then show ?thesis using D(6) by simp
    next
      case (Cons b zs)
      then obtain k where "ys = (k, True) # zs" using False by (cases b) auto
      then show ?thesis using D(1) by (simp add: hchain_mid)
    qed
    then have "plug_next mem h = h" by (simp add: plug_next_def Let_def up nx del: of_nat_add)
    moreover have "merge_next n ys = (n, False) # ys" using False by (cases "(n, ys)" rule: merge_next.cases) auto
    ultimately show ?thesis using c False by (intro exI [of _ h]) simp
  qed
qed

lemma plug_prev_ok:
  assumes c: "heap_core h (xs @ (n, False) # ys)" and mem: "mem = of_nat (span xs)"
  shows "\<exists>h'. plug_prev mem h = h'\<lparr>lfree := if xs \<noteq> [] \<and> \<not> snd (last xs) \<and> lfree h = mem then of_nat (span (butlast xs)) else lfree h\<rparr> \<and>
    heap_core h' (merge_prev xs n ys) \<and> heap_ptr h' = heap_ptr h \<and> heap_end h' = heap_end h \<and> mem_size_aligned h' = mem_size_aligned h \<and>
    h_bytes h' = h_bytes h \<and> used_mem h' = used_mem h \<and> max_mem h' = max_mem h"
proof -
  let ?p = "span xs" and ?q = "span (butlast xs)"
  note D = heap_coreD [OF c]
  have u: "unat (of_nat q :: rt_uint32_t) = q" if "q \<le> span (xs @ (n, False) # ys)" for q by (rule offset_id [OF c that])
  have up: "unat mem = ?p" "unat (of_nat (?p + n) :: rt_uint32_t) = ?p + n" using u [of ?p] u [of "?p + n"] mem by simp_all
  have hm: "hm_next (h_mem h ?p) = of_nat (?p + n)" "hm_prev (h_mem h ?p) = of_nat ?q" using D(1) by (simp_all add: hchain_mid)
  show ?thesis
  proof (cases "xs = []")
    case True
    then have "plug_prev mem h = h" using hm(2) mem up by (simp add: plug_prev_def Let_def)
    then show ?thesis using c True by (intro exI [of _ h]) (simp add: merge_prev_def)
  next
    case False
    then obtain ws k v where xs: "xs = ws @ [(k, v)]" by (cases xs rule: rev_cases) auto
    have kk: "12 \<le> k" using D(3) xs by simp
    have uq: "unat (of_nat (span ws) :: rt_uint32_t) = span ws" by (rule u) (simp add: xs)
    have v: "hm_used (h_mem h (span ws)) = of_bool v" using D(1) by (simp add: xs hchain_mid)
    have ne: "of_nat (span ws) \<noteq> mem" using up uq kk xs by auto
    show ?thesis
    proof (cases v)
      case True
      then have "plug_prev mem h = h" using hm(2) uq v xs by (simp add: plug_prev_def Let_def up)
      then show ?thesis using c True xs by (intro exI [of _ h]) (simp add: merge_prev_def)
    next
      case False
      let ?h = "h\<lparr>h_mem := join_hdr (span ws) k n (h_mem h)\<rparr>"
      have f: "unat mem = span ws + k" "unat (of_nat (span ws + k + n) :: rt_uint32_t) = span ws + k + n"
        "hm_next (h_mem h (span ws + k)) = of_nat (span ws + k + n)" "hm_prev (h_mem h (span ws + k)) = of_nat (span ws)"
        using up hm xs by (simp_all add: add.assoc del: of_nat_add)
      have m: "hm_used (h_mem h (span ws)) = 0" using v False by simp
      have "plug_prev mem h = ?h\<lparr>lfree := if lfree h = mem then of_nat (span ws) else lfree h\<rparr>"
        unfolding plug_prev_def Let_def f
        using ne uq m kk by (cases "lfree h = mem") (simp_all add: join_hdr_def Let_def f del: of_nat_add)
      moreover have "heap_core ?h (ws @ (k + n, False) # ys)" by (rule heap_join) (use c xs False in simp)
      ultimately show ?thesis using xs False by (intro exI [of _ ?h]) (simp add: merge_prev_def)
    qed
  qed
qed

lemma merge_next_free:
  fixes q n :: nat and xs ys :: blocks
  defines "q' \<equiv> if (\<exists>k zs. ys = (k, False) # zs) \<and> q = span xs + n then span xs else q"
  shows "q \<in> insert e (free_offs 0 (xs @ (n, False) # ys)) \<Longrightarrow> q' \<in> insert e (free_offs 0 (xs @ merge_next n ys))"
    "\<forall>x \<in> free_offs 0 (xs @ (n, False) # ys). q \<le> x \<Longrightarrow> \<forall>x \<in> free_offs 0 (xs @ merge_next n ys). q' \<le> x"
  unfolding q'_def by (cases "(n, ys)" rule: merge_next.cases; auto simp: add.assoc)+

lemma merge_prev_free:
  fixes q n :: nat and xs ys :: blocks
  defines "q' \<equiv> if xs \<noteq> [] \<and> \<not> snd (last xs) \<and> q = span xs then span (butlast xs) else q"
  shows "q \<in> insert e (free_offs 0 (xs @ (n, False) # ys)) \<Longrightarrow> q' \<in> insert e (free_offs 0 (merge_prev xs n ys))"
    "\<forall>x \<in> free_offs 0 (xs @ (n, False) # ys). q \<le> x \<Longrightarrow> \<forall>x \<in> free_offs 0 (merge_prev xs n ys). q' \<le> x"
  unfolding q'_def by (cases xs rule: rev_cases; auto simp: merge_prev_def add.assoc)+

lemma merge_next_exts [simp]: "used_exts p (merge_next n ys) = used_exts p ((n, False) # ys)" "span (merge_next n ys) = n + span ys"
  by (cases "(n, ys)" rule: merge_next.cases; simp add: add.assoc)+

lemma merge_prev_exts [simp]: "used_exts p (merge_prev xs n ys) = used_exts p (xs @ (n, False) # ys)" "span (merge_prev xs n ys) = span xs + n + span ys"
  by (cases xs rule: rev_cases; auto simp: merge_prev_def add.assoc)+

text \<open>The list of blocks that \<open>plug_holes\<close> leaves.\<close>

fun plugged :: "blocks \<Rightarrow> blocks \<Rightarrow> blocks" where
  "plugged xs ((n, u) # ys) = merge_prev xs n ys"
| "plugged xs [] = xs"

lemma merge_next_Cons: "\<exists>k zs. merge_next n ys = (k, False) # zs"
  by (cases "(n, ys)" rule: merge_next.cases) auto

lemma tight_plugged: "tight xs \<Longrightarrow> tight ys \<Longrightarrow> tight (plugged xs (merge_next n ys))"
  by (cases xs rule: rev_cases; cases "(n, ys)" rule: merge_next.cases)
    (auto simp: tight_def merge_prev_def successively_append_iff successively_Cons)

lemma last_plugged: "12 < fst (last (xs @ (n, u) # ys)) \<Longrightarrow> 12 < fst (last (plugged xs (merge_next n ys)))"
  by (cases "(n, ys)" rule: merge_next.cases) (auto simp: merge_prev_def split: if_splits)

lemma plug_holes_ok:
  assumes c: "heap_core h (xs @ (n, False) # ys)" and t: "tight xs" "tight ys" and la: "12 < fst (last (xs @ (n, False) # ys))"
    and lf: "unat (lfree h) \<in> insert (span (xs @ (n, False) # ys)) (free_offs 0 (xs @ (n, False) # ys))"
  shows "ok (plug_holes (of_nat (span xs)) h) (\<lambda>h'. heap_inv h' (plugged xs (merge_next n ys)) \<and>
    (lfree_lowest h (xs @ (n, False) # ys) \<longrightarrow> lfree_lowest h' (plugged xs (merge_next n ys))) \<and>
    heap_ptr h' = heap_ptr h \<and> heap_end h' = heap_end h \<and> mem_size_aligned h' = mem_size_aligned h \<and>
    h_bytes h' = h_bytes h \<and> used_mem h' = used_mem h \<and> max_mem h' = max_mem h)"
proof -
  let ?bs = "xs @ (n, False) # ys" and ?mem = "of_nat (span xs) :: rt_uint32_t"
  obtain k zs where mn: "merge_next n ys = (k, False) # zs" using merge_next_Cons by blast
  obtain h1 where h1: "plug_next ?mem h = h1\<lparr>lfree := if \<exists>k zs. ys = (k, False) # zs \<and> lfree h = of_nat (span xs + n) then ?mem else lfree h\<rparr>"
    "heap_core h1 (xs @ merge_next n ys)" "heap_ptr h1 = heap_ptr h" "heap_end h1 = heap_end h" "mem_size_aligned h1 = mem_size_aligned h"
    "h_bytes h1 = h_bytes h" "used_mem h1 = used_mem h" "max_mem h1 = max_mem h"
    using plug_next_ok [OF c refl] by blast
  define h2 where "h2 = plug_next ?mem h"
  have c2: "heap_core h2 (xs @ (k, False) # zs)" using h1(2) mn by (simp add: h2_def h1(1))
  obtain h3 where h3: "plug_prev ?mem h2 = h3\<lparr>lfree := if xs \<noteq> [] \<and> \<not> snd (last xs) \<and> lfree h2 = ?mem then of_nat (span (butlast xs)) else lfree h2\<rparr>"
    "heap_core h3 (merge_prev xs k zs)" "heap_ptr h3 = heap_ptr h2" "heap_end h3 = heap_end h2" "mem_size_aligned h3 = mem_size_aligned h2"
    "h_bytes h3 = h_bytes h2" "used_mem h3 = used_mem h2" "max_mem h3 = max_mem h2"
    using plug_prev_ok [OF c2 refl] by blast
  have u: "unat (of_nat q :: rt_uint32_t) = q" if "q \<le> span ?bs" for q by (rule offset_id [OF c that])
  have l2: "unat (lfree h2) = (if (\<exists>k zs. ys = (k, False) # zs) \<and> unat (lfree h) = span xs + n then span xs else unat (lfree h))"
    using u [of "span xs"] u [of "span xs + n"] by (auto simp: h2_def h1(1) word_unat_eq_iff simp del: of_nat_add)
  have "span (butlast xs) \<le> span xs" by (cases xs rule: rev_cases) auto
  then have l3: "unat (lfree (plug_prev ?mem h2)) = (if xs \<noteq> [] \<and> \<not> snd (last xs) \<and> unat (lfree h2) = span xs then span (butlast xs) else unat (lfree h2))"
    using u [of "span xs"] u [of "span (butlast xs)"] by (auto simp: h3(1) word_unat_eq_iff)
  have e: "of_nat (span xs) < heap_end h"
    using heap_end_eq [OF c] u [of "span xs"] u [of "span ?bs"] heap_coreD(3) [OF c] by (simp add: word_less_nat_alt del: of_nat_add)
  have pl: "plugged xs (merge_next n ys) = merge_prev xs k zs" by (simp add: mn)
  have sp: "span (xs @ (k, False) # zs) = span ?bs" "span (merge_prev xs k zs) = span ?bs"
    using merge_next_exts(2) [of n ys] by (simp_all add: mn)
  have inv: "heap_inv (plug_prev ?mem h2) (merge_prev xs k zs)"
    unfolding heap_inv_def
  proof (intro conjI)
    show "heap_core (plug_prev ?mem h2) (merge_prev xs k zs)" using h3(2) by (simp add: h3(1))
    show "12 < fst (last (merge_prev xs k zs))" using last_plugged [OF la] pl by simp
    show "tight (merge_prev xs k zs)" using tight_plugged [OF t, of n] pl by simp
    show "unat (lfree (plug_prev ?mem h2)) \<in> insert (span (merge_prev xs k zs)) (free_offs 0 (merge_prev xs k zs))"
      unfolding sp(2) l3 by (rule merge_prev_free(1)) (unfold l2 mn [symmetric], rule merge_next_free(1) [OF lf])
  qed
  have low: "lfree_lowest (plug_prev ?mem h2) (merge_prev xs k zs)" if "lfree_lowest h ?bs"
    using that unfolding lfree_lowest_def l3
    by (intro merge_prev_free(2)) (unfold l2 mn [symmetric], rule merge_next_free(2))
  show ?thesis
    using inv low e hdr_mid [OF c] h3 h1 unfolding pl plug_holes_def by (simp add: okr flip: h2_def)
qed

section \<open>Freeing and shrinking\<close>

lemma tight_parts: "tight (xs @ b # ys) \<Longrightarrow> tight xs" "tight (xs @ b # ys) \<Longrightarrow> tight ys"
  by (auto simp: tight_def successively_append_iff successively_Cons)

lemma heap_core_mark:
  assumes "heap_core h (xs @ (n, True) # ys)"
  shows "heap_core (h\<lparr>h_mem := (h_mem h)(span xs := (h_mem h (span xs))\<lparr>hm_used := 0\<rparr>), used_mem := used_mem h - of_nat n\<rparr>) (xs @ (n, False) # ys)"
proof -
  note D = heap_coreD [OF assms]
  show ?thesis using D hchain_mark [OF D(1,3), of False] by (simp add: heap_core_def)
qed

lemma free_locked_ok:
  assumes inv: "heap_inv h (xs @ (n, True) # ys)"
  shows "ok (free_locked (of_nat (span xs)) h) (\<lambda>h'. heap_inv h' (plugged xs (merge_next n ys)) \<and>
    (lfree_lowest h (xs @ (n, True) # ys) \<longrightarrow> lfree_lowest h' (plugged xs (merge_next n ys))) \<and>
    heap_ptr h' = heap_ptr h \<and> heap_end h' = heap_end h \<and> mem_size_aligned h' = mem_size_aligned h \<and>
    h_bytes h' = h_bytes h \<and> max_mem h' = max_mem h)"
proof -
  let ?p = "span xs" and ?mem = "of_nat (span xs) :: rt_uint32_t" and ?bs = "xs @ (n, True) # ys" and ?bs1 = "xs @ (n, False) # ys"
  have c: "heap_core h ?bs" and ti: "tight ?bs" and lf: "unat (lfree h) \<in> insert (span ?bs) (free_offs 0 ?bs)"
    using inv by (simp_all add: heap_inv_def)
  have up: "unat ?mem = ?p" by (rule offset_id [OF c]) simp
  have hm: "h_mem h ?p = \<lparr>hm_magic = HEAP_MAGIC, hm_used = 1, hm_next = of_nat (?p + n), hm_prev = of_nat (span (butlast xs))\<rparr>"
    using heap_coreD(1) [OF c] by (simp add: hchain_mid)
  let ?h0 = "h\<lparr>h_mem := (h_mem h)(?p := (h_mem h ?p)\<lparr>hm_used := 0\<rparr>), used_mem := used_mem h - of_nat n\<rparr>"
  let ?h1 = "?h0\<lparr>lfree := if ?mem < lfree h then ?mem else lfree h\<rparr>"
  have eq: "free_locked ?mem h = plug_holes ?mem ?h1"
    using hm up by (cases h) (simp add: free_locked_def Let_def)
  have la: "12 < fst (last ?bs1)" using inv by (auto simp: heap_inv_def split: if_splits)
  have c1: "heap_core ?h1 ?bs1" using heap_core_mark [OF c] by simp
  have l1: "unat (lfree ?h1) = (if ?p < unat (lfree h) then ?p else unat (lfree h))" using up by (simp add: word_less_nat_alt)
  have f1: "unat (lfree ?h1) \<in> insert (span ?bs1) (free_offs 0 ?bs1)" unfolding l1 using lf by auto
  have low: "lfree_lowest ?h1 ?bs1" if "lfree_lowest h ?bs"
    using that unfolding lfree_lowest_def l1 by (auto simp: ball_Un less_imp_le dest: bspec intro: order.trans [OF less_imp_le])
  show ?thesis
    unfolding eq by (rule ok_mono [OF plug_holes_ok [OF c1 tight_parts [OF ti] la f1]]) (use low in auto)
qed

lemma heap_coreD_end: "heap_core h bs \<Longrightarrow> unat (heap_end h) = span bs"
  using heap_end_eq offset_id [of h bs "span bs"] by simp

lemma plug_holes_between:
  assumes c: "heap_core h (xs @ (k, True) # (n, False) # (j, True) # ys)" and q: "q = span xs + k"
  shows "ok (plug_holes (of_nat q) h) (\<lambda>h'. lfree h' = lfree h)"
proof -
  let ?ws = "xs @ [(k, True)]"
  have c': "heap_core h (?ws @ (n, False) # (j, True) # ys)" using c by simp
  have m: "(of_nat q :: rt_uint32_t) = of_nat (span ?ws)" using q by simp
  obtain h1 where h1: "plug_next (of_nat q) h = h1\<lparr>lfree := lfree h\<rparr>" "heap_core h1 (?ws @ (n, False) # (j, True) # ys)"
    "heap_end h1 = heap_end h"
    using plug_next_ok [OF c' m] by auto
  have c1: "heap_core (h1\<lparr>lfree := lfree h\<rparr>) (?ws @ (n, False) # (j, True) # ys)" using h1(2) by simp
  obtain h2 where h2: "plug_prev (of_nat q) (h1\<lparr>lfree := lfree h\<rparr>) = h2\<lparr>lfree := lfree h\<rparr>"
    using plug_prev_ok [OF c1 m] by auto
  have u: "unat (of_nat q :: rt_uint32_t) = q" using offset_id [OF c, of q] q by simp
  have s: "12 \<le> n" using heap_coreD(3) [OF c] by simp
  have "of_nat q < heap_end h"
    using u heap_coreD_end [OF c] q s by (simp add: word_less_nat_alt)
  moreover have "hm_used (hdr h (of_nat q)) = 0" using hdr_mid [OF c'] m by simp
  ultimately show ?thesis by (simp add: plug_holes_def ok_Some h1(1) h2)
qed

lemma realloc_split_ok:
  assumes inv: "heap_inv h (xs @ (n, True) # ys)" and k: "unat newsize mod 4 = 0" "unat newsize + 24 < n"
  shows "ok (realloc_split (of_nat (span xs)) (of_nat (n - 12)) newsize h) (\<lambda>h'.
    heap_inv h' (xs @ (unat newsize + 12, True) # merge_next (n - (unat newsize + 12)) ys) \<and>
    (\<forall>j zs. ys = (j, True) # zs \<longrightarrow> lfree h' = lfree h) \<and> heap_ptr h' = heap_ptr h \<and> heap_end h' = heap_end h \<and> mem_size_aligned h' = mem_size_aligned h \<and>
    h_bytes h' = h_bytes h \<and> max_mem h' = max_mem h)"
proof -
  let ?p = "span xs" and ?mem = "of_nat (span xs) :: rt_uint32_t" and ?bs = "xs @ (n, True) # ys" and ?k = "unat newsize + 12"
  let ?bs1 = "(xs @ [(?k, True)]) @ (n - ?k, False) # ys"
  have c: "heap_core h ?bs" and ti: "tight ?bs" and lf: "unat (lfree h) \<in> insert (span ?bs) (free_offs 0 ?bs)"
    using inv by (simp_all add: heap_inv_def)
  note D = heap_coreD [OF c]
  have u: "unat (of_nat q :: rt_uint32_t) = q" if "q \<le> span ?bs" for q by (rule offset_id [OF c that])
  have up: "unat ?mem = ?p" "unat (of_nat (?p + n) :: rt_uint32_t) = ?p + n" "unat (of_nat (?p + ?k) :: rt_uint32_t) = ?p + ?k"
    by (rule u, use k in simp)+
  have hm: "h_mem h ?p = \<lparr>hm_magic = HEAP_MAGIC, hm_used = 1, hm_next = of_nat (?p + n), hm_prev = of_nat (span (butlast xs))\<rparr>"
    using D(1) by (simp add: hchain_mid)
  have p2: "?mem + 12 + newsize = of_nat (?p + ?k)" by simp
  have e: "of_nat (?p + n) = mem_size_aligned h + 12 \<longleftrightarrow> ys = []"
    using word_unat_eq_iff [of "of_nat (?p + n)" "of_nat (span ?bs) :: rt_uint32_t"] u [of "?p + n"] u [of "span ?bs"]
      heap_end_eq [OF c] D(5,3) by (cases ys) auto
  let ?h1 = "h\<lparr>used_mem := used_mem h - (of_nat (n - 12) - newsize), h_mem := split_hdr ?p n ?k True ys (h_mem h)\<rparr>"
  have eq: "realloc_split ?mem (of_nat (n - 12)) newsize h = plug_holes (of_nat (span (xs @ [(?k, True)]))) ?h1"
    using hm up k(2) by (simp add: realloc_split_def split_hdr_def Let_def p2 e del: of_nat_add)
  have km: "?k mod 4 = 0" using k(1) by (simp add: mod_eq_0_iff_dvd)
  have um: "of_nat (n - 12) - newsize = (of_nat n - of_nat ?k :: rt_uint32_t)" using k(2) by (simp add: of_nat_diff)
  have la: "12 < fst (last ?bs1)" using inv k by (auto simp: heap_inv_def)
  have c1: "heap_core ?h1 ?bs1"
    using D k(2) hchain_split [OF D(1,3), of ?k True] sized_split [OF D(3), of ?k True False]
      split_hdr_behind [of ?k n ?p "span ?bs" True ys "h_mem h"] km
    by (simp add: heap_core_def um)
  have t1: "tight (xs @ [(?k, True)])" "tight ys" using ti by (auto simp: tight_def successively_append_iff successively_Cons)
  have f1: "unat (lfree ?h1) \<in> insert (span ?bs1) (free_offs 0 ?bs1)" using lf k by auto
  have keep: "ok (plug_holes (of_nat (span (xs @ [(?k, True)]))) ?h1) (\<lambda>h'. \<forall>j zs. ys = (j, True) # zs \<longrightarrow> lfree h' = lfree h)"
  proof (cases "\<exists>j zs. ys = (j, True) # zs")
    case True
    then obtain j zs where ys: "ys = (j, True) # zs" by blast
    from c1 have "heap_core ?h1 (xs @ (?k, True) # (n - ?k, False) # (j, True) # zs)" by (simp add: ys)
    from plug_holes_between [OF this refl] show ?thesis by (simp add: ys del: of_nat_add)
  next
    case False
    show ?thesis by (rule ok_mono [OF plug_holes_ok [OF c1 t1 la f1]]) (use False in blast)
  qed
  have pl: "plugged (xs @ [(?k, True)]) (merge_next (n - ?k) ys) = xs @ (?k, True) # merge_next (n - ?k) ys"
    using merge_next_Cons [of "n - ?k" ys] by (auto simp: merge_prev_def)
  show ?thesis
    unfolding eq by (rule ok_mono [OF ok_conj [OF plug_holes_ok [OF c1 t1 la f1] keep]]) (simp add: pl)
qed

end
