(* ===== verification/HeapCalls.thy ===== *)
theory HeapCalls
  imports Semaphore Heap
begin

text \<open>
  The calls of the heap, \<^verbatim>\<open>src/mem.c\<close>: each holds the semaphore \<open>heap_sem\<close> while it works on the list of blocks.
\<close>

section \<open>The calls\<close>

definition heap_sem :: nat where "heap_sem = 8"

text \<open>
  A call is done, or it waits for the semaphore; then it is continued in the state in which its thread is resumed.
\<close>

datatype 'a task = Done 'a | Pending "kstate \<times> heap \<Rightarrow> ('a task \<times> kstate \<times> heap) option"

type_synonym 'a act = "kstate \<times> heap \<Rightarrow> ('a task \<times> kstate \<times> heap) option"

definition heap_enter :: "'a act \<Rightarrow> 'a act" where
  "heap_enter k = (\<lambda>(s, h). do {
     let t = rt_thread_self s;
     (r, s) \<leftarrow> rt_sem_take heap_sem (- 1) s;
     case r of
       Returned _ \<Rightarrow> k (s, h)
     | Waiting \<Rightarrow> Some (Pending (\<lambda>(s, h). k (snd (rt_sem_take_resume heap_sem t s), h)), s, h)
   })"

definition heap_leave :: "'a act \<Rightarrow> 'a act" where
  "heap_leave k = (\<lambda>(s, h). do {
     s \<leftarrow> rt_sem_release heap_sem s;
     k (s, h)
   })"

definition rt_malloc_then :: "rt_uint32_t \<Rightarrow> (nat \<Rightarrow> 'a act) \<Rightarrow> 'a act" where
  "rt_malloc_then sz k = (\<lambda>(s, h). do {
     RT_DEBUG_NOT_IN_INTERRUPT s;
     if sz = 0 then k RT_NULL (s, h)
     else if mem_size_aligned h < RT_ALIGN sz 4 then k RT_NULL (s, h)
     else heap_enter (\<lambda>(s, h). do {
       let sz = malloc_size sz;
       (r, h) \<leftarrow> malloc_locked sz h;
       heap_leave (\<lambda>(s, h).
         case r of
           None \<Rightarrow> k RT_NULL (s, h)
         | Some ptr \<Rightarrow> do {
             let mem = heap_ptr h + unat ptr;
             RT_ASSERT (of_nat mem + SIZEOF_STRUCT_MEM + sz \<le> of_nat (heap_ptr h + unat (heap_end h)));
             RT_ASSERT ((mem + 12) mod 4 = 0);
             RT_ASSERT ((of_nat mem :: rt_uint32_t) AND 3 = 0);
             k (mem + 12) (emit (Hook_malloc (mem + 12) sz) s, h)
           }) (s, h)
     }) (s, h)
   })"

definition rt_free_then :: "nat \<Rightarrow> 'a act \<Rightarrow> 'a act" where
  "rt_free_then rmem k = (\<lambda>(s, h). do {
     RT_DEBUG_NOT_IN_INTERRUPT s;
     if rmem = RT_NULL then k (s, h)
     else do {
       RT_ASSERT ((of_nat rmem :: rt_uint32_t) AND 3 = 0);
       RT_ASSERT (heap_ptr h \<le> rmem \<and> rmem < heap_ptr h + unat (heap_end h));
       let s = emit (Hook_free rmem) s;
       RT_ASSERT (heap_ptr h + 12 \<le> rmem);
       heap_enter (\<lambda>(s, h). do {
         h \<leftarrow> free_locked (of_nat (rmem - 12 - heap_ptr h)) h;
         heap_leave k (s, h)
       }) (s, h)
     }
   })"

text \<open>The calls themselves: nothing follows.\<close>

definition ret :: "'a \<Rightarrow> 'a act" where
  "ret x = (\<lambda>(s, h). Some (Done x, s, h))"

definition rt_malloc :: "rt_uint32_t \<Rightarrow> nat act" where
  "rt_malloc sz = rt_malloc_then sz ret"

definition rt_free :: "nat \<Rightarrow> unit act" where
  "rt_free rmem = rt_free_then rmem (ret ())"

definition rt_realloc :: "nat \<Rightarrow> rt_uint32_t \<Rightarrow> nat act" where
  "rt_realloc rmem newsize = (\<lambda>(s, h). do {
     RT_DEBUG_NOT_IN_INTERRUPT s;
     let newsize = RT_ALIGN newsize 4;
     if mem_size_aligned h < newsize then ret RT_NULL (s, h)
     else if rmem = RT_NULL then rt_malloc newsize (s, h)
     else heap_enter (\<lambda>(s, h).
       if rmem < heap_ptr h \<or> heap_ptr h + unat (heap_end h) \<le> rmem then heap_leave (ret rmem) (s, h)
       else do {
         RT_ASSERT (heap_ptr h + 12 \<le> rmem);
         let ptr = of_nat (rmem - 12 - heap_ptr h);
         let sz = hm_next (hdr h ptr) - ptr - SIZEOF_STRUCT_MEM;
         if sz = newsize then heap_leave (ret rmem) (s, h)
         else if newsize + SIZEOF_STRUCT_MEM + MIN_SIZE < sz then do {
           h \<leftarrow> realloc_split ptr sz newsize h;
           heap_leave (ret rmem) (s, h)
         } else heap_leave (rt_malloc_then newsize (\<lambda>nmem (s, h).
             if nmem \<noteq> RT_NULL then
               rt_free_then rmem (ret nmem) (s, h\<lparr>h_bytes := rt_memcpy nmem rmem (unat (if sz < newsize then sz else newsize)) (h_bytes h)\<rparr>)
             else ret RT_NULL (s, h))) (s, h)
       }) (s, h)
   })"

definition rt_calloc :: "rt_uint32_t \<Rightarrow> rt_uint32_t \<Rightarrow> nat act" where
  "rt_calloc count sz = (\<lambda>(s, h). do {
     RT_DEBUG_NOT_IN_INTERRUPT s;
     rt_malloc_then (count * sz) (\<lambda>p (s, h).
       ret p (s, if p \<noteq> RT_NULL then h\<lparr>h_bytes := rt_memset p 0 (unat (count * sz)) (h_bytes h)\<rparr> else h)) (s, h)
   })"

definition rt_memory_info :: "heap \<Rightarrow> rt_uint32_t \<times> rt_uint32_t \<times> rt_uint32_t" where
  "rt_memory_info h = (mem_size_aligned h, used_mem h, max_mem h)"

text \<open>Setting up the heap; an area that is too small leaves it as it was.\<close>

definition heap_name :: cstr where
  "heap_name i = (if i < 4 then [0x68, 0x65, 0x61, 0x70] ! i else 0)"

definition rt_system_heap_init :: "rt_uint32_t \<Rightarrow> rt_uint32_t \<Rightarrow> kstate \<times> heap \<Rightarrow> (kstate \<times> heap) option" where
  "rt_system_heap_init begin_addr end_addr = (\<lambda>(s, h). do {
     let begin_align = RT_ALIGN begin_addr 4;
     let end_align = RT_ALIGN_DOWN end_addr 4;
     RT_DEBUG_NOT_IN_INTERRUPT s;
     if 2 * SIZEOF_STRUCT_MEM < end_align \<and> begin_align \<le> end_align - 2 * SIZEOF_STRUCT_MEM then do {
       let msa = end_align - begin_align - 2 * SIZEOF_STRUCT_MEM;
       let h = h\<lparr>mem_size_aligned := msa, heap_ptr := unat begin_align\<rparr>;
       let h = upd_hdr 0 (\<lambda>_. \<lparr>hm_magic = HEAP_MAGIC, hm_used = 0, hm_next = msa + SIZEOF_STRUCT_MEM, hm_prev = 0\<rparr>) h;
       let h = h\<lparr>heap_end := hm_next (hdr h 0)\<rparr>;
       let h = upd_hdr (heap_end h) (\<lambda>_. \<lparr>hm_magic = HEAP_MAGIC, hm_used = 1, hm_next = msa + SIZEOF_STRUCT_MEM,
         hm_prev = msa + SIZEOF_STRUCT_MEM\<rparr>) h;
       s \<leftarrow> rt_sem_init heap_sem heap_name 1 RT_IPC_FLAG_FIFO s;
       Some (s, h\<lparr>lfree := 0\<rparr>)
     } else Some (s, h)
   })"

section \<open>Correctness of the calls\<close>

text \<open>What holds between the calls: the semaphore is free, and the list of blocks is well formed.\<close>

definition heap_idle :: "kstate \<times> heap \<Rightarrow> bool" where
  "heap_idle = (\<lambda>(s, h). sys s \<and> k_interrupt_nest s = 0 \<and> sem_inv heap_sem s \<and> sem_value (k_sem s heap_sem) = 1 \<and>
     12 \<le> unat (mem_size_aligned h))"

lemma heap_idleD:
  assumes "heap_idle (s, h)"
  shows "sys s" "k_interrupt_nest s = 0" "sem_inv heap_sem s" "sem_value (k_sem s heap_sem) = 1" "12 \<le> unat (mem_size_aligned h)"
    "k_tlist s (Suspend (Obj_sem heap_sem)) = []"
  using assms sem_invD(3) [of heap_sem s] by (auto simp: heap_idle_def)

text \<open>
  Entering and leaving: a call that finds the semaphore free runs to its end, and nothing but the semaphore changes in the kernel.
\<close>

definition entered :: "kstate \<Rightarrow> kstate" where
  "entered s = emit (Hook_take (Obj_sem heap_sem)) (upd_sem heap_sem (\<lambda>v. v - 1) (emit (Hook_trytake (Obj_sem heap_sem)) s))"

definition left_heap :: "kstate \<Rightarrow> kstate" where
  "left_heap s = upd_sem heap_sem (\<lambda>v. v + 1) (emit (Hook_put (Obj_sem heap_sem)) s)"

lemma heap_enter_free:
  assumes "heap_idle (s, h)"
  shows "heap_enter k (s, h) = k (entered s, h)"
  using heap_idleD [OF assms]
  by (simp add: heap_enter_def rt_sem_take_def entered_def Let_def heap_sem_def)

lemma heap_leave_free:
  assumes "k_tlist s (Suspend (Obj_sem heap_sem)) = []"
  shows "heap_leave k (s, h) = k (left_heap s, h)"
  using assms by (simp add: heap_leave_def rt_sem_release_def left_heap_def Let_def)

lemma entered_sel [simp]:
  "k_tlist (entered s) = k_tlist s" "k_interrupt_nest (entered s) = k_interrupt_nest s" "k_tlist (left_heap s) = k_tlist s"
  by (simp_all add: entered_def left_heap_def upd_sem_def)

lemma heap_idle_again:
  assumes "heap_idle (s, h)" "12 \<le> unat (mem_size_aligned h')"
  shows "heap_idle (left_heap (entered s), h')" "heap_idle (emit e s, h')" "heap_idle (s, h')"
  using assms by (simp_all add: heap_idle_def left_heap_def entered_def upd_sem_def sem_inv_def)

lemma malloc_size_ok:
  shows "RT_ALIGN sz 4 \<le> m \<Longrightarrow> 12 \<le> unat m \<Longrightarrow> malloc_size sz \<le> m" "12 \<le> unat (malloc_size sz)" "unat (malloc_size sz) mod 4 = 0"
    "unat sz + 3 < 2 ^ 32 \<Longrightarrow> unat sz \<le> unat (malloc_size sz)"
proof -
  let ?a = "RT_ALIGN sz 4"
  have m: "unat (malloc_size sz) = max (unat ?a) 12" by (simp add: malloc_size_def Let_def word_less_nat_alt max_def)
  show "malloc_size sz \<le> m" if "RT_ALIGN sz 4 \<le> m" "12 \<le> unat m" using that m by (simp add: word_le_nat_alt)
  show "12 \<le> unat (malloc_size sz)" using m by simp
  show "unat (malloc_size sz) mod 4 = 0" using m align_mod(1) [of sz] by (simp add: max_def)
  show "unat sz \<le> unat (malloc_size sz)" if "unat sz + 3 < 2 ^ 32" using align_ge [OF that] m by simp
qed

lemma sized_span: "sized bs \<Longrightarrow> 4 dvd span bs"
  by (induction bs) auto

lemma word_and_3: "(of_nat n :: rt_uint32_t) AND 3 = 0 \<longleftrightarrow> n mod 4 = 0" if "n < 2 ^ 32"
proof -
  have "(of_nat n :: rt_uint32_t) AND 3 = take_bit 2 (of_nat n)" by (simp add: take_bit_eq_mask mask_eq_exp_minus_1)
  also have "unat \<dots> = take_bit 2 n" unfolding unsigned_take_bit_eq using that by (simp add: unsigned_of_nat take_bit_nat_eq_self)
  finally have "unat ((of_nat n :: rt_uint32_t) AND 3) = n mod 4" by (simp add: take_bit_eq_mod)
  then show ?thesis by (metis unat_eq_zero)
qed

text \<open>Free blocks that are large enough lie only where the search does not go.\<close>

definition no_fit :: "nat \<Rightarrow> heap \<Rightarrow> blocks \<Rightarrow> bool" where
  "no_fit sz h bs \<longleftrightarrow> (\<forall>xs n ys. bs = xs @ (n, False) # ys \<and> sz + 12 \<le> n \<longrightarrow> unat (mem_size_aligned h) \<le> sz + span xs)"

lemma malloc_runs:
  assumes idle: "heap_idle (s, h)" and inv: "heap_inv h bs"
  shows "\<exists>p s' h'. (\<forall>k :: nat \<Rightarrow> 'a act. rt_malloc_then sz k (s, h) = k p (s', h')) \<and> heap_idle (s', h') \<and> heap_ptr h' = heap_ptr h \<and>
    mem_size_aligned h' = mem_size_aligned h \<and> h_bytes h' = h_bytes h \<and>
    (if p = RT_NULL then h' = h \<and> (sz = 0 \<or> mem_size_aligned h < RT_ALIGN sz 4 \<or> (lfree_lowest h bs \<longrightarrow> no_fit (unat (malloc_size sz)) h bs))
     else \<exists>xs n ys. bs = xs @ (n, False) # ys \<and> p = heap_ptr h + span xs + 12 \<and> unat (malloc_size sz) + 12 \<le> n \<and>
       RT_ALIGN sz 4 \<le> mem_size_aligned h \<and> heap_inv h' (xs @ cut_block (unat (malloc_size sz)) n @ ys) \<and>
       (lfree_lowest h bs \<longrightarrow> lfree_lowest h' (xs @ cut_block (unat (malloc_size sz)) n @ ys)))"
proof (cases "sz = 0 \<or> mem_size_aligned h < RT_ALIGN sz 4")
  case True
  then have "\<forall>k :: nat \<Rightarrow> 'a act. rt_malloc_then sz k (s, h) = k RT_NULL (s, h)"
    using heap_idleD(2) [OF idle] by (auto simp: rt_malloc_then_def RT_DEBUG_NOT_IN_INTERRUPT_def)
  then show ?thesis using idle True by (intro exI [of _ RT_NULL] exI [of _ s] exI [of _ h]) auto
next
  case False
  let ?sz = "malloc_size sz"
  have le: "RT_ALIGN sz 4 \<le> mem_size_aligned h" "sz \<noteq> 0" using False by (auto simp: not_less)
  note I = heap_idleD [OF idle]
  note z = malloc_size_ok(1) [OF le(1) I(5)] malloc_size_ok(2,3) [of sz]
  obtain r h1 where r: "malloc_locked ?sz h = Some (r, h1)" "heap_ptr h1 = heap_ptr h" "heap_end h1 = heap_end h"
    "mem_size_aligned h1 = mem_size_aligned h" "h_bytes h1 = h_bytes h"
    "case r of
       None \<Rightarrow> h1 = h \<and> (lfree_lowest h bs \<longrightarrow>
         (\<forall>xs n ys. bs = xs @ (n, False) # ys \<and> unat ?sz + 12 \<le> n \<longrightarrow> unat (mem_size_aligned h) \<le> unat ?sz + span xs))
     | Some ptr \<Rightarrow> \<exists>xs n ys. bs = xs @ (n, False) # ys \<and> unat ptr = span xs \<and> unat ?sz + 12 \<le> n \<and>
         heap_inv h1 (xs @ cut_block (unat ?sz) n @ ys) \<and> (lfree_lowest h bs \<longrightarrow> lfree_lowest h1 (xs @ cut_block (unat ?sz) n @ ys))"
    using malloc_locked_ok [OF inv z(1-3)] by (elim okE) (auto split: prod.splits)
  have ai: "heap_idle (left_heap (entered s), h1)" "heap_idle (emit e (left_heap (entered s)), h1)" for e
    using heap_idle_again [OF idle, of h1] heap_idle_again(2) [of "left_heap (entered s)" h1 h1] I(5) r(4) by simp_all
  have run: "rt_malloc_then sz k (s, h) =
      (case r of
         None \<Rightarrow> k RT_NULL (left_heap (entered s), h1)
       | Some ptr \<Rightarrow> do {
           let mem = heap_ptr h1 + unat ptr;
           RT_ASSERT (of_nat mem + SIZEOF_STRUCT_MEM + ?sz \<le> of_nat (heap_ptr h1 + unat (heap_end h1)));
           RT_ASSERT ((mem + 12) mod 4 = 0);
           RT_ASSERT ((of_nat mem :: rt_uint32_t) AND 3 = 0);
           k (mem + 12) (emit (Hook_malloc (mem + 12) ?sz) (left_heap (entered s)), h1)
         })" for k :: "nat \<Rightarrow> 'a act"
    using le le(1) [THEN leD] I(2,6) r(1)
    by (simp add: rt_malloc_then_def RT_DEBUG_NOT_IN_INTERRUPT_def heap_enter_free [OF idle] heap_leave_free Let_def
      del: of_nat_add split: option.split)
  show ?thesis
  proof (cases r)
    case None
    then show ?thesis using r(2-6) ai(1) run by (intro exI [of _ RT_NULL] exI [of _ "left_heap (entered s)"] exI [of _ h1]) (auto simp: no_fit_def)
  next
    case (Some ptr)
    then obtain xs n ys where b: "bs = xs @ (n, False) # ys" "unat ptr = span xs" "unat ?sz + 12 \<le> n"
      "heap_inv h1 (xs @ cut_block (unat ?sz) n @ ys)" "lfree_lowest h bs \<longrightarrow> lfree_lowest h1 (xs @ cut_block (unat ?sz) n @ ys)"
      using r(6) by auto
    have c: "heap_core h bs" using inv by (simp add: heap_inv_def)
    note D = heap_coreD [OF c]
    let ?p = "heap_ptr h + span xs"
    have al: "?p mod 4 = 0" "(?p + 12) mod 4 = 0"
      using D(3,9) b(1) sized_span [of xs] by (auto simp: mod_eq_0_iff_dvd)
    have bnd: "?p + 12 + unat ?sz \<le> heap_ptr h + span bs" "heap_ptr h + span bs < 2 ^ 32" using b(1,3) D(7) by simp_all
    have as1: "of_nat ?p + 12 + ?sz \<le> (of_nat (heap_ptr h + unat (heap_end h)) :: rt_uint32_t)"
    proof -
      have "of_nat ?p + 12 + ?sz = of_nat (?p + 12 + unat ?sz)" by simp
      also have "\<dots> \<le> (of_nat (heap_ptr h + span bs) :: rt_uint32_t)"
        using bnd by (simp add: word_le_nat_alt unsigned_of_nat take_bit_nat_eq_self del: of_nat_add)
      finally show ?thesis using heap_coreD_end [OF c] by simp
    qed
    have as2: "(of_nat ?p :: rt_uint32_t) AND 3 = 0" using word_and_3 [of ?p] al(1) bnd by simp
    have "rt_malloc_then sz k (s, h) = k (?p + 12) (emit (Hook_malloc (?p + 12) ?sz) (left_heap (entered s)), h1)" for k :: "nat \<Rightarrow> 'a act"
      unfolding run Some using as1 as2 al(2) by (simp add: r(2,3) b(2) Let_def del: of_nat_add)
    then show ?thesis
      using r(2-5) ai(2) b le(1) by (intro exI [of _ "?p + 12"] exI [of _ "emit (Hook_malloc (?p + 12) ?sz) (left_heap (entered s))"] exI [of _ h1]) auto
  qed
qed

lemma free_runs:
  assumes idle: "heap_idle (s, h)" and inv: "heap_inv h (xs @ (n, True) # ys)"
  shows "\<exists>s' h'. (\<forall>k :: 'a act. rt_free_then (heap_ptr h + span xs + 12) k (s, h) = k (s', h')) \<and> heap_idle (s', h') \<and> heap_ptr h' = heap_ptr h \<and>
    mem_size_aligned h' = mem_size_aligned h \<and> h_bytes h' = h_bytes h \<and> heap_inv h' (plugged xs (merge_next n ys)) \<and>
    (lfree_lowest h (xs @ (n, True) # ys) \<longrightarrow> lfree_lowest h' (plugged xs (merge_next n ys)))"
proof -
  let ?p = "heap_ptr h + span xs + 12" and ?bs = "xs @ (n, True) # ys"
  have c: "heap_core h ?bs" using inv by (simp add: heap_inv_def)
  note D = heap_coreD [OF c] and I = heap_idleD [OF idle]
  obtain h1 where h1: "free_locked (of_nat (span xs)) h = Some h1" "heap_inv h1 (plugged xs (merge_next n ys))"
    "lfree_lowest h ?bs \<longrightarrow> lfree_lowest h1 (plugged xs (merge_next n ys))" "heap_ptr h1 = heap_ptr h"
    "mem_size_aligned h1 = mem_size_aligned h" "h_bytes h1 = h_bytes h"
    using free_locked_ok [OF inv] by (elim okE) blast
  let ?s1 = "left_heap (entered (emit (Hook_free ?p) s))"
  have n: "12 \<le> n" "sized ys" "sized xs" using D(3) by simp_all
  have al: "?p mod 4 = 0" using D(9) sized_span [OF n(3)] by (auto simp: mod_eq_0_iff_dvd)
  have bnd: "?p < 2 ^ 32" using D(7) n(1) by simp
  have as: "(of_nat ?p :: rt_uint32_t) AND 3 = 0" using word_and_3 [OF bnd] al by (simp only:)
  have ai: "heap_idle (emit (Hook_free ?p) s, h)" "heap_idle (?s1, h1)"
    using heap_idle_again(2) [OF idle] heap_idle_again(1) [OF heap_idle_again(2) [OF idle, of h]] I(5) h1(5) by simp_all
  have la: "12 < fst (last ?bs)" using inv by (simp add: heap_inv_def)
  have "12 < n + span ys" using la n by (cases ys) auto
  then have e: "?p < heap_ptr h + unat (heap_end h)" unfolding heap_coreD_end [OF c] by simp
  have run: "rt_free_then ?p k (s, h) = k (?s1, h1)" for k :: "'a act"
  proof -
    show ?thesis
      using I(2) heap_idleD(6) [OF ai(1)] as e h1(1)
      by (simp add: rt_free_then_def RT_DEBUG_NOT_IN_INTERRUPT_def heap_enter_free [OF ai(1)] heap_leave_free Let_def del: of_nat_add emit_def)
  qed
  then show ?thesis using ai(2) h1 by blast
qed

section \<open>Safety of the clients\<close>

text \<open>The list of blocks, read from the headers.\<close>

primrec follow_blocks :: "nat \<Rightarrow> heap \<Rightarrow> nat \<Rightarrow> blocks" where
  "follow_blocks 0 h p = []"
| "follow_blocks (Suc f) h p =
     (if p < unat (heap_end h) then (unat (hm_next (h_mem h p)) - p, hm_used (h_mem h p) \<noteq> 0) # follow_blocks f h (unat (hm_next (h_mem h p)))
      else [])"

definition heap_blocks :: "heap \<Rightarrow> blocks" where
  "heap_blocks h = follow_blocks (unat (heap_end h)) h 0"

lemma follow_blocks_ok:
  assumes "heap_core h (xs @ ys)" "length ys \<le> f"
  shows "follow_blocks f h (span xs) = ys"
  using assms
proof (induction ys arbitrary: xs f)
  case Nil
  then show ?case using heap_coreD_end [of h xs] by (cases f) simp_all
next
  case (Cons b ys)
  obtain n u where b: "b = (n, u)" by (cases b)
  obtain g where g: "f = Suc g" using Cons.prems(2) by (cases f) auto
  note c = Cons.prems(1) [unfolded b]
  have m: "h_mem h (span xs) = \<lparr>hm_magic = HEAP_MAGIC, hm_used = of_bool u, hm_next = of_nat (span xs + n), hm_prev = of_nat (span (butlast xs))\<rparr>"
    using heap_coreD(1) [OF c] by (simp add: hchain_mid)
  have n: "12 \<le> n" using heap_coreD(3) [OF c] by simp
  have un: "unat (of_nat (span xs + n) :: rt_uint32_t) = span xs + n" by (rule offset_id [OF c]) simp
  have "follow_blocks g h (span xs + n) = ys" using Cons.IH [of "xs @ [b]" g] Cons.prems g b by simp
  then show ?case using n heap_coreD_end [OF c] un by (simp add: g m b del: of_nat_add)
qed

lemma length_span: "sized bs \<Longrightarrow> length bs \<le> span bs"
  by (induction bs) auto

lemma heap_blocks_eq: "heap_core h bs \<Longrightarrow> heap_blocks h = bs"
  using follow_blocks_ok [of h "[]" bs "span bs"] length_span [OF heap_coreD(3), of h bs] heap_coreD_end [of h bs]
  by (simp add: heap_blocks_def)

text \<open>The extents that are handed out, and the calls as a client sees them when the semaphore is free.\<close>

definition heap_live :: "kstate \<times> heap \<Rightarrow> (nat \<times> nat) set" where
  "heap_live = (\<lambda>(s, h). (\<lambda>(p, n). (heap_ptr h + p, n)) ` used_exts 0 (heap_blocks h))"

definition heap_good :: "nat \<Rightarrow> rt_uint32_t \<Rightarrow> kstate \<times> heap \<Rightarrow> bool" where
  "heap_good a m = (\<lambda>(s, h). heap_idle (s, h) \<and> heap_inv h (heap_blocks h) \<and> lfree_lowest h (heap_blocks h) \<and>
     heap_ptr h = a \<and> mem_size_aligned h = m)"

definition finish :: "('a task \<times> kstate \<times> heap) option \<Rightarrow> ('a \<times> kstate \<times> heap) option" where
  "finish m = do { (r, st) \<leftarrow> m; case r of Done x \<Rightarrow> Some (x, st) | Pending _ \<Rightarrow> None }"

definition malloc_now :: "rt_uint32_t \<Rightarrow> kstate \<times> heap \<Rightarrow> (nat \<times> kstate \<times> heap) option" where
  "malloc_now sz st = finish (rt_malloc sz st)"

definition free_now :: "nat \<Rightarrow> kstate \<times> heap \<Rightarrow> (kstate \<times> heap) option" where
  "free_now p st = map_option snd (finish (rt_free p st))"

lemma heap_goodE:
  assumes "heap_good a m st"
  obtains s h bs where "st = (s, h)" "heap_idle (s, h)" "heap_inv h bs" "lfree_lowest h bs" "heap_ptr h = a" "mem_size_aligned h = m"
  using assms by (cases st) (auto simp: heap_good_def)

lemma heap_goodI: "heap_idle (s, h) \<Longrightarrow> heap_inv h bs \<Longrightarrow> lfree_lowest h bs \<Longrightarrow> heap_good (heap_ptr h) (mem_size_aligned h) (s, h)"
  using heap_blocks_eq [of h bs] by (simp add: heap_good_def heap_inv_def)

lemma heap_live_eq: "heap_inv h bs \<Longrightarrow> heap_live (s, h) = (\<lambda>(p, n). (heap_ptr h + p, n)) ` used_exts 0 bs"
  using heap_blocks_eq [of h bs] by (simp add: heap_live_def heap_inv_def)

lemma used_exts_split: "(q, m) \<in> used_exts p bs \<Longrightarrow> \<exists>xs n ys. bs = xs @ (n, True) # ys \<and> q = p + span xs + 12 \<and> m = n - 12"
proof (induction bs arbitrary: p)
  case (Cons b bs)
  obtain n u where b: "b = (n, u)" by (cases b)
  show ?case
  proof (cases "u \<and> q = p + 12 \<and> m = n - 12")
    case True
    then show ?thesis unfolding b by (intro exI [of _ "[]"]) auto
  next
    case False
    then have "(q, m) \<in> used_exts (p + n) bs" using Cons.prems b by (auto split: if_splits)
    from Cons.IH [OF this] obtain xs k ys where "bs = xs @ (k, True) # ys" "q = p + n + span xs + 12" "m = k - 12" by blast
    then show ?thesis unfolding b by (intro exI [of _ "(n, u) # xs"]) auto
  qed
qed simp

lemma used_exts_apart:
  "sized bs \<Longrightarrow> x \<in> used_exts p bs \<Longrightarrow> y \<in> used_exts p bs \<Longrightarrow> x \<noteq> y \<Longrightarrow> fst x + snd x < fst y \<or> fst y + snd y < fst x"
proof (induction bs arbitrary: p)
  case (Cons b bs)
  obtain n u where b: "b = (n, u)" by (cases b)
  have r: "p + n + 12 \<le> fst z" if "z \<in> used_exts (p + n) bs" for z
    using used_exts_range [of bs "fst z" "snd z" "p + n"] Cons.prems(1) that by simp
  have n: "12 \<le> n" "sized bs" using Cons.prems(1) b by simp_all
  consider "x \<in> used_exts (p + n) bs" "y \<in> used_exts (p + n) bs" | "x = (p + 12, n - 12)" "y \<in> used_exts (p + n) bs"
    | "y = (p + 12, n - 12)" "x \<in> used_exts (p + n) bs"
    using Cons.prems(2-4) b by (auto split: if_splits)
  then show ?case using Cons.IH [OF n(2)] Cons.prems(4) r n(1) by cases fastforce+
qed simp

lemma used_exts_plugged: "used_exts p (plugged xs (merge_next n ys)) = used_exts p (xs @ (n, False) # ys)"
proof -
  obtain k zs where m: "merge_next n ys = (k, False) # zs" using merge_next_Cons by blast
  show ?thesis using merge_next_exts(1) [of "p + span xs" n ys] by (simp add: m)
qed

lemma used_exts_cut: "used_exts p (cut_block sz n) = {(p + 12, if sz + 36 \<le> n then sz else n - 12)}"
  by (simp add: cut_block.simps)

lemma used_exts_gap:
  assumes "sized (xs @ (n, u) # ys)"
  shows "(span xs + 12, m) \<notin> used_exts 0 (xs @ (n, False) # ys)"
proof
  assume "(span xs + 12, m) \<in> used_exts 0 (xs @ (n, False) # ys)"
  then have "(span xs + 12, m) \<in> used_exts 0 xs \<or> (span xs + 12, m) \<in> used_exts (span xs + n) ys" by simp
  then show False using used_exts_range [of xs "span xs + 12" m 0] used_exts_range [of ys "span xs + 12" m "span xs + n"] assms by auto
qed

lemma shift_inj: "inj (\<lambda>(p, n). (a + p :: nat, n))"
  by (auto simp: inj_def)

text \<open>The laws of the allocator, for every state of the heap that satisfies the invariant.\<close>

lemma live_apart:
  assumes inv: "heap_inv h bs" and xy: "x \<in> heap_live (s, h)" "y \<in> heap_live (s, h)" "x \<noteq> y"
  shows "extent x \<inter> extent y = {}" "fst x \<noteq> fst y"
proof -
  obtain v w where vw: "v \<in> used_exts 0 bs" "w \<in> used_exts 0 bs" "x = (heap_ptr h + fst v, snd v)" "y = (heap_ptr h + fst w, snd w)"
    using xy(1,2) by (auto simp: heap_live_eq [OF inv])
  have "sized bs" "v \<noteq> w" using inv xy(3) vw(3,4) by (auto simp: heap_inv_def heap_core_def)
  from used_exts_apart [OF this(1) vw(1,2) this(2)] show "extent x \<inter> extent y = {}" "fst x \<noteq> fst y"
    using vw(3,4) by (auto simp: extent_def)
qed

lemma malloc_live:
  assumes idle: "heap_idle (s, h)" and inv: "heap_inv h bs"
  shows "\<exists>p s' h' bs'. (\<forall>k :: nat \<Rightarrow> 'a act. rt_malloc_then sz k (s, h) = k p (s', h')) \<and> heap_idle (s', h') \<and> heap_inv h' bs' \<and>
    heap_ptr h' = heap_ptr h \<and> mem_size_aligned h' = mem_size_aligned h \<and> h_bytes h' = h_bytes h \<and> (lfree_lowest h bs \<longrightarrow> lfree_lowest h' bs') \<and>
    (if p = RT_NULL then h' = h \<and> (sz = 0 \<or> mem_size_aligned h < RT_ALIGN sz 4 \<or> (lfree_lowest h bs \<longrightarrow> no_fit (unat (malloc_size sz)) h bs))
     else p \<notin> fst ` heap_live (s, h) \<and> (\<exists>n \<ge> unat (malloc_size sz). heap_live (s', h') = insert (p, n) (heap_live (s, h))))"
proof -
  let ?z = "unat (malloc_size sz)"
  obtain p s' h' where r: "\<forall>k :: nat \<Rightarrow> 'a act. rt_malloc_then sz k (s, h) = k p (s', h')" "heap_idle (s', h')" "heap_ptr h' = heap_ptr h"
    "mem_size_aligned h' = mem_size_aligned h" "h_bytes h' = h_bytes h"
    "if p = RT_NULL then h' = h \<and> (sz = 0 \<or> mem_size_aligned h < RT_ALIGN sz 4 \<or> (lfree_lowest h bs \<longrightarrow> no_fit (unat (malloc_size sz)) h bs))
     else \<exists>xs n ys. bs = xs @ (n, False) # ys \<and> p = heap_ptr h + span xs + 12 \<and> ?z + 12 \<le> n \<and> RT_ALIGN sz 4 \<le> mem_size_aligned h \<and>
       heap_inv h' (xs @ cut_block ?z n @ ys) \<and> (lfree_lowest h bs \<longrightarrow> lfree_lowest h' (xs @ cut_block ?z n @ ys))"
    using malloc_runs [OF idle inv, of sz] by blast
  show ?thesis
  proof (cases "p = RT_NULL")
    case True
    then show ?thesis using r inv by (intro exI [of _ p] exI [of _ s'] exI [of _ h'] exI [of _ bs]) simp
  next
    case False
    then obtain xs n ys where b: "bs = xs @ (n, False) # ys" "p = heap_ptr h + span xs + 12" "?z + 12 \<le> n"
      "heap_inv h' (xs @ cut_block ?z n @ ys)" "lfree_lowest h bs \<longrightarrow> lfree_lowest h' (xs @ cut_block ?z n @ ys)"
      using r(6) by auto
    let ?l = "if ?z + 36 \<le> n then ?z else n - 12"
    have si: "sized bs" using inv by (simp add: heap_inv_def heap_core_def)
    have "used_exts 0 (xs @ cut_block ?z n @ ys) = insert (span xs + 12, ?l) (used_exts 0 bs)"
      by (auto simp: b(1) used_exts_cut)
    then have l: "heap_live (s', h') = insert (p, ?l) (heap_live (s, h))"
      by (simp add: heap_live_eq [OF b(4)] heap_live_eq [OF inv] r(3) b(2) add.assoc)
    have "p \<notin> fst ` heap_live (s, h)" using used_exts_gap [of xs n False ys] si by (auto simp: heap_live_eq [OF inv] b(1,2))
    moreover have "?z \<le> ?l" using b(3) by (simp add: le_diff_conv2)
    ultimately show ?thesis using False r(1-5) b(4,5) l
      by (intro exI [of _ p] exI [of _ s'] exI [of _ h'] exI [of _ "xs @ cut_block ?z n @ ys"]) auto
  qed
qed

lemma free_live:
  assumes idle: "heap_idle (s, h)" and inv: "heap_inv h bs" and p: "(p, n) \<in> heap_live (s, h)"
  shows "\<exists>s' h' bs'. (\<forall>k :: 'a act. rt_free_then p k (s, h) = k (s', h')) \<and> heap_idle (s', h') \<and> heap_inv h' bs' \<and>
    heap_ptr h' = heap_ptr h \<and> mem_size_aligned h' = mem_size_aligned h \<and> h_bytes h' = h_bytes h \<and> (lfree_lowest h bs \<longrightarrow> lfree_lowest h' bs') \<and>
    heap_live (s', h') = heap_live (s, h) - {(p, n)}"
proof -
  obtain q where q: "(q, n) \<in> used_exts 0 bs" "p = heap_ptr h + q" using p by (auto simp: heap_live_eq [OF inv])
  obtain xs k ys where b: "bs = xs @ (k, True) # ys" "q = span xs + 12" "n = k - 12" using used_exts_split [OF q(1)] by auto
  obtain s' h' where r: "\<forall>c :: 'a act. rt_free_then (heap_ptr h + span xs + 12) c (s, h) = c (s', h')" "heap_idle (s', h')" "heap_ptr h' = heap_ptr h"
    "mem_size_aligned h' = mem_size_aligned h" "h_bytes h' = h_bytes h" "heap_inv h' (plugged xs (merge_next k ys))"
    "lfree_lowest h bs \<longrightarrow> lfree_lowest h' (plugged xs (merge_next k ys))"
    using free_runs [OF idle inv [unfolded b(1)]] unfolding b(1) by blast
  have si: "sized bs" using inv by (simp add: heap_inv_def heap_core_def)
  have "used_exts 0 (plugged xs (merge_next k ys)) = used_exts 0 bs - {(q, n)}"
    using used_exts_gap [of xs k True ys] si unfolding used_exts_plugged b by auto
  then have "heap_live (s', h') = heap_live (s, h) - {(p, n)}"
    unfolding heap_live_eq [OF r(6)] heap_live_eq [OF inv] r(3) q(2) by (simp add: image_set_diff [OF shift_inj] del: split_paired_All)
  moreover have "p = heap_ptr h + span xs + 12" using q(2) b(2) by simp
  ultimately show ?thesis using r by blast
qed

interpretation hp: allocator malloc_now free_now "heap_good a m" heap_live "\<lambda>sz _. if unat sz + 3 < 2 ^ 32 then unat sz else 0"
  for a m
proof
  fix st x y
  assume g: "heap_good a m st" and xy: "x \<in> heap_live st" "y \<in> heap_live st" "x \<noteq> y"
  obtain s h bs where "st = (s, h)" "heap_inv h bs" using g by (rule heap_goodE)
  then show "extent x \<inter> extent y = {}" using live_apart(1) xy by blast
next
  fix st p n k
  assume g: "heap_good a m st" and xy: "(p, n) \<in> heap_live st" "(p, k) \<in> heap_live st"
  obtain s h bs where "st = (s, h)" "heap_inv h bs" using g by (rule heap_goodE)
  then show "n = k" using live_apart(2) [of h bs "(p, n)" s "(p, k)"] xy by auto
next
  fix st and sz :: rt_uint32_t
  assume g: "heap_good a m st"
  obtain s h bs where sh: "st = (s, h)" "heap_idle (s, h)" "heap_inv h bs" "lfree_lowest h bs" "heap_ptr h = a" "mem_size_aligned h = m" using g by (rule heap_goodE)
  let ?w = "if unat sz + 3 < 2 ^ 32 then unat sz else 0"
  obtain p s' h' bs' where r: "\<forall>k :: nat \<Rightarrow> nat act. rt_malloc_then sz k (s, h) = k p (s', h')" "heap_idle (s', h')" "heap_inv h' bs'"
    "heap_ptr h' = heap_ptr h" "mem_size_aligned h' = mem_size_aligned h" "lfree_lowest h bs \<longrightarrow> lfree_lowest h' bs'"
    "if p = RT_NULL then h' = h \<and> (sz = 0 \<or> mem_size_aligned h < RT_ALIGN sz 4 \<or> (lfree_lowest h bs \<longrightarrow> no_fit (unat (malloc_size sz)) h bs))
     else p \<notin> fst ` heap_live (s, h) \<and> (\<exists>n \<ge> unat (malloc_size sz). heap_live (s', h') = insert (p, n) (heap_live (s, h)))"
    using malloc_live [OF sh(2,3), of sz] by blast
  have low: "lfree_lowest h' bs'" using r(6) sh(4) by simp
  have run: "malloc_now sz (s, h) = Some (p, s', h')" by (simp add: malloc_now_def rt_malloc_def sh(1) r(1) finish_def ret_def)
  have w: "?w \<le> unat (malloc_size sz)" using malloc_size_ok(4) [of sz] by simp
  have "p = RT_NULL \<Longrightarrow> heap_live (s', h') = heap_live st" using r(7) by (simp add: heap_live_def sh(1) split: if_split_asm)
  moreover have "p \<noteq> RT_NULL \<Longrightarrow> \<exists>n \<ge> ?w. p \<notin> fst ` heap_live st \<and> heap_live (s', h') = insert (p, n) (heap_live st)"
  proof -
    assume "p \<noteq> RT_NULL"
    then obtain n where n: "p \<notin> fst ` heap_live (s, h)" "unat (malloc_size sz) \<le> n" "heap_live (s', h') = insert (p, n) (heap_live (s, h))"
      using r(7) by auto
    show ?thesis using le_trans [OF w n(2)] n(1,3) unfolding sh(1) by blast
  qed
  ultimately show "ok (malloc_now sz st) (\<lambda>(p, st'). heap_good a m st' \<and> (if p = RT_NULL then heap_live st' = heap_live st
      else \<exists>n \<ge> ?w. p \<notin> fst ` heap_live st \<and> heap_live st' = insert (p, n) (heap_live st)))"
    using heap_goodI [OF r(2,3) low] unfolding run ok_Some sh(1,5,6) r(4,5) by simp
next
  fix st p n
  assume g: "heap_good a m st" and p: "(p, n) \<in> heap_live st"
  obtain s h bs where sh: "st = (s, h)" "heap_idle (s, h)" "heap_inv h bs" "lfree_lowest h bs" "heap_ptr h = a" "mem_size_aligned h = m" using g by (rule heap_goodE)
  obtain s' h' bs' where r: "\<forall>c :: unit act. rt_free_then p c (s, h) = c (s', h')" "heap_idle (s', h')" "heap_inv h' bs'"
    "heap_ptr h' = a" "mem_size_aligned h' = m" "lfree_lowest h' bs'" "heap_live (s', h') = heap_live (s, h) - {(p, n)}"
    using free_live [OF sh(2,3), of p n] p sh(1,4-6) by blast
  have run: "free_now p (s, h) = Some (s', h')" by (simp add: free_now_def rt_free_def sh(1) r(1) finish_def ret_def)
  show "ok (free_now p st) (\<lambda>st'. heap_good a m st' \<and> heap_live st' = heap_live st - {(p, n)})"
    using heap_goodI [OF r(2,3,6)] r(7) unfolding run ok_Some sh(1) r(4,5) by simp
qed

section \<open>Setting up\<close>

lemma heap_sem_init:
  assumes "sys s" "k_interrupt_nest s = 0" "k_tlist s (Suspend (Obj_sem heap_sem)) = []" "12 \<le> unat (mem_size_aligned h)"
  shows "\<exists>s'. rt_sem_init heap_sem heap_name 1 RT_IPC_FLAG_FIFO s = Some s' \<and> heap_idle (s', h)"
proof -
  have z: "heap_sem \<noteq> RT_NULL" by (simp add: heap_sem_def)
  let ?s = "rt_object_init (Obj_sem heap_sem) RT_Object_Class_Semaphore heap_name s"
  have o: "sys ?s" "k_tlist ?s = k_tlist s" "k_interrupt_nest ?s = k_interrupt_nest s" using assms(1) by (simp_all add: rt_object_init_def Let_def)
  have q: "qs_init (Suspend (Obj_sem heap_sem)) (k_tlist s) = k_tlist s" using assms(3) by (simp add: qs_init_def fun_upd_idem)
  have st: "sys (s'\<lparr>k_tlist := k_tlist s\<rparr>) = sys s'" if "k_tlist s' = k_tlist s" for s' by (subst sys_cong [of _ s']) (simp_all add: that)
  show ?thesis
    using z assms o st by (simp add: rt_sem_init_def rt_ipc_object_init_def upd_sem_def set_obj_flag_def Let_def q heap_idle_def sem_inv_def)
qed

lemma heap_init_ok:
  assumes s: "sys s" "k_interrupt_nest s = 0" "k_tlist s (Suspend (Obj_sem heap_sem)) = []" "used_mem h = 0"
    and a: "a = unat (RT_ALIGN begin_addr 4)" "0 < a" "unat (RT_ALIGN_DOWN end_addr 4) = a + n + 24" "12 \<le> n"
  shows "ok (rt_system_heap_init begin_addr end_addr (s, h)) (\<lambda>(s', h'). heap_good a (of_nat n) (s', h') \<and>
    heap_blocks h' = [(n + 12, False)] \<and> h_bytes h' = h_bytes h)"
proof -
  let ?b = "RT_ALIGN begin_addr 4" and ?e = "RT_ALIGN_DOWN end_addr 4"
  have lt: "a + n + 24 < 2 ^ 32" using a(3) unsigned_less [of ?e, where 'a = nat] by simp
  have u: "unat (of_nat k :: rt_uint32_t) = k" if "k \<le> a + n + 24" for k
    using that lt by (simp add: unsigned_of_nat take_bit_nat_eq_self)
  have e: "?e = of_nat (a + n + 24)" "?b = of_nat a" using a(1,3) u [of a] u [of "a + n + 24"] by (simp_all add: word_unat_eq_iff)
  have e2: "?e - 24 = of_nat (a + n)" "?e - ?b - 24 = of_nat n" by (simp_all add: e)
  have g: "24 < ?e" "?b \<le> ?e - 24"
    unfolding word_less_nat_alt word_le_nat_alt e2 using a u [of "a + n"] by simp_all
  have dv: "4 dvd n"
  proof -
    have "4 dvd a" "4 dvd a + n + 24" using align_mod(1) [of begin_addr] align_mod(2) [of end_addr] a(1,3) by auto
    then show ?thesis by presburger
  qed
  define h1 where "h1 = h\<lparr>mem_size_aligned := of_nat n, heap_ptr := a, heap_end := of_nat (n + 12), lfree := 0,
    h_mem := (h_mem h)(0 := \<lparr>hm_magic = HEAP_MAGIC, hm_used = 0, hm_next = of_nat (n + 12), hm_prev = 0\<rparr>,
      n + 12 := \<lparr>hm_magic = HEAP_MAGIC, hm_used = 1, hm_next = of_nat (n + 12), hm_prev = of_nat (n + 12)\<rparr>)\<rparr>"
  have m: "12 \<le> unat (mem_size_aligned h1)" using a(4) u [of n] by (simp add: h1_def)
  obtain s1 where s1: "rt_sem_init heap_sem heap_name 1 RT_IPC_FLAG_FIFO s = Some s1" "heap_idle (s1, h1)"
    using heap_sem_init [OF s(1-3) m] by blast
  have "a mod 4 = 0" using align_mod(1) [of begin_addr] a(1) by simp
  then have inv: "heap_inv h1 [(n + 12, False)]" "lfree_lowest h1 [(n + 12, False)]"
    using a(2,4) lt dv u [of n] s(4) by (simp_all add: h1_def heap_inv_def heap_core_def tight_def lfree_lowest_def)
  have run: "rt_system_heap_init begin_addr end_addr (s, h) = Some (s1, h1)"
    using g s(2) s1(1) u [of "n + 12"] a(1) e2 
    by (simp add: rt_system_heap_init_def RT_DEBUG_NOT_IN_INTERRUPT_def Let_def h1_def)
  show ?thesis
    using heap_goodI [OF s1(2) inv] heap_blocks_eq [of h1 "[(n + 12, False)]"] inv(1) by (simp add: run ok_Some heap_inv_def) (simp add: h1_def)
qed

section \<open>Properties\<close>

lemma live_range:
  assumes inv: "heap_inv h bs" and x: "(p, n) \<in> heap_live (s, h)"
  shows "heap_ptr h + 12 \<le> p" "p + n \<le> heap_ptr h + unat (mem_size_aligned h) + 12" "p mod 4 = 0"
proof -
  have c: "heap_core h bs" using inv by (simp add: heap_inv_def)
  note D = heap_coreD [OF c]
  obtain q where q: "(q, n) \<in> used_exts 0 bs" "p = heap_ptr h + q" using x by (auto simp: heap_live_eq [OF inv])
  obtain xs k ys where b: "bs = xs @ (k, True) # ys" "q = span xs + 12" using used_exts_split [OF q(1)] by auto
  show "heap_ptr h + 12 \<le> p" "p + n \<le> heap_ptr h + unat (mem_size_aligned h) + 12"
    using used_exts_range [OF D(3) q(1)] q(2) D(4) by simp_all
  show "p mod 4 = 0" using D(3,9) sized_span [of xs] by (auto simp: q(2) b mod_eq_0_iff_dvd)
qed

lemma tight_no_used: "tight bs \<Longrightarrow> bs \<noteq> [] \<Longrightarrow> used_exts p bs = {} \<Longrightarrow> \<exists>n. bs = [(n, False)]"
  by (cases bs rule: remdups_adj.cases) (auto simp: tight_def successively_Cons split: if_splits)

text \<open>
  C3. The clients of the heap are safe. Set up a heap in an area that holds at least twelve bytes beside the two headers, and run
  any sequence of \<open>rt_malloc\<close> and of \<open>rt_free\<close> of held pointers. No assertion fires and no loop runs for ever; no memory is handed
  out twice; what is handed out is aligned, lies inside the area, and does not overlap; and when everything is freed the heap is one
  free block again, as it was in the beginning.
\<close>

theorem rt_heap_client_safe:
  assumes "sys s" "k_interrupt_nest s = 0" "k_tlist s (Suspend (Obj_sem heap_sem)) = []" "used_mem h = 0"
    "a = unat (RT_ALIGN begin_addr 4)" "0 < a" "unat (RT_ALIGN_DOWN end_addr 4) = a + n + 24" "12 \<le> n"
  shows "ok (do { st \<leftarrow> rt_system_heap_init begin_addr end_addr (s, h); client_run malloc_now free_now ops ([], st) }) (\<lambda>(ps, s', h').
    sys s' \<and> distinct ps \<and> set ps = fst ` heap_live (s', h') \<and>
    (\<forall>x \<in> heap_live (s', h'). fst x mod 4 = 0 \<and> extent x \<subseteq> {a + 12..<a + n + 12}) \<and>
    (\<forall>x \<in> heap_live (s', h'). \<forall>y \<in> heap_live (s', h'). x \<noteq> y \<longrightarrow> extent x \<inter> extent y = {}) \<and>
    (ps = [] \<longrightarrow> heap_blocks h' = [(n + 12, False)] \<and> used_mem h' = 0))"
proof -
  obtain s1 h1 where i: "rt_system_heap_init begin_addr end_addr (s, h) = Some (s1, h1)" "heap_good a (of_nat n) (s1, h1)"
    "heap_blocks h1 = [(n + 12, False)]"
    using heap_init_ok [OF assms] by (auto elim!: okE)
  have l: "fst ` heap_live (s1, h1) = set []" by (simp add: heap_live_def i(3))
  have n: "unat (of_nat n :: rt_uint32_t) = n"
    using assms(7) unsigned_less [of "RT_ALIGN_DOWN end_addr 4", where 'a = nat] by (simp add: unsigned_of_nat take_bit_nat_eq_self)
  show ?thesis
    unfolding i(1) bind.bind_lunit
  proof (rule ok_mono [OF hp.client_ok [OF i(2) _ l]], simp, clarify, intro conjI ballI impI)
    fix ps s' h'
    assume g: "heap_good a (of_nat n) (s', h')" and d: "distinct ps" "fst ` heap_live (s', h') = set ps"
    from g obtain bs where b: "heap_idle (s', h')" "heap_inv h' bs" "heap_ptr h' = a" "mem_size_aligned h' = of_nat n"
      by (auto elim: heap_goodE)
    have c: "heap_core h' bs" and ti: "tight bs" using b(2) by (simp_all add: heap_inv_def)
    show "sys s'" using heap_idleD(1) [OF b(1)] .
    show "set ps = fst ` heap_live (s', h')" using d(2) by simp
    show "fst x mod 4 = 0" "extent x \<subseteq> {a + 12..<a + n + 12}" if "x \<in> heap_live (s', h')" for x
      using live_range [OF b(2), of "fst x" "snd x" s'] that by (auto simp: extent_def b(3,4) n)
    show "extent x \<inter> extent y = {}" if "x \<in> heap_live (s', h')" "y \<in> heap_live (s', h')" "x \<noteq> y" for x y
      by (rule live_apart(1) [OF b(2) that])
    assume "ps = []"
    then have "used_exts 0 bs = {}" using d(2) by (simp add: heap_live_eq [OF b(2)])
    then obtain k where k: "bs = [(k, False)]" using tight_no_used [OF ti heap_coreD(2) [OF c]] by blast
    then have "k = n + 12" using heap_coreD(4) [OF c] b(4) n by simp
    then show "heap_blocks h' = [(n + 12, False)]" "used_mem h' = 0" using heap_blocks_eq [OF c] heap_coreD(10) [OF c] k by simp_all
  qed
qed

lemma malloc_complete:
  assumes "heap_good a m (s, h)" "unat sz + 3 < 2 ^ 32"
  shows "ok (finish (rt_malloc sz (s, h))) (\<lambda>(p, s', h'). heap_good a m (s', h') \<and> h_bytes h' = h_bytes h \<and>
    (if p = RT_NULL then h' = h \<and> (sz = 0 \<or> m < RT_ALIGN sz 4 \<or> no_fit (unat (malloc_size sz)) h (heap_blocks h))
     else \<exists>n \<ge> unat sz. heap_live (s', h') = insert (p, n) (heap_live (s, h)) \<and> (\<forall>x \<in> heap_live (s, h). extent (p, n) \<inter> extent x = {})))"
proof -
  obtain bs where sh: "heap_idle (s, h)" "heap_inv h bs" "lfree_lowest h bs" "heap_ptr h = a" "mem_size_aligned h = m"
    using assms(1) by (auto elim: heap_goodE)
  have bs: "heap_blocks h = bs" using sh(2) heap_blocks_eq by (simp add: heap_inv_def)
  obtain p s' h' bs' where r: "\<forall>k :: nat \<Rightarrow> nat act. rt_malloc_then sz k (s, h) = k p (s', h')" "heap_idle (s', h')" "heap_inv h' bs'"
    "heap_ptr h' = heap_ptr h" "mem_size_aligned h' = mem_size_aligned h" "h_bytes h' = h_bytes h" "lfree_lowest h bs \<longrightarrow> lfree_lowest h' bs'"
    "if p = RT_NULL then h' = h \<and> (sz = 0 \<or> mem_size_aligned h < RT_ALIGN sz 4 \<or> (lfree_lowest h bs \<longrightarrow> no_fit (unat (malloc_size sz)) h bs))
     else p \<notin> fst ` heap_live (s, h) \<and> (\<exists>n \<ge> unat (malloc_size sz). heap_live (s', h') = insert (p, n) (heap_live (s, h)))"
    using malloc_live [OF sh(1,2), of sz] by blast
  have low: "lfree_lowest h' bs'" using r(7) sh(3) by simp
  have run: "finish (rt_malloc sz (s, h)) = Some (p, s', h')" by (simp add: rt_malloc_def r(1) finish_def ret_def)
  have g: "heap_good a m (s', h')" using heap_goodI [OF r(2,3) low] sh(4,5) r(4,5) by simp
  show ?thesis
  proof (cases "p = RT_NULL")
    case True
    then show ?thesis using r(6,8) g sh(3,5) by (simp add: run ok_Some bs)
  next
    case False
    then obtain n where n: "p \<notin> fst ` heap_live (s, h)" "unat (malloc_size sz) \<le> n" "heap_live (s', h') = insert (p, n) (heap_live (s, h))"
      using r(8) by auto
    have ap: "extent (p, n) \<inter> extent x = {}" if "x \<in> heap_live (s, h)" for x
      by (rule live_apart(1) [OF r(3), of "(p, n)" s' x]) (use n(1,3) that in force)+
    have "unat sz \<le> n" using le_trans [OF malloc_size_ok(4) [OF assms(2)] n(2)] .
    then have "\<exists>n \<ge> unat sz. heap_live (s', h') = insert (p, n) (heap_live (s, h)) \<and> (\<forall>x \<in> heap_live (s, h). extent (p, n) \<inter> extent x = {})"
      using n(3) ap by blast
    then show ?thesis using False g r(6) by (simp add: run ok_Some)
  qed
qed

text \<open>
  C23. \<open>rt_malloc\<close> searches completely. In every heap that comes from \<open>rt_malloc\<close> and \<open>rt_free\<close> it gives \<open>RT_NULL\<close> only for the size
  0, for a size beyond that of the heap, or when every free block that is large enough lies so close to the end of the heap that the
  search does not reach it; then nothing changes. Otherwise the result is a new extent of at least the wanted size that overlaps no
  other. The contents of the memory do not change.
\<close>

theorem rt_malloc_complete:
  assumes "heap_good a m (s, h)" "unat sz + 3 < 2 ^ 32"
  shows "ok (finish (rt_malloc sz (s, h))) (\<lambda>(p, s', h'). heap_good a m (s', h') \<and> h_bytes h' = h_bytes h \<and>
    (if p = RT_NULL then h' = h \<and> (sz = 0 \<or> m < RT_ALIGN sz 4 \<or> no_fit (unat (malloc_size sz)) h (heap_blocks h))
     else \<exists>n \<ge> unat sz. heap_live (s', h') = insert (p, n) (heap_live (s, h)) \<and> (\<forall>x \<in> heap_live (s, h). extent (p, n) \<inter> extent x = {})))"
  by (rule malloc_complete [OF assms])

text \<open>Resizing.\<close>

lemma realloc_same_live:
  assumes inv: "heap_inv h (xs @ (n, True) # ys)"
    and inv': "heap_inv h' (xs @ (k, True) # merge_next (n - k) ys)" and hp: "heap_ptr h' = heap_ptr h" and k: "k \<le> n"
  shows "heap_live (s', h') = insert (heap_ptr h + span xs + 12, k - 12) (heap_live (s, h) - {(heap_ptr h + span xs + 12, n - 12)})"
proof -
  let ?f = "\<lambda>(p, n). (heap_ptr h + p, n :: nat)"
  have si: "sized (xs @ (n, True) # ys)" using inv by (simp add: heap_inv_def heap_core_def)
  have "used_exts 0 (xs @ (n, True) # ys) - {(span xs + 12, n - 12)} = used_exts 0 xs \<union> used_exts (span xs + n) ys"
    using used_exts_gap [OF si, of "n - 12"] by auto
  moreover have "used_exts 0 (xs @ (k, True) # merge_next (n - k) ys) = insert (span xs + 12, k - 12) (used_exts 0 xs \<union> used_exts (span xs + n) ys)"
    using k by auto
  ultimately have "used_exts 0 (xs @ (k, True) # merge_next (n - k) ys) = insert (span xs + 12, k - 12) (used_exts 0 (xs @ (n, True) # ys) - {(span xs + 12, n - 12)})"
    by simp
  then show ?thesis
    unfolding heap_live_eq [OF inv] heap_live_eq [OF inv'] hp
    by (simp add: image_set_diff [OF shift_inj] add.assoc del: used_exts.simps used_exts_append)
qed

lemma realloc_run:
  fixes newsize :: rt_uint32_t
  assumes idle: "heap_idle (s, h)" and inv: "heap_inv h (xs @ (k, True) # ys)"
  defines "p \<equiv> heap_ptr h + span xs + 12" and "s1 \<equiv> left_heap (entered s)" and "z \<equiv> RT_ALIGN newsize 4"
  shows "rt_realloc p newsize (s, h) =
    (if mem_size_aligned h < z then ret RT_NULL (s, h)
     else if z = of_nat (k - 12) then ret p (s1, h)
     else if unat z + 24 < k - 12 then do { h \<leftarrow> realloc_split (of_nat (span xs)) (of_nat (k - 12)) z h; ret p (s1, h) }
     else rt_malloc_then z (\<lambda>nmem (s, h).
       if nmem \<noteq> RT_NULL then
         rt_free_then p (ret nmem) (s, h\<lparr>h_bytes := rt_memcpy nmem p (unat (if of_nat (k - 12) < z then of_nat (k - 12) else z)) (h_bytes h)\<rparr>)
       else ret RT_NULL (s, h)) (s1, h))"
proof -
  let ?bs = "xs @ (k, True) # ys"
  have c: "heap_core h ?bs" using inv by (simp add: heap_inv_def)
  note I = heap_idleD [OF idle] and D = heap_coreD [OF c]
  have kk: "12 \<le> k" "sized ys" using D(3) by simp_all
  have la: "12 < fst (last ?bs)" using inv by (simp add: heap_inv_def)
  have "12 < k + span ys" using la kk by (cases ys) auto
  then have rng: "heap_ptr h + 12 \<le> p" "p < heap_ptr h + unat (heap_end h)" "p \<noteq> RT_NULL" "p - 12 - heap_ptr h = span xs"
    unfolding heap_coreD_end [OF c] p_def by simp_all
  have hm: "hm_next (hdr h (of_nat (span xs))) - of_nat (span xs) - 12 = of_nat (k - 12)"
    using hdr_mid [OF c] kk(1) by (simp add: of_nat_diff)
  have lt: "unat (of_nat (k - 12) :: rt_uint32_t) = k - 12" by (rule offset_id [OF c]) simp
  have sp: "z + 12 + 12 < of_nat (k - 12) \<longleftrightarrow> unat z + 24 < k - 12" if "\<not> mem_size_aligned h < z"
  proof -
    have "unat z \<le> unat (mem_size_aligned h)" using that by (simp add: word_le_nat_alt word_less_nat_alt)
    then have "unat z + 24 < 2 ^ 32" using D(4,7,8) by simp
    then have "unat (z + 24) = unat z + 24" by (simp add: unat_word_ariths)
    then show ?thesis using lt by (simp add: word_less_nat_alt add.assoc)
  qed
  have lv: "k_tlist (entered s) (Suspend (Obj_sem heap_sem)) = []" using I(6) by simp
  have en: "\<not> (p < heap_ptr h \<or> heap_ptr h + unat (heap_end h) \<le> p)" using rng(1,2) by simp
  have run: "rt_realloc p newsize (s, h) = (if mem_size_aligned h < z then ret RT_NULL (s, h)
     else if of_nat (k - 12) = z then ret p (s1, h)
     else if z + 12 + 12 < of_nat (k - 12) then do { h \<leftarrow> realloc_split (of_nat (span xs)) (of_nat (k - 12)) z h; ret p (s1, h) }
     else rt_malloc_then z (\<lambda>nmem (s, h).
       if nmem \<noteq> RT_NULL then
         rt_free_then p (ret nmem) (s, h\<lparr>h_bytes := rt_memcpy nmem p (unat (if of_nat (k - 12) < z then of_nat (k - 12) else z)) (h_bytes h)\<rparr>)
       else ret RT_NULL (s, h)) (s1, h))"
    unfolding rt_realloc_def RT_DEBUG_NOT_IN_INTERRUPT_def prod.case I(2) Let_def z_def [symmetric] heap_enter_free [OF idle] if_not_P [OF rng(3)]
      if_not_P [OF en] rng(4) hm heap_leave_free [OF lv] s1_def
    using rng(1) by simp
  show ?thesis
    unfolding run using sp by (cases "mem_size_aligned h < z"; cases "z = of_nat (k - 12)") (simp_all del: of_nat_diff)
qed

lemma live_others:
  assumes "heap_inv h bs" "heap_live (s, h) = insert (q, k) L" "q \<notin> fst ` L"
  shows "\<forall>x \<in> L. extent (q, k) \<inter> extent x = {}"
  using live_apart(1) [OF assms(1), of "(q, k)" s] assms(2,3) by force

lemma malloc_size_ge: "unat (RT_ALIGN sz 4) \<le> unat (malloc_size (RT_ALIGN sz 4))"
  using align_id [OF align_mod(1) [of sz]] by (simp add: malloc_size_def Let_def word_less_nat_alt)

text \<open>
  C24. \<open>rt_realloc\<close> of a held pointer. When it gives \<open>RT_NULL\<close>, the heap is as before. Otherwise the old extent is replaced by one
  of at least the new size, which overlaps no other; the bytes that both sizes have in common are those of the old extent, and the
  bytes of all other extents are unchanged.
\<close>

theorem rt_realloc_correct:
  assumes idle: "heap_idle (s, h)" and inv: "heap_inv h bs" and p: "(p, n) \<in> heap_live (s, h)" and sz: "unat newsize + 3 < 2 ^ 32"
  shows "ok (finish (rt_realloc p newsize (s, h))) (\<lambda>(q, s', h'). heap_idle (s', h') \<and> heap_inv h' (heap_blocks h') \<and>
    (if q = RT_NULL then h' = h
     else \<exists>k \<ge> unat newsize. heap_live (s', h') = insert (q, k) (heap_live (s, h) - {(p, n)}) \<and>
       (\<forall>x \<in> heap_live (s, h) - {(p, n)}. extent (q, k) \<inter> extent x = {} \<and> (\<forall>i \<in> extent x. h_bytes h' i = h_bytes h i)) \<and>
       (\<forall>i < min n (unat newsize). h_bytes h' (q + i) = h_bytes h (p + i))))"
proof -
  let ?z = "RT_ALIGN newsize 4"
  obtain xs k ys where b: "bs = xs @ (k, True) # ys" "p = heap_ptr h + span xs + 12" "n = k - 12"
  proof -
    obtain q where q: "(q, n) \<in> used_exts 0 bs" "p = heap_ptr h + q" using p by (auto simp: heap_live_eq [OF inv])
    then show thesis using used_exts_split [OF q(1)] that by auto
  qed
  have c: "heap_core h bs" and bl: "heap_blocks h = bs" using inv heap_blocks_eq by (auto simp: heap_inv_def)
  note run = realloc_run [OF idle inv [unfolded b(1)], of newsize, folded b(2,3)]
  let ?s1 = "left_heap (entered s)" and ?L = "heap_live (s, h) - {(p, n)}"
  let ?Q = "\<lambda>(q, s', h'). heap_idle (s', h') \<and> heap_inv h' (heap_blocks h') \<and>
    (if q = RT_NULL then h' = h
     else \<exists>k \<ge> unat newsize. heap_live (s', h') = insert (q, k) ?L \<and>
       (\<forall>x \<in> ?L. extent (q, k) \<inter> extent x = {} \<and> (\<forall>i \<in> extent x. h_bytes h' i = h_bytes h i)) \<and>
       (\<forall>i < min n (unat newsize). h_bytes h' (q + i) = h_bytes h (p + i)))"
  have il: "heap_idle (?s1, h)" using heap_idle_again(1) [OF idle] heap_idleD(5) [OF idle] by simp
  have kk: "12 \<le> k" using heap_coreD(3) [OF c] b(1) by simp
  have un: "unat (of_nat n :: rt_uint32_t) = n" by (rule offset_id [OF c]) (simp add: b(1,3))
  have pL: "p \<notin> fst ` ?L" using live_apart(2) [OF inv p] by force
  have p0: "p \<noteq> RT_NULL" by (simp add: b(2))
  note ge = align_ge [OF sz]
  have fin: "?Q (q, s', h')" if "heap_idle (s', h')" "heap_inv h' bs'" "unat newsize \<le> l" "heap_live (s', h') = insert (q, l) ?L" "q \<notin> fst ` ?L"
    "\<forall>x \<in> ?L. \<forall>i \<in> extent x. h_bytes h' i = h_bytes h i" "\<forall>i < min n (unat newsize). h_bytes h' (q + i) = h_bytes h (p + i)" "q \<noteq> RT_NULL"
    for q s' h' bs' l
  proof -
    have "heap_inv h' (heap_blocks h')" using that(2) heap_blocks_eq [of h' bs'] by (simp add: heap_inv_def)
    moreover have "\<forall>x \<in> ?L. extent (q, l) \<inter> extent x = {}" by (rule live_others [OF that(2,4,5)])
    ultimately show ?thesis using that(1,3,4,6-8) by auto
  qed
  consider "mem_size_aligned h < ?z" | "\<not> mem_size_aligned h < ?z" "?z = of_nat n"
    | "\<not> mem_size_aligned h < ?z" "?z \<noteq> of_nat n" "unat ?z + 24 < n" | "\<not> mem_size_aligned h < ?z" "?z \<noteq> of_nat n" "\<not> unat ?z + 24 < n"
    by blast
  then show ?thesis
  proof cases
    case 1
    then show ?thesis using idle inv by (simp add: run ret_def finish_def ok_Some bl)
  next
    case 2
    have "?Q (p, ?s1, h)"
      by (rule fin [OF il inv _ _ pL]) (use p ge 2(2) un p0 in \<open>auto simp: heap_live_def\<close>)
    moreover have "finish (rt_realloc p newsize (s, h)) = Some (p, ?s1, h)" using 2 by (simp add: run ret_def finish_def)
    ultimately show ?thesis by (simp only: ok_Some)
  next
    case 3
    have m: "unat ?z mod 4 = 0" "unat ?z + 24 < k" using align_mod(1) 3(3) b(3) by auto
    obtain h1 where h1: "realloc_split (of_nat (span xs)) (of_nat (k - 12)) ?z h = Some h1"
      "heap_inv h1 (xs @ (unat ?z + 12, True) # merge_next (k - (unat ?z + 12)) ys)" "heap_ptr h1 = heap_ptr h" "mem_size_aligned h1 = mem_size_aligned h"
      "h_bytes h1 = h_bytes h"
      using realloc_split_ok [OF inv [unfolded b(1)] m] by (elim okE) blast
    have l: "heap_live (?s1, h1) = insert (p, unat ?z) ?L"
      using realloc_same_live [OF inv [unfolded b(1)] h1(2,3)] m(2) by (simp add: b(2,3))
    have i1: "heap_idle (?s1, h1)" using heap_idle_again(3) [OF il] heap_idleD(5) [OF idle] h1(4) by simp
    have "?Q (p, ?s1, h1)" by (rule fin [OF i1 h1(2) ge l pL]) (use p0 h1(5) in simp_all)
    moreover have "finish (rt_realloc p newsize (s, h)) = Some (p, ?s1, h1)" using 3 h1(1) by (simp add: run ret_def finish_def b(3))
    ultimately show ?thesis by (simp only: ok_Some)
  next
    case 4
    obtain q s2 h2 bs2 where r: "\<forall>k :: nat \<Rightarrow> nat act. rt_malloc_then ?z k (?s1, h) = k q (s2, h2)" "heap_idle (s2, h2)" "heap_inv h2 bs2"
      "heap_ptr h2 = heap_ptr h" "mem_size_aligned h2 = mem_size_aligned h" "h_bytes h2 = h_bytes h"
      "if q = RT_NULL then h2 = h \<and> (?z = 0 \<or> mem_size_aligned h < RT_ALIGN ?z 4 \<or> (lfree_lowest h bs \<longrightarrow> no_fit (unat (malloc_size ?z)) h bs))
       else q \<notin> fst ` heap_live (?s1, h) \<and> (\<exists>n \<ge> unat (malloc_size ?z). heap_live (s2, h2) = insert (q, n) (heap_live (?s1, h)))"
      using malloc_live [OF il inv, of ?z] by blast
    show ?thesis
    proof (cases "q = RT_NULL")
      case True
      then have "h2 = h" using r(7) by simp
      then show ?thesis using 4 r(1,2) True inv by (simp add: run ret_def finish_def ok_Some bl)
    next
      case False
      have li: "heap_live (?s1, h) = heap_live (s, h)" by (simp add: heap_live_def)
      obtain l where l: "q \<notin> fst ` heap_live (s, h)" "unat (malloc_size ?z) \<le> l" "heap_live (s2, h2) = insert (q, l) (heap_live (s, h))"
        using r(7) False unfolding li by auto
      let ?c = "unat (if of_nat n < ?z then of_nat n else ?z)"
      let ?h3 = "h2\<lparr>h_bytes := rt_memcpy q p ?c (h_bytes h2)\<rparr>"
      have i3: "heap_idle (s2, ?h3)" "heap_inv ?h3 bs2" using r(2,3) by (simp_all add: heap_idle_def heap_inv_def)
      have l3: "heap_live (s2, ?h3) = insert (q, l) (heap_live (s, h))"
        using l(3) heap_live_eq [OF i3(2), of s2] heap_live_eq [OF r(3), of s2] by simp
      obtain s4 h4 bs4 where f: "\<forall>k :: nat act. rt_free_then p k (s2, ?h3) = k (s4, h4)" "heap_idle (s4, h4)" "heap_inv h4 bs4" "h_bytes h4 = h_bytes ?h3"
        "heap_live (s4, h4) = heap_live (s2, ?h3) - {(p, n)}"
        using free_live [OF i3, of p n] p l3 by blast
      have qp: "q \<noteq> p" using l(1) p by force
      have l4: "heap_live (s4, h4) = insert (q, l) ?L" using f(5) l3 qp by auto
      have run4: "finish (rt_realloc p newsize (s, h)) = Some (q, s4, h4)"
        using 4 r(1) f(1) False by (simp add: run finish_def ret_def)
      have cc: "?c = min n (unat ?z)" using un by (simp add: word_less_nat_alt min_def)
      have zl: "unat ?z \<le> l" using l(2) malloc_size_ge [of newsize] by simp
      have ap: "\<forall>x \<in> heap_live (s, h). extent (q, l) \<inter> extent x = {}" by (rule live_others [OF r(3) l(3,1)])
      have "q \<le> p \<or> p + ?c \<le> q"
      proof (rule ccontr)
        assume "\<not> ?thesis"
        then have "q \<in> extent (q, l) \<inter> extent (p, n)" using zl cc by (auto simp: extent_def)
        then show False using ap p by blast
      qed
      from rt_memcpy_copy [OF this] have by4: "h_bytes h4 = mem_copy q p ?c (h_bytes h)" using f(4) r(6) by simp
      have ot: "h_bytes h4 i = h_bytes h i" if "x \<in> ?L" "i \<in> extent x" for x i
      proof -
        have "i \<notin> extent (q, l)" using ap that by blast
        then show ?thesis using zl cc by (auto simp: by4 mem_copy_def extent_def)
      qed
      have eqs: "h_bytes h4 (q + i) = h_bytes h (p + i)" if "i < min n (unat newsize)" for i
        using that ge cc by (simp add: by4 mem_copy_def)
      have "?Q (q, s4, h4)" by (rule fin [OF f(2,3) _ l4]) (use ge zl l(1) ot eqs False in auto)
      then show ?thesis by (simp only: run4 ok_Some)
    qed
  qed
qed


section \<open>Limits\<close>

text \<open>
  A request of more than \<open>0xfffffffc\<close> bytes is rounded up to 0 and treated as one for twelve bytes.
\<close>

lemma align_wraps: "0xfffffffd \<le> sz \<Longrightarrow> RT_ALIGN sz 4 = 0 \<and> malloc_size sz = 12"
proof -
  assume "0xfffffffd \<le> sz"
  then have "0xfffffffd \<le> unat sz" by (simp add: word_le_nat_alt)
  moreover have "unat sz < 0x100000000" using unsigned_less [of sz, where 'a = nat] by simp
  moreover have "unat (sz + 3) = (unat sz + 3) mod 0x100000000" by (simp add: unat_word_ariths)
  moreover have "x + 3 - 0x100000000 < 4" if "x < 0x100000000" for x :: nat using that by arith
  ultimately have "unat (sz + 3) < 4" by (simp add: le_mod_geq)
  then have "unat (RT_ALIGN sz 4) = 0" by (simp add: RT_ALIGN_def unat_and_minus_4 add.commute [of 3])
  then have "RT_ALIGN sz 4 = 0" by (simp add: unat_eq_zero)
  then show ?thesis by (simp add: malloc_size_def)
qed

theorem rt_malloc_wraps:
  assumes "heap_good a m (s, h)" "heap_blocks h = [(n + 12, False)]" "36 \<le> n" "0xfffffffd \<le> sz"
  shows "ok (finish (rt_malloc sz (s, h))) (\<lambda>(p, s', h'). p = a + 12 \<and> heap_live (s', h') = {(p, 12)})"
proof -
  obtain bs where sh: "heap_idle (s, h)" "heap_inv h bs" "lfree_lowest h bs" "heap_ptr h = a" "mem_size_aligned h = m"
    using assms(1) by (auto elim: heap_goodE)
  have c: "heap_core h bs" using sh(2) by (simp add: heap_inv_def)
  have bs: "bs = [(n + 12, False)]" using heap_blocks_eq [OF c] assms(2) by simp
  have n: "unat (mem_size_aligned h) = n" using heap_coreD(4) [OF c] bs by simp
  have z: "malloc_size sz = 12" "RT_ALIGN sz 4 = 0" "sz \<noteq> 0" using align_wraps [OF assms(4)] assms(4) by auto
  obtain p s' h' where r: "\<forall>k :: nat \<Rightarrow> nat act. rt_malloc_then sz k (s, h) = k p (s', h')" "heap_ptr h' = heap_ptr h"
    "if p = RT_NULL then h' = h \<and> (sz = 0 \<or> mem_size_aligned h < RT_ALIGN sz 4 \<or> (lfree_lowest h bs \<longrightarrow> no_fit (unat (malloc_size sz)) h bs))
     else \<exists>xs n ys. bs = xs @ (n, False) # ys \<and> p = heap_ptr h + span xs + 12 \<and> unat (malloc_size sz) + 12 \<le> n \<and>
       RT_ALIGN sz 4 \<le> mem_size_aligned h \<and> heap_inv h' (xs @ cut_block (unat (malloc_size sz)) n @ ys) \<and>
       (lfree_lowest h bs \<longrightarrow> lfree_lowest h' (xs @ cut_block (unat (malloc_size sz)) n @ ys))"
    using malloc_runs [OF sh(1,2), of sz] by blast
  have "p \<noteq> RT_NULL"
  proof
    assume "p = RT_NULL"
    then have "no_fit 12 h bs" using r(3) z sh(3) by simp
    then have "unat (mem_size_aligned h) \<le> 12 + span ([] :: blocks)" unfolding no_fit_def bs using assms(3) by fastforce
    then show False using n assms(3) by simp
  qed
  then have p: "p = heap_ptr h + 12" "heap_inv h' (cut_block 12 (n + 12))" using r(3) unfolding bs z(1) by (auto simp: Cons_eq_append_conv)
  have "heap_live (s', h') = {(p, 12)}" using assms(3) by (simp add: heap_live_eq [OF p(2)] used_exts_cut r(2) p(1))
  then show ?thesis using p(1) by (simp add: rt_malloc_def r(1) finish_def ret_def ok_Some sh(4))
qed

text \<open>
  The search stops before the last place where a block could start: in a new heap of \<open>n\<close> bytes, \<open>rt_malloc\<close> refuses \<open>n\<close> bytes.
\<close>

theorem rt_malloc_refuses_all:
  assumes "heap_good a m (s, h)" "heap_blocks h = [(unat m + 12, False)]" "unat m mod 4 = 0"
  shows "ok (finish (rt_malloc m (s, h))) (\<lambda>(p, s', h'). p = RT_NULL \<and> h' = h)"
proof -
  obtain bs where sh: "heap_idle (s, h)" "heap_inv h bs" "lfree_lowest h bs" "heap_ptr h = a" "mem_size_aligned h = m"
    using assms(1) by (auto elim: heap_goodE)
  note I = heap_idleD [OF sh(1)]
  have m: "m \<noteq> 0" "12 \<le> unat m" using I(5) sh(5) by auto
  have al: "RT_ALIGN m 4 = m" by (rule align_id [OF assms(3)])
  have ms: "malloc_size m = m" using m(2) al by (simp add: malloc_size_def word_less_nat_alt)
  have "heap_scan m h (lfree h) = Some None" by (subst heap_scan.simps) (simp add: sh(5))
  then have "malloc_locked m h = Some (None, h)" by (simp add: malloc_locked_def)
  then have "rt_malloc m (s, h) = Some (Done RT_NULL, left_heap (entered s), h)"
    using I(2,6) m(1) by (simp add: rt_malloc_def rt_malloc_then_def RT_DEBUG_NOT_IN_INTERRUPT_def sh(5) al ms heap_enter_free [OF sh(1)] heap_leave_free ret_def)
  then show ?thesis by (simp add: finish_def ok_Some)
qed

text \<open>
  A heap of less than twelve bytes is accepted, but then the bound of the search wraps around and \<open>rt_malloc\<close> never returns.
\<close>

lemma heap_scan_loops:
  assumes "heap_scan sz h e = Some r" "hm_next (hdr h e) = e" "hm_used (hdr h e) \<noteq> 0" "e < mem_size_aligned h - sz"
  shows False
proof -
  have "\<not> (hm_next (hdr h e) = e \<and> hm_used (hdr h e) \<noteq> 0 \<and> e < mem_size_aligned h - sz)"
    by (rule heap_scan.raw_induct [OF _ assms(1)]) (fastforce split: if_splits)
  then show ?thesis using assms(2-4) by blast
qed

theorem rt_malloc_small_heap:
  assumes c: "heap_core h [(n + 12, False)]" and n: "n < 12" "lfree h = 0" and e: "hm_next (hdr h (heap_end h)) = heap_end h"
  shows "malloc_locked 12 h = None"
proof -
  note D = heap_coreD [OF c]
  let ?e = "heap_end h"
  have ue: "unat ?e = n + 12" using heap_coreD_end [OF c] by simp
  have m: "mem_size_aligned h = of_nat n" "?e = of_nat (n + 12)" using D(4) heap_end_eq [OF c] by simp_all
  have us: "hm_used (hdr h ?e) \<noteq> 0" using D(6) ue by simp
  have um: "unat (mem_size_aligned h) = n" using D(4) by simp
  have "unat (mem_size_aligned h - 12) = 2 ^ 32 - 12 + n"
    using n(1) um by (simp add: unat_sub_if')
  then have b: "0 < mem_size_aligned h - 12" "?e < mem_size_aligned h - 12" using ue n(1) by (simp_all add: word_less_nat_alt)
  have "heap_scan 12 h ?e = None" using heap_scan_loops [OF _ e us b(2)] by (cases "heap_scan 12 h ?e") auto
  moreover have "hdr h 0 = \<lparr>hm_magic = HEAP_MAGIC, hm_used = 0, hm_next = ?e, hm_prev = 0\<rparr>" using D(1) m(2) by simp
  moreover have "\<not> 12 \<le> ?e - 12" using m n(1) um by (simp add: word_le_nat_alt)
  ultimately have "heap_scan 12 h 0 = None" using b(1) by (subst heap_scan.simps) simp
  then show ?thesis by (simp add: malloc_locked_def n(2))
qed

text \<open>
  \<open>rt_realloc\<close> makes a free block when it shrinks one, but does not move \<open>lfree\<close> down to it: the block is below the place where
  every later search begins.
\<close>

theorem rt_realloc_hides:
  assumes idle: "heap_idle (s, h)" and inv: "heap_inv h (xs @ (k, True) # (j, True) # ys)"
    and z: "unat newsize mod 4 = 0" "unat newsize + 36 < k" "newsize \<le> mem_size_aligned h" and l: "span xs + k \<le> unat (lfree h)"
  shows "ok (finish (rt_realloc (heap_ptr h + span xs + 12) newsize (s, h))) (\<lambda>(q, s', h').
    heap_blocks h' = xs @ (unat newsize + 12, True) # (k - (unat newsize + 12), False) # (j, True) # ys \<and> \<not> lfree_lowest h' (heap_blocks h'))"
proof -
  let ?p = "heap_ptr h + span xs + 12" and ?bs = "xs @ (unat newsize + 12, True) # (k - (unat newsize + 12), False) # (j, True) # ys"
  have al: "RT_ALIGN newsize 4 = newsize" by (rule align_id [OF z(1)])
  have c: "heap_core h (xs @ (k, True) # (j, True) # ys)" using inv by (simp add: heap_inv_def)
  have u: "unat (of_nat (k - 12) :: rt_uint32_t) = k - 12" by (rule offset_id [OF c]) simp
  have k: "unat newsize + 24 < k" "\<not> mem_size_aligned h < newsize" "newsize \<noteq> of_nat (k - 12)" "unat newsize + 24 < k - 12"
    using z(2,3) u by auto
  obtain h1 where h1: "realloc_split (of_nat (span xs)) (of_nat (k - 12)) newsize h = Some h1" "heap_inv h1 ?bs" "lfree h1 = lfree h"
    using realloc_split_ok [OF inv z(1) k(1)] by (elim okE) auto
  have "finish (rt_realloc ?p newsize (s, h)) = Some (?p, left_heap (entered s), h1)"
    using h1(1) k(2-4) by (simp add: realloc_run [OF idle inv] al finish_def ret_def)
  moreover have "heap_blocks h1 = ?bs" using h1(2) heap_blocks_eq by (simp add: heap_inv_def)
  moreover have "span xs + (unat newsize + 12) \<in> free_offs 0 ?bs" by simp
  moreover have "\<not> unat (lfree h1) \<le> span xs + (unat newsize + 12)" using l h1(3) z(2) by simp
  ultimately show ?thesis unfolding lfree_lowest_def by (auto simp: ok_Some)
qed

section \<open>An example\<close>

text \<open>A heap of 1000 bytes at \<open>0x2000\<close>, set up in the system of \<open>demo\<close>.\<close>

definition demo_heap :: heap where
  "demo_heap = \<lparr>heap_ptr = 0, heap_end = 0, lfree = 0, mem_size_aligned = 0, used_mem = 0, max_mem = 0,
     h_mem = (\<lambda>_. \<lparr>hm_magic = 0, hm_used = 0, hm_next = 0, hm_prev = 0\<rparr>), h_bytes = (\<lambda>_. 0)\<rparr>"

lemma demo_heap_area:
  "0x2000 = unat (RT_ALIGN 0x2000 4)" "(0 :: nat) < 0x2000" "unat (RT_ALIGN_DOWN 0x2402 4) = 0x2000 + 1000 + 24" "used_mem demo_heap = 0"
  "k_interrupt_nest demo = 0" "k_tlist demo (Suspend (Obj_sem heap_sem)) = []"
  by (simp_all add: RT_ALIGN_def RT_ALIGN_DOWN_def demo_heap_def heap_sem_def)

theorem rt_heap_client_safe_witness:
  "ok (do { st \<leftarrow> rt_system_heap_init 0x2000 0x2402 (demo, demo_heap);
       client_run malloc_now free_now [Request 100, Request 7, Release 1, Request 50, Release 0, Release 0] ([], st) })
     (\<lambda>(ps, s', h'). sys s' \<and> distinct ps \<and> (ps = [] \<longrightarrow> heap_blocks h' = [(1012, False)] \<and> used_mem h' = 0))"
  by (rule ok_mono [OF rt_heap_client_safe [OF demo_sys demo_heap_area(5,6,4,1-3)]]) auto

lemma demo_heap_init:
  obtains s h where "rt_system_heap_init 0x2000 0x2402 (demo, demo_heap) = Some (s, h)" "heap_good 0x2000 1000 (s, h)" "heap_blocks h = [(1012, False)]"
  using heap_init_ok [OF demo_sys demo_heap_area(5,6,4,1-3)] by (auto elim!: okE)

lemma demo_heap_fits: "mem_size_aligned h = 1000 \<Longrightarrow> heap_blocks h = [(1012, False)] \<Longrightarrow> \<not> no_fit 100 h (heap_blocks h)"
  by (auto simp: no_fit_def intro!: exI [of _ "[]"])

lemma demo_heap_size: "malloc_size 100 = 100" "RT_ALIGN 100 4 = 100"
  by (simp_all add: malloc_size_def RT_ALIGN_def)

theorem rt_malloc_complete_witness:
  "ok (do { st \<leftarrow> rt_system_heap_init 0x2000 0x2402 (demo, demo_heap); finish (rt_malloc 100 st) })
     (\<lambda>(p, s', h'). heap_good 0x2000 1000 (s', h') \<and> p \<noteq> RT_NULL \<and> (\<exists>n \<ge> 100. heap_live (s', h') = {(p, n)}))"
proof -
  obtain s h where i: "rt_system_heap_init 0x2000 0x2402 (demo, demo_heap) = Some (s, h)" "heap_good 0x2000 1000 (s, h)" "heap_blocks h = [(1012, False)]"
    by (rule demo_heap_init)
  have "mem_size_aligned h = 1000" "heap_live (s, h) = {}" using i(2,3) by (simp_all add: heap_good_def heap_live_def)
  then show ?thesis
    using rt_malloc_complete [OF i(2), of 100] demo_heap_fits [OF _ i(3)] demo_heap_size by (auto simp: i(1) elim!: ok_mono split: if_splits)
qed

lemma demo_heap_malloc:
  obtains s h p n s1 h1 where "rt_system_heap_init 0x2000 0x2402 (demo, demo_heap) = Some (s, h)" "malloc_now 100 (s, h) = Some (p, s1, h1)"
    "heap_good 0x2000 1000 (s1, h1)" "heap_live (s1, h1) = {(p, n)}"
proof -
  obtain s h where i: "rt_system_heap_init 0x2000 0x2402 (demo, demo_heap) = Some (s, h)" "heap_good 0x2000 1000 (s, h)" "heap_blocks h = [(1012, False)]"
    by (rule demo_heap_init)
  have "mem_size_aligned h = 1000" "heap_live (s, h) = {}" using i(2,3) by (simp_all add: heap_good_def heap_live_def)
  then have "ok (finish (rt_malloc 100 (s, h))) (\<lambda>(p, s', h'). heap_good 0x2000 1000 (s', h') \<and> (\<exists>n. heap_live (s', h') = {(p, n)}))"
    using malloc_complete [OF i(2), of 100] demo_heap_fits [OF _ i(3)] demo_heap_size by (auto elim!: ok_mono split: if_splits)
  then show thesis using that i(1) by (auto simp: malloc_now_def elim!: okE)
qed

theorem rt_realloc_correct_witness:
  "ok (do { st \<leftarrow> rt_system_heap_init 0x2000 0x2402 (demo, demo_heap); (p, st) \<leftarrow> malloc_now 100 st; finish (rt_realloc p 40 st) })
     (\<lambda>(q, s', h'). if q = RT_NULL then heap_live (s', h') \<noteq> {} else \<exists>k \<ge> 40. heap_live (s', h') = {(q, k)})"
proof -
  obtain s h p n s1 h1 where i: "rt_system_heap_init 0x2000 0x2402 (demo, demo_heap) = Some (s, h)" "malloc_now 100 (s, h) = Some (p, s1, h1)"
    "heap_good 0x2000 1000 (s1, h1)" "heap_live (s1, h1) = {(p, n)}"
    by (rule demo_heap_malloc)
  then have g: "heap_idle (s1, h1)" "heap_inv h1 (heap_blocks h1)" "(p, n) \<in> heap_live (s1, h1)" by (simp_all add: heap_good_def)
  have l: "heap_live (s', h1) = {(p, n)}" for s' using i(4) by (simp add: heap_live_def)
  show ?thesis
    unfolding i(1) bind.bind_lunit i(2) prod.case
    by (rule ok_mono [OF rt_realloc_correct [OF g, of 40]]) (auto simp: i(4) l split: if_splits)
qed


end
