(* ===== verification/Spec2Isabelle.thy ===== *)
theory Spec2Isabelle
  imports Semaphore Mutex Event Mailbox MessageQueue Mempool HeapCalls
begin

text \<open>
  RT-Thread kernel.
\<close>

end
